(* ===== verification/Go_Prelude.thy ===== *)
theory Go_Prelude
  imports Complex_Main "HOL-Library.Word" "HOL-Library.Sublist" "HOL-Library.Multiset"
begin

text \<open>
  What every component of \<^verbatim>\<open>tp\<close> shares: bytes and strings, the errors the code returns,
  \<^verbatim>\<open>time.Time\<close> and \<^verbatim>\<open>time.Duration\<close>, and the generic list lemmas the component
  theories use.

  \<^item> A Go \<^verbatim>\<open>[]byte\<close> is a \<open>byte list\<close> where no claim depends on aliasing; the theory
    \<open>Go_Slice\<close> adds an explicit heap for the buffers of the paste store.
  \<^item> A Go \<^verbatim>\<open>string\<close> is a \<open>char list\<close>, one \<open>char\<close> per byte.
  \<^item> A \<^verbatim>\<open>time.Duration\<close> counts nanoseconds. A \<^verbatim>\<open>time.Time\<close> counts nanoseconds
    since the zero \<^verbatim>\<open>Time\<close>, which is therefore 0 (\<^verbatim>\<open>IsZero\<close>).
  \<^item> A Go \<^verbatim>\<open>(T, error)\<close> result is a sum, the error on the left.
\<close>

section \<open>Bytes, strings, results\<close>

type_synonym byte = "8 word"
type_synonym bytes = "byte list"

text \<open>\<^verbatim>\<open>[]byte(s)\<close>: the bytes of a string.\<close>

definition bytes_of :: "string \<Rightarrow> bytes" where
  "bytes_of s = map of_char s"

lemma length_bytes_of [simp]: "length (bytes_of s) = length s"
  by (simp add: bytes_of_def)

lemma bytes_of_append [simp]: "bytes_of (s @ t) = bytes_of s @ bytes_of t"
  by (simp add: bytes_of_def)

text \<open>
  The error values of the source. \<open>ErrProtocol\<close>, \<open>ErrNoMatch\<close>, \<open>ErrBadPoint\<close>,
  \<open>ErrTooMany\<close>, \<open>ErrCollision\<close> are its sentinel variables, \<open>PinMismatch\<close> its
  \<^verbatim>\<open>pinMismatchError\<close>; \<open>BadShape\<close>, \<open>UnknownWord\<close> and
  \<open>AmbiguousWord\<close> are the errors of \<^verbatim>\<open>canonical\<close> and \<^verbatim>\<open>expand\<close> with what
  their messages print; \<open>ErrEOF\<close>, \<open>ErrUnexpectedEOF\<close>, \<open>ErrWrite\<close> are what a
  broken connection returns; \<open>ErrMsg\<close> is an error built with \<^verbatim>\<open>fmt.Errorf\<close> or
  \<^verbatim>\<open>errors.New\<close> whose text is not part of a contract.
\<close>

datatype go_error =
    ErrProtocol
  | ErrNoMatch
  | ErrBadPoint
  | ErrTooMany
  | ErrCollision
  | BadShape string
  | UnknownWord string
  | AmbiguousWord string nat
  | PinMismatch string string string
  | ErrEOF
  | ErrUnexpectedEOF
  | ErrWrite
  | ErrOpen
  | ErrPanic
  | ErrMsg string

type_synonym 'a result = "go_error + 'a"

text \<open>\<^verbatim>\<open>if err != nil { return err }\<close>: stop at the first error.\<close>

definition and_then :: "'a result \<Rightarrow> ('a \<Rightarrow> 'b result) \<Rightarrow> 'b result" where
  "and_then r f = (case r of Inl e \<Rightarrow> Inl e | Inr a \<Rightarrow> f a)"

lemma and_then_simps [simp]:
  "and_then (Inl e) f = Inl e"
  "and_then (Inr a) f = f a"
  by (simp_all add: and_then_def)

lemma and_then_Inr_iff:
  "and_then r f = Inr b \<longleftrightarrow> (\<exists>a. r = Inr a \<and> f a = Inr b)"
  by (cases r) simp_all

section \<open>Time\<close>

type_synonym gotime = int
type_synonym duration = int

named_theorems go_const

definition Nanosecond :: duration where [go_const]: "Nanosecond = 1"
definition Millisecond :: duration where [go_const]: "Millisecond = 1000000"
definition Second :: duration where [go_const]: "Second = 1000000000"
definition Minute :: duration where [go_const]: "Minute = 60 * Second"
definition Hour :: duration where [go_const]: "Hour = 60 * Minute"

definition max_int64 :: int where [go_const]: "max_int64 = 9223372036854775807"
definition min_int64 :: int where [go_const]: "min_int64 = -9223372036854775808"

text \<open>
  \<^verbatim>\<open>t.Sub(u)\<close> saturates at the ends of the 64-bit range; \<^verbatim>\<open>t.Add(d)\<close> does not
  overflow for the durations the program uses.
\<close>

definition time_Sub :: "gotime \<Rightarrow> gotime \<Rightarrow> duration" where
  "time_Sub t u = max min_int64 (min max_int64 (t - u))"

definition time_Add :: "gotime \<Rightarrow> duration \<Rightarrow> gotime" where
  "time_Add t d = t + d"

definition time_After :: "gotime \<Rightarrow> gotime \<Rightarrow> bool" where
  "time_After t u \<longleftrightarrow> u < t"

definition time_Before :: "gotime \<Rightarrow> gotime \<Rightarrow> bool" where
  "time_Before t u \<longleftrightarrow> t < u"

definition time_IsZero :: "gotime \<Rightarrow> bool" where
  "time_IsZero t \<longleftrightarrow> t = 0"

text \<open>\<^verbatim>\<open>t.Round(d)\<close> for \<open>d > 0\<close>: to the nearest multiple of \<open>d\<close>, halves up.\<close>

definition time_Round :: "gotime \<Rightarrow> duration \<Rightarrow> gotime" where
  "time_Round t d =
     (let r = t mod d in if r + r < d then t - r else t + (d - r))"

lemmas time_defs = time_Sub_def time_Add_def time_After_def time_Before_def time_IsZero_def

lemma time_Sub_mono: "t \<le> t' \<Longrightarrow> time_Sub t u \<le> time_Sub t' u"
  by (simp add: time_Sub_def)

lemma time_Sub_nonneg: "u \<le> t \<Longrightarrow> 0 \<le> time_Sub t u"
  by (simp add: time_Sub_def go_const)

lemma time_Sub_le: "u \<le> t \<Longrightarrow> time_Sub t u \<le> t - u"
  by (simp add: time_Sub_def go_const)

lemma time_Sub_gt:
  "d < max_int64 \<Longrightarrow> min_int64 \<le> d \<Longrightarrow> d < time_Sub t u \<longleftrightarrow> d < t - u"
  by (auto simp: time_Sub_def go_const)

lemma time_Sub_lt:
  "d \<le> max_int64 \<Longrightarrow> min_int64 < d \<Longrightarrow> time_Sub t u < d \<longleftrightarrow> t - u < d"
  by (auto simp: time_Sub_def go_const)

section \<open>Lists\<close>

lemma distinct_map_fst_filter: "distinct (map fst m) \<Longrightarrow> distinct (map fst (filter P m))"
  by (induction m) auto

lemma map_of_filter_fst_snd:
  "distinct (map fst m) \<Longrightarrow>
   map_of (filter P m) k = (case map_of m k of None \<Rightarrow> None | Some v \<Rightarrow> if P (k, v) then Some v else None)"
proof (induction m)
  case Nil
  then show ?case by simp
next
  case (Cons a m)
  obtain k' v' where a: "a = (k', v')" by (cases a)
  show ?case
  proof (cases "k = k'")
    case True
    with Cons a have "map_of m k = None"
      by (auto simp: map_of_eq_None_iff image_iff)
    with Cons a True show ?thesis by (auto split: option.splits)
  next
    case False
    with Cons a show ?thesis by (auto split: option.splits)
  qed
qed

lemma append_eq_same_length:
  "xs @ r = ys @ s \<Longrightarrow> length xs = length ys \<Longrightarrow> xs = ys \<and> r = s"
  by simp

lemma take_append_exact [simp]: "length xs = n \<Longrightarrow> take n (xs @ ys) = xs"
  by simp

lemma drop_append_exact [simp]: "length xs = n \<Longrightarrow> drop n (xs @ ys) = ys"
  by simp

end
