(* ===== verification/Go_Map.thy ===== *)
theory Go_Map
  imports Go_Prelude "HOL-Library.AList"
begin

text \<open>
  Go maps as association lists with distinct keys (\<open>mwf\<close>), so that \<^verbatim>\<open>len(m)\<close> and the
  loops over a map evaluate. The language leaves the order of a \<^verbatim>\<open>range\<close> loop open: an
  operation that ranges over a map takes the sequence of visited entries as an argument, any
  permutation of the entries (\<open>visits\<close>), and what is proved about it holds for each.

  The locale \<open>expiring\<close> is the contract of the daemon's three \<^verbatim>\<open>sweep\<close> methods.
\<close>

type_synonym ('k, 'v) gomap = "('k \<times> 'v) list"

definition mget :: "('k, 'v) gomap \<Rightarrow> 'k \<Rightarrow> 'v option" where
  "mget m k = map_of m k"

definition mput :: "'k \<Rightarrow> 'v \<Rightarrow> ('k, 'v) gomap \<Rightarrow> ('k, 'v) gomap" where
  "mput k v m = AList.update k v m"

definition mdel :: "'k \<Rightarrow> ('k, 'v) gomap \<Rightarrow> ('k, 'v) gomap" where
  "mdel k m = AList.delete k m"

definition mwf :: "('k, 'v) gomap \<Rightarrow> bool" where
  "mwf m \<longleftrightarrow> distinct (map fst m)"

definition visits :: "('k \<times> 'v) list \<Rightarrow> ('k, 'v) gomap \<Rightarrow> bool" where
  "visits ord m \<longleftrightarrow> mset ord = mset m"

lemma mget_Nil [simp]: "mget [] k = None"
  by (simp add: mget_def)

lemma mget_mput [simp]: "mget (mput k v m) k' = (if k' = k then Some v else mget m k')"
  by (simp add: mget_def mput_def update_conv')

lemma mget_mdel [simp]: "mget (mdel k m) k' = (if k' = k then None else mget m k')"
  by (simp add: mget_def mdel_def delete_conv')

lemma mwf_Nil [simp]: "mwf []"
  by (simp add: mwf_def)

lemma mwf_mput [simp]: "mwf m \<Longrightarrow> mwf (mput k v m)"
  by (simp add: mwf_def mput_def distinct_update)

lemma mwf_mdel [simp]: "mwf m \<Longrightarrow> mwf (mdel k m)"
  by (simp add: mwf_def mdel_def distinct_delete)

lemma mget_Some_mem: "mget m k = Some v \<Longrightarrow> (k, v) \<in> set m"
  by (simp add: mget_def map_of_SomeD)

lemma mem_mget: "mwf m \<Longrightarrow> (k, v) \<in> set m \<Longrightarrow> mget m k = Some v"
  by (simp add: mget_def mwf_def)

lemma mem_iff_mget: "mwf m \<Longrightarrow> (k, v) \<in> set m \<longleftrightarrow> mget m k = Some v"
  by (metis mget_Some_mem mem_mget)

lemma mget_None_iff: "mget m k = None \<longleftrightarrow> k \<notin> fst ` set m"
  by (simp add: mget_def map_of_eq_None_iff)

lemma length_mput: "length (mput k v m) = (if mget m k = None then Suc (length m) else length m)"
  by (induction m) (auto simp: mput_def mget_def)

lemma ball_mput:
  assumes "mwf m" and "\<forall>e \<in> set m. P e" and "P (k, v)"
  shows "\<forall>e \<in> set (mput k v m). P e"
  using assms by (auto simp: mem_iff_mget split: if_splits)

lemma mem_mput:
  "mwf m \<Longrightarrow> e \<in> set (mput k v m) \<Longrightarrow> e = (k, v) \<or> e \<in> set m \<and> fst e \<noteq> k"
  by (cases e, clarsimp) (auto simp: mem_iff_mget split: if_splits)

lemma mdel_filter: "mdel k m = filter (\<lambda>e. fst e \<noteq> k) m"
  by (simp add: mdel_def AList.delete_eq case_prod_unfold eq_commute)

lemma set_mdel: "set (mdel k m) = {e \<in> set m. fst e \<noteq> k}"
  by (auto simp: mdel_filter)

lemma length_mdel_le: "length (mdel k m) \<le> length m"
  by (simp add: mdel_filter)

section \<open>Loops that delete while ranging\<close>

text \<open>
  \<^verbatim>\<open>for k, v := range m { if P(k, v) { delete(m, k) } }\<close>; deleting the visited entry
  during a \<^verbatim>\<open>range\<close> is well defined in Go.
\<close>

fun range_delete :: "('k \<Rightarrow> 'v \<Rightarrow> bool) \<Rightarrow> ('k \<times> 'v) list \<Rightarrow> ('k, 'v) gomap \<Rightarrow> ('k, 'v) gomap" where
  "range_delete P [] m = m"
| "range_delete P ((k, v) # ord) m =
     range_delete P ord (if P k v then mdel k m else m)"

lemma range_delete_filter:
  "range_delete P ord m = filter (\<lambda>e. \<forall>(k, v) \<in> set ord. P k v \<longrightarrow> fst e \<noteq> k) m"
proof (induction P ord m rule: range_delete.induct)
  case (1 P m)
  then show ?case by simp
next
  case (2 P k v ord m)
  then show ?case by (auto simp: mdel_filter intro!: filter_cong)
qed

lemma range_delete_visits:
  assumes "mwf m" and "visits ord m"
  shows "range_delete P ord m = filter (\<lambda>(k, v). \<not> P k v) m"
proof -
  have "set ord = set m"
    using assms(2) by (metis visits_def set_mset_mset)
  then show ?thesis
    using assms(1) unfolding range_delete_filter
    by (intro filter_cong) (auto simp: mem_iff_mget)
qed

lemma mget_filter:
  "mwf m \<Longrightarrow> mget (filter P m) k =
     (case mget m k of None \<Rightarrow> None | Some v \<Rightarrow> if P (k, v) then Some v else None)"
  by (simp add: mget_def mwf_def map_of_filter_fst_snd)

lemma mwf_filter: "mwf m \<Longrightarrow> mwf (filter P m)"
  by (simp add: mwf_def distinct_map_fst_filter)

section \<open>The contract of the sweepers\<close>

text \<open>
  A \<^verbatim>\<open>sweep\<close> drops exactly the entries that are stale at its clock reading, and an entry,
  once stale, stays stale. From that alone: the iteration order does not show, a live entry
  survives, no sweep revives an entry, and only the last of several sweeps matters.
\<close>

locale expiring =
  fixes sweep :: "gotime \<Rightarrow> ('k \<times> 'v) list \<Rightarrow> ('k, 'v) gomap \<Rightarrow> ('k, 'v) gomap"
    and stale :: "gotime \<Rightarrow> 'v \<Rightarrow> bool"
  assumes sweep_filter:
      "mwf m \<Longrightarrow> visits ord m \<Longrightarrow> sweep now ord m = filter (\<lambda>(k, v). \<not> stale now v) m"
    and stale_mono: "stale t v \<Longrightarrow> t \<le> t' \<Longrightarrow> stale t' v"
begin

lemma sweep_get:
  assumes "mwf m" and "visits ord m"
  shows "mget (sweep now ord m) k =
    (case mget m k of None \<Rightarrow> None | Some v \<Rightarrow> if stale now v then None else Some v)"
  using assms by (auto simp: sweep_filter mget_filter split: option.splits)

lemma sweep_wf: "mwf m \<Longrightarrow> visits ord m \<Longrightarrow> mwf (sweep now ord m)"
  by (simp add: sweep_filter mwf_filter)

lemma sweep_order_irrelevant:
  "mwf m \<Longrightarrow> visits ord m \<Longrightarrow> visits ord' m \<Longrightarrow> sweep now ord m = sweep now ord' m"
  by (simp add: sweep_filter)

lemma sweep_length: "mwf m \<Longrightarrow> visits ord m \<Longrightarrow> length (sweep now ord m) \<le> length m"
  by (simp add: sweep_filter)

lemma sweep_keeps_live:
  "mwf m \<Longrightarrow> visits ord m \<Longrightarrow> mget m k = Some v \<Longrightarrow> \<not> stale now v \<Longrightarrow>
   mget (sweep now ord m) k = Some v"
  by (simp add: sweep_get)

lemma sweep_all_live:
  "mwf m \<Longrightarrow> visits ord m \<Longrightarrow> mget (sweep now ord m) k = Some v \<Longrightarrow> \<not> stale now v"
  by (simp add: sweep_get split: option.splits if_splits)

lemma sweep_twice:
  assumes "mwf m" and "visits ord m" and "visits ord' (sweep t ord m)" and "t \<le> t'"
  shows "sweep t' ord' (sweep t ord m) = sweep t' ord m"
proof -
  have "sweep t' ord' (sweep t ord m) =
    filter (\<lambda>(k, v). \<not> stale t' v) (filter (\<lambda>(k, v). \<not> stale t v) m)"
    using assms sweep_wf [OF assms(1,2), of t] by (simp add: sweep_filter)
  also have "\<dots> = filter (\<lambda>(k, v). \<not> stale t' v) m"
    using stale_mono assms(4) by (auto intro!: filter_cong simp: filter_filter)
  finally show ?thesis using assms(1,2) by (simp add: sweep_filter)
qed

end

end
