(* ===== verification/Go_Float.thy ===== *)
theory Go_Float
  imports Go_Prelude "HOL-Library.Log_Nat"
begin

text \<open>
  Go's \<^verbatim>\<open>float64\<close>: IEEE 754 binary64, rounding to nearest, ties to even. A float is the
  rational it denotes, and an operation is the exact operation followed by \<open>fl\<close>; a product and a
  sum are rounded one by one, as on amd64 (on other machines Go may fuse them and round once). The
  program's floats are token counts and seconds, zero or of magnitude between \<open>1e-9\<close> and
  \<open>1e11\<close>, so neither overflow nor subnormal numbers occur and \<open>fl\<close> has no cases for
  them. What the proofs use is the standard error bound: \<open>fl x\<close> differs from \<open>x\<close>
  by at most \<open>|x| / 2^53\<close>, and is \<open>x\<close> on the integers below \<open>2^53\<close>.
\<close>

section \<open>Rounding\<close>

definition round_half_even :: "rat \<Rightarrow> int" where
  "round_half_even r =
     (let f = \<lfloor>r\<rfloor>; d = r - of_int f
      in if d < 1/2 then f else if 1/2 < d then f + 1 else if even f then f else f + 1)"

text \<open>The exponent of a positive rational: \<open>2^52 \<le> x / 2^e < 2^53\<close>.\<close>

definition float_exp :: "rat \<Rightarrow> int" where
  "float_exp x =
     (let (p, q) = quotient_of x; k = bitlen p - bitlen q
      in if x < 2 powi k then k - 53 else k - 52)"

definition fl :: "rat \<Rightarrow> rat" where
  "fl x =
     (if x = 0 then 0
      else let e = float_exp \<bar>x\<bar>
           in sgn x * of_int (round_half_even (\<bar>x\<bar> / 2 powi e)) * 2 powi e)"

text \<open>The unit roundoff.\<close>

definition ulp :: rat where
  "ulp = 1 / 2 ^ 53"

lemma round_half_even_error: "\<bar>of_int (round_half_even r) - r\<bar> \<le> 1 / 2"
proof -
  define f where "f = \<lfloor>r\<rfloor>"
  have "of_int f \<le> r" "r < of_int f + 1" unfolding f_def by linarith+
  then show ?thesis
    unfolding round_half_even_def Let_def abs_le_iff f_def [symmetric] by auto
qed

lemma round_half_even_int [simp]: "round_half_even (of_int n) = n"
  by (simp add: round_half_even_def)

lemma round_half_even_nonneg: "0 \<le> r \<Longrightarrow> 0 \<le> round_half_even r"
proof -
  assume "0 \<le> r"
  then have "0 \<le> \<lfloor>r\<rfloor>" by simp
  then show ?thesis by (auto simp: round_half_even_def Let_def)
qed

lemma bitlen_rat_bounds:
  assumes "0 < p"
  shows "(2::rat) powi (bitlen p - 1) \<le> of_int p" and "of_int p < (2::rat) powi (bitlen p)"
proof -
  have pos: "0 < bitlen p" using assms
    by (metis bitlen_nonneg bitlen_eq_zero_iff not_le order_le_less)
  have b: "2 ^ nat (bitlen p - 1) \<le> p" "p < 2 ^ nat (bitlen p)"
    using bitlen_bounds [OF assms] by auto
  have "(of_int (2 ^ nat (bitlen p - 1)) :: rat) \<le> of_int p"
    using b(1) by (simp only: of_int_le_iff)
  then show "(2::rat) powi (bitlen p - 1) \<le> of_int p"
    using pos by (simp add: power_int_def)
  have "(of_int p :: rat) < of_int (2 ^ nat (bitlen p))"
    using b(2) by (simp only: of_int_less_iff)
  then show "of_int p < (2::rat) powi (bitlen p)"
    using pos by (simp add: power_int_def)
qed

lemma float_exp_bounds:
  assumes "0 < x"
  shows "2 ^ 52 \<le> x / 2 powi float_exp x" and "x / 2 powi float_exp x < 2 ^ 53"
proof -
  obtain p q where pq: "quotient_of x = (p, q)" by (cases "quotient_of x")
  have q: "0 < q" using quotient_of_denom_pos [OF pq] .
  have xpq: "x = of_int p / of_int q" using quotient_of_div [OF pq] .
  have p: "0 < p"
    using assms q unfolding xpq by (simp add: zero_less_divide_iff)
  define k where "k = bitlen p - bitlen q"
  have lo: "2 powi (k - 1) \<le> x"
  proof -
    have "(2::rat) powi (k - 1) * of_int q \<le> 2 powi (k - 1) * 2 powi (bitlen q)"
      using bitlen_rat_bounds(2) [OF q] by (intro mult_left_mono) auto
    also have "\<dots> = 2 powi (bitlen p - 1)"
      by (simp add: k_def flip: power_int_add)
    also have "\<dots> \<le> of_int p" by (rule bitlen_rat_bounds(1) [OF p])
    finally show ?thesis using q by (simp add: xpq field_simps)
  qed
  have hi: "x < 2 powi (k + 1)"
  proof -
    have "of_int p < (2::rat) powi (bitlen p)" by (rule bitlen_rat_bounds(2) [OF p])
    also have "\<dots> = 2 powi (k + 1) * 2 powi (bitlen q - 1)"
      by (simp add: k_def flip: power_int_add)
    also have "\<dots> \<le> 2 powi (k + 1) * of_int q"
      using bitlen_rat_bounds(1) [OF q] by (intro mult_left_mono) auto
    finally show ?thesis using q by (simp add: xpq field_simps)
  qed
  have e: "float_exp x = (if x < 2 powi k then k - 53 else k - 52)"
    by (simp add: float_exp_def pq k_def)
  have pw: "(2::rat) powi (a + of_nat n) = 2 powi a * 2 ^ n" for a n
    by (simp add: power_int_add)
  have k1: "(2::rat) powi (k - 1) = 2 powi (k - 53) * 2 ^ 52" using pw [of "k - 53" 52] by simp
  have k0: "(2::rat) powi k = 2 powi (k - 53) * 2 ^ 53" using pw [of "k - 53" 53] by simp
  have k0': "(2::rat) powi k = 2 powi (k - 52) * 2 ^ 52" using pw [of "k - 52" 52] by simp
  have k2: "(2::rat) powi (k + 1) = 2 powi (k - 52) * 2 ^ 53" using pw [of "k - 52" 53] by (simp add: add.commute)
  show "2 ^ 52 \<le> x / 2 powi float_exp x"
    using lo k1 k0' by (auto simp: e pos_le_divide_eq mult.commute)
  show "x / 2 powi float_exp x < 2 ^ 53"
    using hi k0 k2 by (auto simp: e pos_divide_less_eq mult.commute)
qed

section \<open>The error bound\<close>

lemma fl_error: "\<bar>fl x - x\<bar> \<le> ulp * \<bar>x\<bar>"
proof (cases "x = 0")
  case True
  then show ?thesis by (simp add: fl_def)
next
  case False
  define e where "e = float_exp \<bar>x\<bar>"
  define y where "y = \<bar>x\<bar> / 2 powi e"
  have two: "(0::rat) < 2 powi e" by simp
  have xy: "\<bar>x\<bar> = y * 2 powi e" using two by (simp add: y_def)
  have y: "2 ^ 52 \<le> y"
    using float_exp_bounds(1) [of "\<bar>x\<bar>"] False by (simp add: y_def e_def)
  have x: "sgn x * \<bar>x\<bar> = x" by (simp add: sgn_mult_abs)
  have "fl x = sgn x * (of_int (round_half_even y) * 2 powi e)"
    using False by (simp add: fl_def Let_def y_def e_def)
  then have "fl x - x = sgn x * (of_int (round_half_even y) * 2 powi e - \<bar>x\<bar>)"
    by (simp only: right_diff_distrib x)
  also have "\<dots> = sgn x * ((of_int (round_half_even y) - y) * 2 powi e)"
    by (simp add: xy algebra_simps)
  finally have "\<bar>fl x - x\<bar> = \<bar>of_int (round_half_even y) - y\<bar> * 2 powi e"
    using False by (simp add: abs_mult)
  also have "\<dots> \<le> (1 / 2) * 2 powi e"
    using round_half_even_error [of y] by (intro mult_right_mono) auto
  also have "\<dots> \<le> (ulp * y) * 2 powi e"
    using y by (intro mult_right_mono) (auto simp: ulp_def)
  finally show ?thesis by (simp add: xy mult.assoc)
qed

lemma fl_0 [simp]: "fl 0 = 0"
  by (simp add: fl_def)

lemma fl_nonneg: "0 \<le> x \<Longrightarrow> 0 \<le> fl x"
  by (auto simp: fl_def Let_def intro!: mult_nonneg_nonneg round_half_even_nonneg)

lemma fl_le: "0 \<le> x \<Longrightarrow> fl x \<le> x * (1 + ulp)"
  using fl_error [of x] by (simp add: algebra_simps abs_le_iff)

lemma fl_ge: "0 \<le> x \<Longrightarrow> x * (1 - ulp) \<le> fl x"
  using fl_error [of x] by (simp add: algebra_simps abs_le_iff)

text \<open>Every integer of magnitude below \<open>2^53\<close> is a float.\<close>

lemma fl_int:
  assumes "\<bar>n\<bar> < 2 ^ 53"
  shows "fl (of_int n) = of_int n"
proof (cases "n = 0")
  case True
  then show ?thesis by simp
next
  case False
  define x :: rat where "x = of_int \<bar>n\<bar>"
  define e where "e = float_exp x"
  have x: "0 < x" using False by (simp add: x_def)
  have x53: "x < 2 ^ 53"
  proof -
    have "(of_int \<bar>n\<bar> :: rat) < of_int (2 ^ 53)" using assms by (simp only: of_int_less_iff)
    then show ?thesis by (simp add: x_def)
  qed
  have "2 ^ 52 * 2 powi e \<le> x"
    using float_exp_bounds(1) [OF x] by (simp add: e_def pos_le_divide_eq)
  also have "\<dots> < 2 ^ 52 * 2 powi 1" using x53 by simp
  finally have "(2::rat) powi e < 2 powi 1" by simp
  then have "e < 1"
    using power_int_increasing [of 1 e "2::rat"] by (meson not_le one_le_numeral)
  then have e0: "e \<le> 0" by simp
  then have "x / 2 powi e = of_int (\<bar>n\<bar> * 2 ^ nat (- e))"
    by (simp add: x_def power_int_def divide_simps)
  then have r: "round_half_even (x / 2 powi e) = \<bar>n\<bar> * 2 ^ nat (- e)"
    by (simp only: round_half_even_int)
  have ax: "\<bar>of_int n :: rat\<bar> = x" by (simp add: x_def)
  have "fl (of_int n) = sgn (of_int n) * of_int (\<bar>n\<bar> * 2 ^ nat (- e)) * 2 powi e"
    using False by (simp add: fl_def Let_def ax r flip: e_def)
  also have "\<dots> = sgn (of_int n) * \<bar>of_int n\<bar>"
    using e0 by (simp add: power_int_def flip: power_mult_distrib)
  finally show ?thesis by (simp add: sgn_mult_abs)
qed

section \<open>\<^verbatim>\<open>Duration.Seconds\<close>\<close>

text \<open>
  \<^verbatim>\<open>sec := d / Second; nsec := d % Second; return float64(sec) + float64(nsec)/1e9\<close>;
  Go's division truncates, which for the non-negative elapsed times here is \<open>div\<close>.
\<close>

definition dur_Seconds :: "duration \<Rightarrow> rat" where
  "dur_Seconds d =
     (let sec = sgn d * (\<bar>d\<bar> div Second); nsec = sgn d * (\<bar>d\<bar> mod Second)
      in fl (fl (of_int sec) + fl (fl (of_int nsec) / 1000000000)))"

lemma dur_Seconds_0 [simp]: "dur_Seconds 0 = 0"
  by (simp add: dur_Seconds_def)

lemma dur_Seconds_split: "(of_int d :: rat) / 1000000000 =
    of_int (d div Second) + of_int (d mod Second) / 1000000000"
proof -
  have "of_int d = (of_int (1000000000 * (d div 1000000000) + d mod 1000000000) :: rat)"
    by simp
  also have "\<dots> = 1000000000 * of_int (d div 1000000000) + of_int (d mod 1000000000)"
    by (simp only: of_int_add of_int_mult of_int_numeral)
  finally show ?thesis by (simp add: go_const)
qed

lemma ulp_bounds: "0 < ulp" "ulp < 1"
  by (simp_all add: ulp_def)

lemma dur_Seconds_nonneg: "0 \<le> d \<Longrightarrow> 0 \<le> dur_Seconds d"
  by (auto simp: dur_Seconds_def Let_def go_const sgn_if intro!: fl_nonneg add_nonneg_nonneg divide_nonneg_nonneg)

lemma dur_Seconds_le:
  assumes "0 \<le> d"
  shows "dur_Seconds d \<le> of_int d / 1000000000 * (1 + ulp) ^ 3"
proof -
  define s :: rat where "s = of_int (d div Second)"
  define n :: rat where "n = of_int (d mod Second)"
  have s: "0 \<le> s" and n: "0 \<le> n" using assms by (simp_all add: s_def n_def go_const)
  have eq: "dur_Seconds d = fl (fl s + fl (fl n / 1000000000))"
    using assms by (cases "d = 0") (simp_all add: dur_Seconds_def s_def n_def Let_def)
  have u: "1 \<le> 1 + ulp" using ulp_bounds by simp
  have a: "fl s \<le> s * (1 + ulp) ^ 2"
  proof -
    have "fl s \<le> s * (1 + ulp)" using fl_le [OF s] .
    also have "\<dots> \<le> s * (1 + ulp) ^ 2"
      using s u by (intro mult_left_mono) (auto simp: power2_eq_square)
    finally show ?thesis .
  qed
  have b: "fl (fl n / 1000000000) \<le> n / 1000000000 * (1 + ulp) ^ 2"
  proof -
    have "fl (fl n / 1000000000) \<le> fl n / 1000000000 * (1 + ulp)"
      using fl_nonneg [OF n] by (intro fl_le) simp
    also have "\<dots> \<le> (n * (1 + ulp)) / 1000000000 * (1 + ulp)"
      using fl_le [OF n] u by (intro mult_right_mono divide_right_mono) auto
    finally show ?thesis by (simp add: power2_eq_square mult.assoc)
  qed
  have "dur_Seconds d \<le> (fl s + fl (fl n / 1000000000)) * (1 + ulp)"
    unfolding eq using s n by (intro fl_le add_nonneg_nonneg fl_nonneg divide_nonneg_nonneg) auto
  also have "\<dots> \<le> (s * (1 + ulp) ^ 2 + n / 1000000000 * (1 + ulp) ^ 2) * (1 + ulp)"
    using a b u by (intro mult_right_mono add_mono) auto
  also have "\<dots> = (s + n / 1000000000) * (1 + ulp) ^ 3"
    by (simp add: power3_eq_cube power2_eq_square algebra_simps)
  also have "s + n / 1000000000 = of_int d / 1000000000"
    using dur_Seconds_split [of d] by (simp add: s_def n_def)
  finally show ?thesis .
qed

lemma dur_Seconds_ge:
  assumes "0 \<le> d"
  shows "of_int (d div Second) * (1 - ulp) ^ 2 \<le> dur_Seconds d"
proof -
  define s :: rat where "s = of_int (d div Second)"
  define n :: rat where "n = of_int (d mod Second)"
  have s: "0 \<le> s" and n: "0 \<le> n" using assms by (simp_all add: s_def n_def go_const)
  have eq: "dur_Seconds d = fl (fl s + fl (fl n / 1000000000))"
    using assms by (cases "d = 0") (simp_all add: dur_Seconds_def s_def n_def Let_def)
  have u: "0 \<le> 1 - ulp" using ulp_bounds by simp
  have m: "0 \<le> fl (fl n / 1000000000)" using n by (intro fl_nonneg divide_nonneg_nonneg) auto
  have "s * (1 - ulp) ^ 2 = (s * (1 - ulp)) * (1 - ulp)" by (simp add: power2_eq_square)
  also have "\<dots> \<le> (fl s + fl (fl n / 1000000000)) * (1 - ulp)"
    using fl_ge [OF s] m u by (intro mult_right_mono) auto
  also have "\<dots> \<le> dur_Seconds d"
    unfolding eq by (rule fl_ge [OF add_nonneg_nonneg [OF fl_nonneg [OF s] m]])
  finally show ?thesis by (simp add: s_def)
qed

end
