(* ===== verification/Go_Slice.thy ===== *)
theory Go_Slice
  imports Go_Prelude
begin

text \<open>
  Byte slices with their backing arrays, for the paste store, where it matters which slices share
  an array: \<^verbatim>\<open>burn\<close> overwrites a payload in place, \<^verbatim>\<open>take\<close> hands out a copy, and
  \<^verbatim>\<open>seal\<close> encrypts that copy in its own array. A heap maps addresses to arrays; the cell's
  length is the capacity. Every slice of the program starts at the beginning of its array, so a
  slice is an address and a length, or nil.
\<close>

record heap =
  h_next :: nat
  h_cell :: "nat \<Rightarrow> bytes"

datatype slice = NilSlice | Slice (sl_addr: nat) (sl_size: nat)

definition empty_heap :: heap where
  "empty_heap = \<lparr>h_next = 0, h_cell = (\<lambda>_. [])\<rparr>"

fun sl_len :: "slice \<Rightarrow> nat" where
  "sl_len NilSlice = 0"
| "sl_len (Slice a n) = n"

fun sl_cap :: "heap \<Rightarrow> slice \<Rightarrow> nat" where
  "sl_cap h NilSlice = 0"
| "sl_cap h (Slice a n) = length (h_cell h a)"

fun sl_read :: "heap \<Rightarrow> slice \<Rightarrow> bytes" where
  "sl_read h NilSlice = []"
| "sl_read h (Slice a n) = take n (h_cell h a)"

fun sl_ok :: "heap \<Rightarrow> slice \<Rightarrow> bool" where
  "sl_ok h NilSlice = True"
| "sl_ok h (Slice a n) = (a < h_next h \<and> n \<le> length (h_cell h a))"

text \<open>Overwrite the first bytes of an array.\<close>

definition poke :: "nat \<Rightarrow> bytes \<Rightarrow> heap \<Rightarrow> heap" where
  "poke a bs h = h\<lparr>h_cell := (h_cell h)(a := bs @ drop (length bs) (h_cell h a))\<rparr>"

text \<open>\<^verbatim>\<open>make([]byte, n, c)\<close>.\<close>

definition sl_make :: "nat \<Rightarrow> nat \<Rightarrow> heap \<Rightarrow> slice \<times> heap" where
  "sl_make n c h =
     (Slice (h_next h) n,
      h\<lparr>h_next := Suc (h_next h), h_cell := (h_cell h)(h_next h := replicate c 0)\<rparr>)"

text \<open>\<^verbatim>\<open>copy(dst, src)\<close>.\<close>

fun sl_copy :: "slice \<Rightarrow> slice \<Rightarrow> heap \<Rightarrow> heap" where
  "sl_copy NilSlice src h = h"
| "sl_copy (Slice a n) src h = poke a (take n (sl_read h src)) h"

text \<open>\<^verbatim>\<open>clear(s)\<close>.\<close>

fun sl_clear :: "slice \<Rightarrow> heap \<Rightarrow> heap" where
  "sl_clear NilSlice h = h"
| "sl_clear (Slice a n) h = poke a (replicate n 0) h"

text \<open>A buffer the standard library allocates and fills (\<^verbatim>\<open>io.ReadAll\<close>).\<close>

definition sl_new :: "bytes \<Rightarrow> heap \<Rightarrow> slice \<times> heap" where
  "sl_new bs h =
     (Slice (h_next h) (length bs),
      h\<lparr>h_next := Suc (h_next h), h_cell := (h_cell h)(h_next h := bs)\<rparr>)"

text \<open>
  \<^verbatim>\<open>append(s[:0], bs...)\<close>, as \<^verbatim>\<open>cipher.AEAD.Seal(s[:0], ...)\<close> stores its result:
  in the array of \<open>s\<close> when it has the capacity, else in a new one.
\<close>

definition sl_overwrite :: "slice \<Rightarrow> bytes \<Rightarrow> heap \<Rightarrow> slice \<times> heap" where
  "sl_overwrite s bs h =
     (case s of NilSlice \<Rightarrow> sl_new bs h
      | Slice a n \<Rightarrow>
          if length bs \<le> length (h_cell h a) then (Slice a (length bs), poke a bs h) else sl_new bs h)"

section \<open>Laws\<close>

lemma h_next_poke [simp]: "h_next (poke a bs h) = h_next h"
  by (simp add: poke_def)

lemma poke_cell_other [simp]: "b \<noteq> a \<Longrightarrow> h_cell (poke a bs h) b = h_cell h b"
  by (simp add: poke_def)

lemma length_poke: "length bs \<le> length (h_cell h a) \<Longrightarrow> length (h_cell (poke a bs h) b) = length (h_cell h b)"
  by (simp add: poke_def)

lemma sl_make_fresh:
  assumes "sl_make n c h = (s, h')" and "n \<le> c"
  shows "s = Slice (h_next h) n" and "h_next h' = Suc (h_next h)" and "sl_ok h' s"
    and "sl_cap h' s = c" and "sl_read h' s = replicate n 0"
    and "\<And>a. a \<noteq> h_next h \<Longrightarrow> h_cell h' a = h_cell h a"
  using assms by (auto simp: sl_make_def)

lemma sl_new_fresh:
  assumes "sl_new bs h = (s, h')"
  shows "s = Slice (h_next h) (length bs)" and "h_next h' = Suc (h_next h)" and "sl_ok h' s"
    and "sl_read h' s = bs" and "\<And>a. a \<noteq> h_next h \<Longrightarrow> h_cell h' a = h_cell h a"
  using assms by (auto simp: sl_new_def)

lemma sl_read_cong: "(\<And>a n. s = Slice a n \<Longrightarrow> h_cell h' a = h_cell h a) \<Longrightarrow> sl_read h' s = sl_read h s"
  by (cases s) auto

lemma length_sl_read: "sl_ok h s \<Longrightarrow> length (sl_read h s) = sl_len s"
  by (cases s) auto

lemma h_next_clear [simp]: "h_next (sl_clear s h) = h_next h"
  by (cases s) auto

lemma sl_clear_other [simp]:
  "s = NilSlice \<or> a \<noteq> sl_addr s \<Longrightarrow> h_cell (sl_clear s h) a = h_cell h a"
  by (cases s) auto

lemma length_clear: "sl_ok h s \<Longrightarrow> length (h_cell (sl_clear s h) a) = length (h_cell h a)"
  by (cases s) (auto simp: length_poke)

lemma sl_ok_clear [simp]: "sl_ok h t \<Longrightarrow> sl_ok h s \<Longrightarrow> sl_ok (sl_clear t h) s"
  by (cases s) (auto simp: length_clear)

lemma sl_read_clear [simp]: "sl_read (sl_clear s h) s = replicate (sl_len s) 0"
  by (cases s) (auto simp: poke_def)

end
