(* ===== verification/Go_Strings.thy ===== *)
theory Go_Strings
  imports Go_Prelude
begin

text \<open>
  The functions of the package \<^verbatim>\<open>strings\<close> that the code uses. A string is its bytes.
  \<^verbatim>\<open>ToLower\<close>, \<^verbatim>\<open>TrimSpace\<close> and \<^verbatim>\<open>Fields\<close> are written out for ASCII input,
  as their fast paths are; their Unicode tables, which only other input reaches, are the
  parameter \<open>unicode\<close>.
\<close>

definition ascii :: "char \<Rightarrow> bool" where
  "ascii c \<longleftrightarrow> (of_char c :: nat) < 128"

definition ascii_lower :: "char \<Rightarrow> char" where
  "ascii_lower c =
     (if 65 \<le> (of_char c :: nat) \<and> (of_char c :: nat) \<le> 90 then char_of ((of_char c :: nat) + 32) else c)"

definition ascii_upper :: "char \<Rightarrow> char" where
  "ascii_upper c =
     (if 97 \<le> (of_char c :: nat) \<and> (of_char c :: nat) \<le> 122 then char_of ((of_char c :: nat) - 32) else c)"

definition ascii_space :: "char \<Rightarrow> bool" where
  "ascii_space c \<longleftrightarrow> 9 \<le> (of_char c :: nat) \<and> (of_char c :: nat) \<le> 13 \<or> (of_char c :: nat) = 32"

record unicode =
  u_ToLower :: "string \<Rightarrow> string"
  u_TrimSpace :: "string \<Rightarrow> string"
  u_Fields :: "string \<Rightarrow> string list"

definition strings_ToLower :: "unicode \<Rightarrow> string \<Rightarrow> string" where
  "strings_ToLower uni s = (if list_all ascii s then map ascii_lower s else u_ToLower uni s)"

definition trim_left :: "string \<Rightarrow> string" where
  "trim_left s = dropWhile ascii_space s"

definition strings_TrimSpace :: "unicode \<Rightarrow> string \<Rightarrow> string" where
  "strings_TrimSpace uni s =
     (if list_all ascii s then rev (trim_left (rev (trim_left s))) else u_TrimSpace uni s)"

fun strings_Split :: "char \<Rightarrow> string \<Rightarrow> string list" where
  "strings_Split sep [] = [[]]"
| "strings_Split sep (c # s) =
     (if c = sep then [] # strings_Split sep s
      else case strings_Split sep s of [] \<Rightarrow> [[c]] | p # ps \<Rightarrow> (c # p) # ps)"

fun strings_Join :: "string list \<Rightarrow> string \<Rightarrow> string" where
  "strings_Join [] sep = []"
| "strings_Join [p] sep = p"
| "strings_Join (p # ps) sep = p @ sep @ strings_Join ps sep"

text \<open>\<^verbatim>\<open>strings.FieldsSeq\<close>: the maximal runs of non-space bytes.\<close>

fun fields_loop :: "string \<Rightarrow> string \<Rightarrow> string list" where
  "fields_loop w [] = (if w = [] then [] else [rev w])"
| "fields_loop w (c # s) =
     (if ascii_space c then (if w = [] then fields_loop [] s else rev w # fields_loop [] s)
      else fields_loop (c # w) s)"

definition ascii_Fields :: "string \<Rightarrow> string list" where
  "ascii_Fields s = fields_loop [] s"

definition strings_Fields :: "unicode \<Rightarrow> string \<Rightarrow> string list" where
  "strings_Fields uni s = (if list_all ascii s then ascii_Fields s else u_Fields uni s)"

text \<open>\<^verbatim>\<open>strings.Lines\<close>: each line with its newline, a last one without if not empty.\<close>

fun lines_loop :: "string \<Rightarrow> string \<Rightarrow> string list" where
  "lines_loop l [] = (if l = [] then [] else [rev l])"
| "lines_loop l (c # s) =
     (if c = CHR 0x0A then rev (c # l) # lines_loop [] s else lines_loop (c # l) s)"

definition strings_Lines :: "string \<Rightarrow> string list" where
  "strings_Lines s = lines_loop [] s"

definition no_unicode :: unicode where
  "no_unicode = \<lparr>u_ToLower = (\<lambda>s. s), u_TrimSpace = (\<lambda>s. s), u_Fields = (\<lambda>s. [s])\<rparr>"

section \<open>Laws\<close>

lemma split_no_sep: "sep \<notin> set s \<Longrightarrow> strings_Split sep s = [s]"
  by (induction s) auto

lemma split_append: "sep \<notin> set s \<Longrightarrow> strings_Split sep (s @ sep # t) = s # strings_Split sep t"
  by (induction s) auto

lemma fields_sep:
  "list_all (\<lambda>c. \<not> ascii_space c) w \<Longrightarrow> v @ w \<noteq> [] \<Longrightarrow> ascii_space c \<Longrightarrow>
   fields_loop (rev v) (w @ c # s) = (v @ w) # fields_loop [] s"
proof (induction w arbitrary: v)
  case Nil
  then show ?case by simp
next
  case (Cons d w)
  then show ?case using Cons.IH [of "v @ [d]"] by simp
qed

lemmas fields_next = fields_sep [of _ "[]", simplified]

lemma newline_space: "ascii_space (CHR 0x0A)" and blank_space: "ascii_space (CHR '' '')"
  by (simp_all add: ascii_space_def)

text \<open>The fields of a string have no blanks in them and are not empty.\<close>

lemma fields_loop_clean:
  "list_all (\<lambda>c. \<not> ascii_space c) w \<Longrightarrow> f \<in> set (fields_loop w s) \<Longrightarrow>
   f \<noteq> [] \<and> list_all (\<lambda>c. \<not> ascii_space c) f \<and> set f \<subseteq> set w \<union> set s"
proof (induction w s rule: fields_loop.induct)
  case (2 w c s)
  then show ?case by (auto split: if_splits)
qed (auto split: if_splits)

lemma lines_loop_line:
  "CHR 0x0A \<notin> set l \<Longrightarrow> lines_loop (rev v) (l @ CHR 0x0A # s) = (v @ l @ [CHR 0x0A]) # lines_loop [] s"
proof (induction l arbitrary: v)
  case (Cons c l)
  then show ?case using Cons.IH [of "v @ [c]"] by auto
qed simp

lemma lines_line:
  "CHR 0x0A \<notin> set l \<Longrightarrow> strings_Lines (l @ CHR 0x0A # s) = (l @ [CHR 0x0A]) # strings_Lines s"
  using lines_loop_line [of l "[]"] by (simp add: strings_Lines_def)

text \<open>Lines before a line break do not see what follows it.\<close>

lemma lines_loop_append:
  "s = [] \<and> l = [] \<or> s \<noteq> [] \<and> last s = CHR 0x0A \<Longrightarrow>
   lines_loop l (s @ t) = lines_loop l s @ lines_loop [] t"
proof (induction l s rule: lines_loop.induct)
  case (2 l c s)
  then show ?case by (cases "s = []") auto
qed auto

lemma lines_append:
  "s = [] \<or> last s = CHR 0x0A \<Longrightarrow> strings_Lines (s @ t) = strings_Lines s @ strings_Lines t"
  unfolding strings_Lines_def by (rule lines_loop_append) auto

lemma lines_loop_set: "l' \<in> set (lines_loop l s) \<Longrightarrow> set l' \<subseteq> set l \<union> set s"
  by (induction l s rule: lines_loop.induct) (auto split: if_splits)

lemma space_ascii: "ascii_space c \<Longrightarrow> ascii c"
  by (auto simp: ascii_space_def ascii_def)

lemma upper_facts:
  assumes "ascii c"
  shows "ascii (ascii_upper c)" "ascii_space (ascii_upper c) = ascii_space c"
    "ascii_lower (ascii_upper c) = ascii_lower c"
  using assms by (auto simp: ascii_def ascii_upper_def ascii_space_def ascii_lower_def)

lemma trim_left_spaces: "list_all ascii_space sp \<Longrightarrow> trim_left (sp @ t) = trim_left t"
  by (induction sp) (auto simp: trim_left_def)

lemma trim_left_append:
  "trim_left (t @ u) = (if trim_left t = [] then trim_left u else trim_left t @ u)"
  by (induction t) (auto simp: trim_left_def)

lemma trim_left_upper: "list_all ascii t \<Longrightarrow> trim_left (map ascii_upper t) = map ascii_upper (trim_left t)"
  by (induction t) (auto simp: trim_left_def upper_facts)

lemma trim_left_Nil [simp]: "trim_left [] = []"
  by (simp add: trim_left_def)

lemma trim_left_ascii: "list_all ascii t \<Longrightarrow> list_all ascii (trim_left t)"
  by (induction t) (auto simp: trim_left_def)

lemma trim_padded:
  assumes "list_all ascii_space sp" "list_all ascii_space sp'"
  shows "rev (trim_left (rev (trim_left (sp @ t @ sp')))) = rev (trim_left (rev (trim_left t)))"
proof (cases "trim_left t = []")
  case True
  have "trim_left (sp @ t @ sp') = []"
    unfolding trim_left_spaces [OF assms(1)]
    using True trim_left_spaces [OF assms(2), of "[]"] by (simp add: trim_left_append)
  then show ?thesis using True by simp
next
  case False
  have "trim_left (sp @ t @ sp') = trim_left t @ sp'"
    unfolding trim_left_spaces [OF assms(1)] using False by (simp add: trim_left_append)
  moreover have "list_all ascii_space (rev sp')" using assms(2) by simp
  ultimately show ?thesis by (simp add: trim_left_spaces)
qed

lemma normal_upper:
  assumes "list_all ascii s" "list_all ascii_space sp" "list_all ascii_space sp'"
  shows "strings_ToLower uni (strings_TrimSpace uni (sp @ map ascii_upper s @ sp'))
    = strings_ToLower uni (strings_TrimSpace uni s)"
proof -
  let ?trim = "\<lambda>t. rev (trim_left (rev (trim_left t)))"
  have a: "list_all ascii (sp @ map ascii_upper s @ sp')"
    using assms upper_facts space_ascii by (auto simp: list_all_iff)
  have u: "?trim (map ascii_upper s) = map ascii_upper (?trim s)"
    using assms(1) by (simp add: trim_left_upper trim_left_ascii rev_map)
  have t: "list_all ascii (?trim s)"
    using assms(1) by (simp add: trim_left_ascii)
  then have "list_all ascii (map ascii_upper (?trim s))"
    using upper_facts by (auto simp: list_all_iff)
  moreover have "map (ascii_lower \<circ> ascii_upper) (?trim s) = map ascii_lower (?trim s)"
    using t upper_facts by (auto simp: list_all_iff)
  ultimately show ?thesis
    using a assms(1) t by (simp add: strings_TrimSpace_def strings_ToLower_def trim_padded [OF assms(2,3)] u)
qed

end
