(* ===== verification/Params.thy ===== *)
theory Params
  imports Go_Prelude
begin

text \<open>
  The constants that several files of the program use: sizes of \<^verbatim>\<open>store.go\<close>,
  \<^verbatim>\<open>pake.go\<close> and \<^verbatim>\<open>wire.go\<close>. The constants of one file stand in its theory.
\<close>

definition maxPasteSize :: nat where [go_const]: "maxPasteSize = 2 ^ 20"
definition maxPastes :: nat where [go_const]: "maxPastes = 256"
definition maxCandidates :: nat where [go_const]: "maxCandidates = 512"
definition scryptLen :: nat where [go_const]: "scryptLen = 32"
definition pointLen :: nat where [go_const]: "pointLen = 32"
definition macLen :: nat where [go_const]: "macLen = 32"
definition aeadOverhead :: nat where [go_const]: "aeadOverhead = 16"

end
