(* ===== verification/Hex.thy ===== *)
theory Hex
  imports Go_Prelude
begin

text \<open>
  \<^verbatim>\<open>encoding/hex\<close> as the program uses it: the store's keys (\<^verbatim>\<open>pasteKey\<close>) are the
  lower case hexadecimal digits of the PAKE secret, and the control plane decodes them back.
\<close>

definition hex_digit :: "nat \<Rightarrow> char" where
  "hex_digit n = (if n < 10 then char_of (48 + n) else char_of (87 + n))"

fun hex_encode :: "bytes \<Rightarrow> string" where
  "hex_encode [] = []"
| "hex_encode (b # bs) = hex_digit (unat b div 16) # hex_digit (unat b mod 16) # hex_encode bs"

text \<open>Decoding accepts digits of either case; \<open>None\<close> for any other byte and for odd length.\<close>

definition hex_value :: "char \<Rightarrow> nat option" where
  "hex_value c =
     (let n = of_char c :: nat
      in if 48 \<le> n \<and> n \<le> 57 then Some (n - 48)
         else if 97 \<le> n \<and> n \<le> 102 then Some (n - 87)
         else if 65 \<le> n \<and> n \<le> 70 then Some (n - 55)
         else None)"

fun hex_decode :: "string \<Rightarrow> bytes option" where
  "hex_decode [] = Some []"
| "hex_decode [c] = None"
| "hex_decode (c # d # s) =
     (case (hex_value c, hex_value d) of
        (Some x, Some y) \<Rightarrow> map_option (\<lambda>bs. word_of_nat (16 * x + y) # bs) (hex_decode s)
      | _ \<Rightarrow> None)"

lemma hex_value_digit: "n < 16 \<Longrightarrow> hex_value (hex_digit n) = Some n"
  by (auto simp: hex_value_def hex_digit_def Let_def)

lemma hex_digits_byte: "(b :: byte) = word_of_nat (16 * (unat b div 16) + unat b mod 16)"
proof -
  have "16 * (unat b div 16) + unat b mod 16 = unat b" by simp
  then show ?thesis by (simp del: of_nat_add of_nat_mult)
qed

lemma unat_byte_digits: "unat (b :: byte) div 16 < 16" "unat b mod 16 < 16"
proof -
  have "unat b < 2 ^ LENGTH(8)" by (rule unsigned_less)
  then show "unat b div 16 < 16" by simp
qed simp

lemma hex_decode_encode: "hex_decode (hex_encode bs) = Some bs"
proof (induction bs)
  case Nil
  then show ?case by simp
next
  case (Cons b bs)
  then show ?case
    using hex_digits_byte [of b] unat_byte_digits [of b]
    by (simp add: hex_value_digit del: of_nat_add of_nat_mult)
qed

lemma hex_encode_inj: "hex_encode xs = hex_encode ys \<Longrightarrow> xs = ys"
  by (metis hex_decode_encode option.inject)

lemma length_hex_encode: "length (hex_encode bs) = 2 * length bs"
  by (induction bs) simp_all

end
