(* ===== verification/Encoding.thy ===== *)
theory Encoding
  imports Go_Prelude
begin

text \<open>
  \<^verbatim>\<open>encoding/base32\<close> and \<^verbatim>\<open>encoding/base64\<close> without padding: the bits of the input,
  cut into groups of 5 or 6, the last one filled with zeros, each group a letter of the alphabet.
\<close>

definition byte_bits :: "byte \<Rightarrow> bool list" where
  "byte_bits b = map (\<lambda>i. bit b (7 - i)) [0..<8]"

fun bits_val :: "bool list \<Rightarrow> nat" where
  "bits_val [] = 0"
| "bits_val (b # bs) = (if b then 2 ^ length bs else 0) + bits_val bs"

function enc_bits :: "string \<Rightarrow> nat \<Rightarrow> bool list \<Rightarrow> string" where
  "enc_bits alphabet k bs =
     (if bs = [] \<or> k = 0 then []
      else alphabet ! bits_val (take k bs @ replicate (k - length bs) False)
           # enc_bits alphabet k (drop k bs))"
  by pat_completeness auto
termination by (relation "measure (\<lambda>(a, k, bs). length bs)") auto

declare enc_bits.simps [simp del]

definition base_encode :: "string \<Rightarrow> nat \<Rightarrow> bytes \<Rightarrow> string" where
  "base_encode alphabet k bs = enc_bits alphabet k (concat (map byte_bits bs))"

definition crockford_alphabet :: string where
  "crockford_alphabet = ''0123456789ABCDEFGHJKMNPQRSTVWXYZ''"

definition base64_alphabet :: string where
  "base64_alphabet = ''ABCDEFGHIJKLMNOPQRSTUVWXYZabcdefghijklmnopqrstuvwxyz0123456789+/''"

definition crockford_Encode :: "bytes \<Rightarrow> string" where
  "crockford_Encode = base_encode crockford_alphabet 5"

definition base64_RawStd_Encode :: "bytes \<Rightarrow> string" where
  "base64_RawStd_Encode = base_encode base64_alphabet 6"

section \<open>Laws\<close>

lemma bits_val_less: "bits_val bs < 2 ^ length bs"
  by (induction bs) auto

lemma bits_val_inj: "length bs = length cs \<Longrightarrow> bits_val bs = bits_val cs \<Longrightarrow> bs = cs"
proof (induction bs cs rule: list_induct2)
  case (Cons b bs c cs)
  then show ?case
    using bits_val_less [of bs] bits_val_less [of cs] by (auto split: if_splits)
qed simp

lemma enc_bits_in:
  "length alphabet = 2 ^ k \<Longrightarrow> set (enc_bits alphabet k bs) \<subseteq> set alphabet"
proof (induction alphabet k bs rule: enc_bits.induct)
  case (1 alphabet k bs)
  have "bits_val (take k bs @ replicate (k - length bs) False) < 2 ^ k"
    using bits_val_less [of "take k bs @ replicate (k - length bs) False"] by (simp add: min_def split: if_splits)
  then show ?case using 1 by (subst enc_bits.simps) (auto simp: min_def)
qed

lemma enc_bits_inj:
  "distinct alphabet \<Longrightarrow> length alphabet = 2 ^ k \<Longrightarrow> 0 < k \<Longrightarrow> length bs = length cs \<Longrightarrow>
   enc_bits alphabet k bs = enc_bits alphabet k cs \<Longrightarrow> bs = cs"
proof (induction alphabet k bs arbitrary: cs rule: enc_bits.induct)
  case (1 alphabet k bs)
  show ?case
  proof (cases "bs = []")
    case False
    let ?f = "\<lambda>xs. take k xs @ replicate (k - length bs) False"
    have len: "length (?f bs) = k" "length (?f cs) = k"
      using "1.prems"(4) by (simp_all add: min_def)
    have eq: "alphabet ! bits_val (?f bs) # enc_bits alphabet k (drop k bs)
        = alphabet ! bits_val (?f cs) # enc_bits alphabet k (drop k cs)"
      using "1.prems"(3,4,5) False by (subst (asm) (1 2) enc_bits.simps) auto
    have "bits_val (?f bs) < length alphabet" "bits_val (?f cs) < length alphabet"
      using bits_val_less [of "?f bs"] bits_val_less [of "?f cs"] len "1.prems"(2) by simp_all
    then have "bits_val (?f bs) = bits_val (?f cs)"
      using eq "1.prems"(1) by (simp add: nth_eq_iff_index_eq)
    then have "?f bs = ?f cs" using len by (intro bits_val_inj) simp_all
    then have "take k bs = take k cs" by simp
    moreover have "drop k bs = drop k cs"
      using "1.prems" False eq by (intro "1.IH") auto
    ultimately show ?thesis by (metis append_take_drop_id)
  qed (use "1.prems" in simp)
qed

lemma byte_bits_inj: "byte_bits a = byte_bits b \<Longrightarrow> a = b"
proof -
  assume eq: "byte_bits a = byte_bits b"
  have "bit a n = bit b n" if "n < 8" for n
  proof -
    have "bit a (7 - i) = bit b (7 - i)" if "i < 8" for i
      using eq that unfolding byte_bits_def map_eq_conv by simp
    from this [of "7 - n"] show ?thesis using that by simp
  qed
  then show ?thesis by (intro bit_word_eqI) simp
qed

lemma length_byte_bits [simp]: "length (byte_bits b) = 8"
  by (simp add: byte_bits_def)

lemma concat_bits_length: "length (concat (map byte_bits bs)) = 8 * length bs"
  by (induction bs) auto

lemma concat_bits_inj:
  "length bs = length cs \<Longrightarrow> concat (map byte_bits bs) = concat (map byte_bits cs) \<Longrightarrow> bs = cs"
  by (induction bs cs rule: list_induct2) (auto dest: byte_bits_inj)

lemma base_encode_inj:
  assumes "distinct alphabet" "length alphabet = 2 ^ k" "0 < k" "length bs = length cs"
    and "base_encode alphabet k bs = base_encode alphabet k cs"
  shows "bs = cs"
  using assms enc_bits_inj [OF assms(1-3)] concat_bits_length concat_bits_inj
  unfolding base_encode_def by metis

lemma base64_inj:
  "length bs = length cs \<Longrightarrow> base64_RawStd_Encode bs = base64_RawStd_Encode cs \<Longrightarrow> bs = cs"
  using base_encode_inj [of base64_alphabet 6 bs cs]
  by (simp add: base64_RawStd_Encode_def base64_alphabet_def)

end
