(* ===== verification/Sha2.thy ===== *)
theory Sha2
  imports Go_Prelude
begin

text \<open>
  \<^verbatim>\<open>crypto/sha256\<close>, \<^verbatim>\<open>crypto/sha512\<close> and \<^verbatim>\<open>crypto/hmac\<close> of the standard
  library, as far as the code uses them: the digests of a byte sequence and HMAC over SHA-256.
  The two hashes are one construction at two word sizes; \<open>sha2\<close> holds what differs.
\<close>

unbundle bit_operations_syntax

record 'w sha2 =
  sh_width :: nat
  sh_K :: "'w list"
  sh_H :: "'w list"
  sh_Sigma0 :: "nat \<times> nat \<times> nat"
  sh_Sigma1 :: "nat \<times> nat \<times> nat"
  sh_sigma0 :: "nat \<times> nat \<times> nat"
  sh_sigma1 :: "nat \<times> nat \<times> nat"

definition rotr :: "nat \<Rightarrow> 'a::len word \<Rightarrow> 'a word" where
  "rotr n w = (drop_bit n w OR push_bit (LENGTH('a) - n) w)"

definition big_sigma :: "nat \<times> nat \<times> nat \<Rightarrow> 'a::len word \<Rightarrow> 'a word" where
  "big_sigma = (\<lambda>(a, b, c) w. rotr a w XOR rotr b w XOR rotr c w)"

definition small_sigma :: "nat \<times> nat \<times> nat \<Rightarrow> 'a::len word \<Rightarrow> 'a word" where
  "small_sigma = (\<lambda>(a, b, c) w. rotr a w XOR rotr b w XOR drop_bit c w)"

text \<open>The message schedule, the latest word first.\<close>

fun schedule :: "'a::len word sha2 \<Rightarrow> nat \<Rightarrow> 'a word list \<Rightarrow> 'a word list" where
  "schedule P 0 ws = ws"
| "schedule P (Suc n) ws =
     schedule P n
       ((small_sigma (sh_sigma1 P) (ws ! 1) + ws ! 6 + small_sigma (sh_sigma0 P) (ws ! 14) + ws ! 15) # ws)"

fun rounds ::
  "'a::len word sha2 \<Rightarrow> 'a word list \<Rightarrow> 'a word list \<Rightarrow>
     'a word \<times> 'a word \<times> 'a word \<times> 'a word \<times> 'a word \<times> 'a word \<times> 'a word \<times> 'a word
     \<Rightarrow> 'a word list" where
  "rounds P (k # ks) (w # ws) (a, b, c, d, e, f, g, h) =
     (let t1 = h + big_sigma (sh_Sigma1 P) e + ((e AND f) XOR ((NOT e) AND g)) + k + w;
          t2 = big_sigma (sh_Sigma0 P) a + ((a AND b) XOR (a AND c) XOR (b AND c))
      in rounds P ks ws (t1 + t2, a, b, c, d + t1, e, f, g))"
| "rounds P _ _ (a, b, c, d, e, f, g, h) = [a, b, c, d, e, f, g, h]"

definition compress :: "'a::len word sha2 \<Rightarrow> 'a word list \<Rightarrow> 'a word list \<Rightarrow> 'a word list" where
  "compress P hs block =
     (let ws = rev (schedule P (length (sh_K P) - 16) (rev block))
      in map2 (+) hs (rounds P (sh_K P) ws
           (hs ! 0, hs ! 1, hs ! 2, hs ! 3, hs ! 4, hs ! 5, hs ! 6, hs ! 7)))"

text \<open>Big endian words, and the blocks of a padded message.\<close>

definition be_word :: "bytes \<Rightarrow> 'a::len word" where
  "be_word bs = foldl (\<lambda>w b. push_bit 8 w OR ucast b) 0 bs"

fun be_bytes :: "nat \<Rightarrow> nat \<Rightarrow> bytes" where
  "be_bytes 0 n = []"
| "be_bytes (Suc k) n = be_bytes k (n div 256) @ [word_of_nat n]"

fun chunks :: "nat \<Rightarrow> nat \<Rightarrow> 'b list \<Rightarrow> 'b list list" where
  "chunks n 0 xs = []"
| "chunks n (Suc k) xs = take n xs # chunks n k (drop n xs)"

definition block_bytes :: "'a::len word sha2 \<Rightarrow> nat" where
  "block_bytes P = 16 * sh_width P"

definition sha_pad :: "'a::len word sha2 \<Rightarrow> bytes \<Rightarrow> bytes" where
  "sha_pad P msg =
     (let b = block_bytes P; l = 2 * sh_width P;
          z = (b - (length msg + 1 + l) mod b) mod b
      in msg @ [0x80] @ replicate z 0 @ be_bytes l (8 * length msg))"

definition sha_sum :: "'a::len word sha2 \<Rightarrow> bytes \<Rightarrow> bytes" where
  "sha_sum P msg =
     (let padded = sha_pad P msg;
          blocks = chunks (block_bytes P) (length padded div block_bytes P) padded;
          hs = foldl (\<lambda>hs bl. compress P hs (map be_word (chunks (sh_width P) 16 bl))) (sh_H P) blocks
      in concat (map (\<lambda>w. be_bytes (sh_width P) (unat w)) hs))"

text \<open>
  The constants, as FIPS 180-4 gives them: the first 64 (for SHA-256 the first 32) bits of the
  fractional parts of the cube roots, and for the initial value of the square roots, of the first
  primes. The root is taken bit by bit.
\<close>

definition sha_primes :: "nat list" where
  "sha_primes =
    [2, 3, 5, 7, 11, 13, 17, 19, 23, 29, 31, 37, 41, 43, 47, 53, 59, 61, 67, 71,
     73, 79, 83, 89, 97, 101, 103, 107, 109, 113, 127, 131, 137, 139, 149, 151, 157, 163, 167, 173,
     179, 181, 191, 193, 197, 199, 211, 223, 227, 229, 233, 239, 241, 251, 257, 263, 269, 271, 277, 281,
     283, 293, 307, 311, 313, 317, 331, 337, 347, 349, 353, 359, 367, 373, 379, 383, 389, 397, 401, 409]"

fun root_from :: "nat \<Rightarrow> nat \<Rightarrow> nat \<Rightarrow> nat \<Rightarrow> nat" where
  "root_from k n 0 r = r"
| "root_from k n (Suc i) r = root_from k n i (if (r + 2 ^ i) ^ k \<le> n then r + 2 ^ i else r)"

definition root_fraction :: "nat \<Rightarrow> nat \<Rightarrow> nat" where
  "root_fraction k p = root_from k (p * 2 ^ (64 * k)) 69 0 mod 2 ^ 64"

definition sha256_params :: "32 word sha2" where
  "sha256_params = \<lparr>sh_width = 4,
    sh_K = map (\<lambda>p. word_of_nat (root_fraction 3 p div 2 ^ 32)) (take 64 sha_primes),
    sh_H = map (\<lambda>p. word_of_nat (root_fraction 2 p div 2 ^ 32)) (take 8 sha_primes),
    sh_Sigma0 = (2, 13, 22), sh_Sigma1 = (6, 11, 25), sh_sigma0 = (7, 18, 3), sh_sigma1 = (17, 19, 10)\<rparr>"

definition sha512_params :: "64 word sha2" where
  "sha512_params = \<lparr>sh_width = 8,
    sh_K = map (\<lambda>p. word_of_nat (root_fraction 3 p)) sha_primes,
    sh_H = map (\<lambda>p. word_of_nat (root_fraction 2 p)) (take 8 sha_primes),
    sh_Sigma0 = (28, 34, 39), sh_Sigma1 = (14, 18, 41), sh_sigma0 = (1, 8, 7), sh_sigma1 = (19, 61, 6)\<rparr>"

definition sha256_Sum256 :: "bytes \<Rightarrow> bytes" where
  "sha256_Sum256 = sha_sum sha256_params"

definition sha512_Sum512 :: "bytes \<Rightarrow> bytes" where
  "sha512_Sum512 = sha_sum sha512_params"

text \<open>\<^verbatim>\<open>hmac.New(sha256.New, key)\<close>, one \<^verbatim>\<open>Write\<close>, \<^verbatim>\<open>Sum(nil)\<close>.\<close>

definition hmac_sha256 :: "bytes \<Rightarrow> bytes \<Rightarrow> bytes" where
  "hmac_sha256 key msg =
     (let key = (if length key > 64 then sha256_Sum256 key else key);
          key = key @ replicate (64 - length key) 0
      in sha256_Sum256 (map (\<lambda>b. b XOR 0x5c) key
           @ sha256_Sum256 (map (\<lambda>b. b XOR 0x36) key @ msg)))"

section \<open>Lengths\<close>

lemma length_be_bytes [simp]: "length (be_bytes k n) = k"
  by (induction k arbitrary: n) auto

lemma length_rounds: "length (rounds P ks ws st) = 8"
  by (induction P ks ws st rule: rounds.induct) (auto simp: Let_def)

lemma length_compress: "length hs = 8 \<Longrightarrow> length (compress P hs bl) = 8"
  by (simp add: compress_def Let_def length_rounds)

lemma length_fold_compress:
  "length hs = 8 \<Longrightarrow> length (foldl (\<lambda>hs bl. compress P hs (f bl)) hs bls) = 8"
  by (induction bls arbitrary: hs) (auto simp: length_compress)

lemma length_sha_sum: "length (sh_H P) = 8 \<Longrightarrow> length (sha_sum P msg) = 8 * sh_width P"
  by (simp add: sha_sum_def Let_def length_concat comp_def sum_list_triv length_fold_compress)

lemma length_sha512 [simp]: "length (sha512_Sum512 msg) = 64"
  by (simp add: sha512_Sum512_def length_sha_sum sha512_params_def sha_primes_def)

lemma length_sha256 [simp]: "length (sha256_Sum256 msg) = 32"
  by (simp add: sha256_Sum256_def length_sha_sum sha256_params_def sha_primes_def)

lemma length_hmac [simp]: "length (hmac_sha256 key msg) = 32"
  by (simp add: hmac_sha256_def Let_def)

end
