(* ===== verification/Rand.thy ===== *)
theory Rand
  imports Go_Prelude "HOL-Library.Log_Nat"
begin

text \<open>
  \<^verbatim>\<open>crypto/rand\<close> and \<^verbatim>\<open>randIndex\<close> of \<^verbatim>\<open>code.go\<close>. The random source is a supply of
  bytes; every operation that draws returns what is left of it. A supply that ends is a
  \<^verbatim>\<open>rand.Reader\<close> that fails, on which the code panics (\<open>ErrPanic\<close>).

  \<open>rand_Int\<close> is the standard library's rejection sampling: the low \<open>bitLen (n - 1)\<close> bits of
  as many bytes as they need, drawn again until the value is below \<open>n\<close>.
\<close>

section \<open>Reading the supply\<close>

definition rand_Read :: "nat \<Rightarrow> bytes \<Rightarrow> (bytes \<times> bytes) result" where
  "rand_Read k rs = (if length rs < k then Inl ErrPanic else Inr (take k rs, drop k rs))"

text \<open>\<^verbatim>\<open>big.Int.SetBytes\<close>: big endian.\<close>

definition be_nat :: "bytes \<Rightarrow> nat" where
  "be_nat bs = foldl (\<lambda>n b. n * 256 + unat b) 0 bs"

definition int_bits :: "nat \<Rightarrow> nat" where
  "int_bits n = nat (bitlen (int (n - 1)))"

definition int_bytes :: "nat \<Rightarrow> nat" where
  "int_bytes n = (int_bits n + 7) div 8"

text \<open>\<^verbatim>\<open>bytes[0] &= uint8(int(1<<b) - 1)\<close>.\<close>

definition int_top :: "nat \<Rightarrow> nat" where
  "int_top n = (if int_bits n mod 8 = 0 then 8 else int_bits n mod 8)"

fun mask_top :: "nat \<Rightarrow> bytes \<Rightarrow> bytes" where
  "mask_top b [] = []"
| "mask_top b (x # xs) = take_bit b x # xs"

function rand_Int :: "nat \<Rightarrow> bytes \<Rightarrow> (nat \<times> bytes) result" where
  "rand_Int n rs =
     (if int_bits n = 0 then Inr (0, rs)
      else if length rs < int_bytes n then Inl ErrPanic
      else let v = be_nat (mask_top (int_top n) (take (int_bytes n) rs));
               rs' = drop (int_bytes n) rs
           in if v < n then Inr (v, rs') else rand_Int n rs')"
  by pat_completeness auto
termination
  by (relation "measure (\<lambda>(n, rs). length rs)") (auto simp: int_bytes_def)

declare rand_Int.simps [simp del]

definition randIndex :: "nat \<Rightarrow> bytes \<Rightarrow> (nat \<times> bytes) result" where
  "randIndex n rs = (if n \<le> 1 then Inr (0, rs) else rand_Int n rs)"

lemma rand_Int_less: "rand_Int n rs = Inr (v, rs') \<Longrightarrow> 0 < n \<Longrightarrow> v < n"
proof (induction n rs rule: rand_Int.induct)
  case (1 n rs)
  then show ?case
    using rand_Int.simps [of n rs] by (auto simp: Let_def split: if_splits)
qed

lemma randIndex_less: "randIndex n rs = Inr (v, rs') \<Longrightarrow> 0 < n \<Longrightarrow> v < n"
  by (auto simp: randIndex_def rand_Int_less split: if_splits)

text \<open>Draws in sequence: \<open>randIndex\<close> for each of the sizes \<open>ns\<close>.\<close>

fun draws :: "nat list \<Rightarrow> bytes \<Rightarrow> (nat list \<times> bytes) result" where
  "draws [] rs = Inr ([], rs)"
| "draws (n # ns) rs =
     and_then (randIndex n rs) (\<lambda>(v, rs').
     and_then (draws ns rs') (\<lambda>(vs, rs''). Inr (v # vs, rs'')))"

lemma draws_bounds:
  "draws ns rs = Inr (vs, rs') \<Longrightarrow> \<forall>n \<in> set ns. 0 < n \<Longrightarrow> list_all2 (<) vs ns"
proof (induction ns arbitrary: rs vs)
  case Nil
  then show ?case by simp
next
  case (Cons n ns)
  then show ?case by (fastforce simp: and_then_Inr_iff dest: randIndex_less)
qed

section \<open>No modulo bias\<close>

lemma be_nat_snoc: "be_nat (xs @ [x]) = be_nat xs * 256 + unat x"
  by (simp add: be_nat_def)

lemma be_nat_Nil [simp]: "be_nat [] = 0"
  by (simp add: be_nat_def)

lemma unat_byte_less: "unat (b :: byte) < 256"
proof -
  have "unat b < 2 ^ LENGTH(8)" by (rule unsigned_less)
  then show ?thesis by simp
qed

lemma be_nat_Cons: "be_nat (x # xs) = unat x * 256 ^ length xs + be_nat xs"
proof (induction xs rule: rev_induct)
  case Nil
  then show ?case by (simp add: be_nat_def)
next
  case (snoc y ys)
  have "be_nat (x # ys @ [y]) = be_nat (x # ys) * 256 + unat y"
    using be_nat_snoc [of "x # ys" y] by simp
  then show ?case using snoc by (simp add: be_nat_snoc algebra_simps)
qed

lemma be_nat_less: "be_nat xs < 256 ^ length xs"
proof (induction xs)
  case Nil
  then show ?case by simp
next
  case (Cons x xs)
  have "unat x * 256 ^ length xs + be_nat xs < (unat x + 1) * 256 ^ length xs"
    using Cons by simp
  also have "\<dots> \<le> 256 * 256 ^ length xs"
    using unat_byte_less [of x] by (intro mult_right_mono) auto
  finally show ?case by (simp add: be_nat_Cons)
qed

lemma be_nat_inj: "length xs = length ys \<Longrightarrow> be_nat xs = be_nat ys \<Longrightarrow> xs = ys"
proof (induction xs ys rule: list_induct2)
  case Nil
  then show ?case by simp
next
  case (Cons x xs y ys)
  define m :: nat where "m = 256 ^ length xs"
  have lt: "be_nat xs < m" "be_nat ys < m"
    using be_nat_less [of xs] be_nat_less [of ys] Cons.hyps by (simp_all add: m_def)
  have e: "unat x * m + be_nat xs = unat y * m + be_nat ys"
    using Cons.prems Cons.hyps by (simp add: be_nat_Cons m_def)
  have "(unat x * m + be_nat xs) div m = unat x" "(unat y * m + be_nat ys) div m = unat y"
    using lt by auto
  with e have "unat x = unat y" by simp
  with e show ?case using Cons.IH by (simp add: word_unat_eq_iff)
qed

lemma be_nat_surj: "v < 256 ^ k \<Longrightarrow> \<exists>xs. length xs = k \<and> be_nat xs = v"
proof (induction k arbitrary: v)
  case 0
  then show ?case by simp
next
  case (Suc k)
  have "v div 256 < 256 ^ k" using Suc.prems by (simp add: less_mult_imp_div_less mult.commute)
  then obtain xs where xs: "length xs = k" "be_nat xs = v div 256" using Suc.IH by blast
  have "be_nat (xs @ [word_of_nat (v mod 256)]) = v"
    using xs by (simp add: be_nat_snoc unat_of_nat)
  then show ?case using xs by (intro exI [of _ "xs @ [word_of_nat (v mod 256)]"]) simp
qed

lemma unat_take_bit: "unat (take_bit b (x :: byte)) = unat x mod 2 ^ b"
proof -
  have "unat (take_bit b x) = take_bit b (unat x)" by (rule unsigned_take_bit_eq)
  then show ?thesis by (simp only: take_bit_eq_mod)
qed

lemma card_masked_bytes:
  assumes "b \<le> 8" and "u < 2 ^ b"
  shows "card {x :: byte. unat (take_bit b x) = u} = 2 ^ (8 - b)"
proof -
  have pw: "(2::nat) ^ (8 - b) * 2 ^ b = 256"
    using assms(1) by (simp flip: power_add)
  have less: "q * 2 ^ b + u < 256" if "q < 2 ^ (8 - b)" for q :: nat
  proof -
    have "q * 2 ^ b + u < (q + 1) * 2 ^ b" using assms(2) by simp
    also have "\<dots> \<le> 2 ^ (8 - b) * 2 ^ b" using that by (intro mult_right_mono) auto
    finally show ?thesis by (simp add: pw)
  qed
  let ?f = "\<lambda>q. word_of_nat (q * 2 ^ b + u) :: byte"
  have un: "unat (?f q) = q * 2 ^ b + u" if "q < 2 ^ (8 - b)" for q
    using less [OF that] unat_of_nat [of "q * 2 ^ b + u", where ?'a = 8]
    by (simp del: of_nat_add of_nat_mult)
  have "bij_betw ?f {..< 2 ^ (8 - b)} {x :: byte. unat (take_bit b x) = u}"
  proof (rule bij_betw_byWitness [where f' = "\<lambda>x. unat x div 2 ^ b"])
    show "\<forall>q \<in> {..< 2 ^ (8 - b)}. unat (?f q) div 2 ^ b = q"
      using un assms(2) by simp
    show "\<forall>x \<in> {x :: byte. unat (take_bit b x) = u}. ?f (unat x div 2 ^ b) = x"
    proof
      fix x :: byte
      assume "x \<in> {x. unat (take_bit b x) = u}"
      then have "u = unat x mod 2 ^ b" by (simp add: unat_take_bit)
      then have "unat x div 2 ^ b * 2 ^ b + u = unat x"
        by (simp only: div_mult_mod_eq)
      then show "?f (unat x div 2 ^ b) = x" by simp
    qed
    show "?f ` {..< 2 ^ (8 - b)} \<subseteq> {x. unat (take_bit b x) = u}"
      using un assms(2) by (auto simp: unat_take_bit simp del: of_nat_add of_nat_mult)
    show "(\<lambda>x. unat x div 2 ^ b) ` {x :: byte. unat (take_bit b x) = u} \<subseteq> {..< 2 ^ (8 - b)}"
    proof
      fix q assume "q \<in> (\<lambda>x. unat x div 2 ^ b) ` {x :: byte. unat (take_bit b x) = u}"
      then obtain x :: byte where "q = unat x div 2 ^ b" by auto
      moreover have "unat x < 2 ^ (8 - b) * 2 ^ b" using unat_byte_less [of x] by (simp add: pw)
      ultimately show "q \<in> {..< 2 ^ (8 - b)}" by (simp add: less_mult_imp_div_less)
    qed
  qed
  then show ?thesis by (metis bij_betw_same_card card_lessThan)
qed

lemma int_bits_bounds:
  assumes "2 \<le> n"
  shows "0 < int_bits n" and "n \<le> 2 ^ int_bits n"
proof -
  have p: "0 < int (n - 1)" using assms by simp
  have "0 < bitlen (int (n - 1))"
    using p by (metis bitlen_eq_zero_iff bitlen_nonneg not_le order_le_less)
  then show "0 < int_bits n" by (simp add: int_bits_def)
  have "int (n - 1) < 2 ^ int_bits n"
    using bitlen_bounds [OF p] by (simp add: int_bits_def)
  then have "int (n - 1) < int (2 ^ int_bits n)" by simp
  then have "n - 1 < 2 ^ int_bits n" by (simp only: of_nat_less_iff)
  then show "n \<le> 2 ^ int_bits n" by simp
qed

lemma int_top_bits:
  assumes "0 < int_bits n"
  shows "int_bits n = int_top n + 8 * (int_bytes n - 1)" and "0 < int_bytes n" and "int_top n \<le> 8"
proof -
  define q r where "q = int_bits n div 8" and "r = int_bits n mod 8"
  have b: "int_bits n = 8 * q + r" and r: "r < 8" by (simp_all add: q_def r_def)
  have top: "int_top n = (if r = 0 then 8 else r)" by (simp add: int_top_def r_def)
  have bytes: "int_bytes n = (if r = 0 then q else q + 1)"
    using r by (auto simp: int_bytes_def b)
  show "int_bits n = int_top n + 8 * (int_bytes n - 1)" and "0 < int_bytes n" and "int_top n \<le> 8"
    using assms b r top bytes by auto
qed

lemma div_mod_iff: "0 < m \<Longrightarrow> (b::nat) < m \<Longrightarrow> a * m + b = v \<longleftrightarrow> a = v div m \<and> b = v mod m"
  by auto

text \<open>The blocks with a given value: all choices of the masked bits of the first byte.\<close>

lemma card_blocks:
  assumes n: "2 \<le> n" and v: "v < n"
  shows "card {bs. length bs = int_bytes n \<and> be_nat (mask_top (int_top n) bs) = v} = 2 ^ (8 - int_top n)"
proof -
  note bits = int_bits_bounds [OF n] and top = int_top_bits [OF int_bits_bounds(1) [OF n]]
  define k where "k = int_bytes n - 1"
  define m :: nat where "m = 256 ^ k"
  have k: "int_bytes n = Suc k" and m0: "0 < m" using top(2) by (simp_all add: k_def m_def)
  have "v < 2 ^ int_bits n" using v bits(2) by simp
  also have "\<dots> = 2 ^ int_top n * m"
    by (subst top(1)) (simp add: power_add power_mult m_def k_def)
  finally have u: "v div m < 2 ^ int_top n" by (simp add: less_mult_imp_div_less)
  obtain ys where ys: "length ys = k" "be_nat ys = v mod m"
    using be_nat_surj [of "v mod m" k] m0 by (auto simp: m_def)
  have block: "be_nat (mask_top (int_top n) (x # xs)) = v \<longleftrightarrow> unat (take_bit (int_top n) x) = v div m \<and> xs = ys"
    if "length xs = k" for x xs
  proof -
    have "be_nat xs < m" using be_nat_less [of xs] that by (simp add: m_def)
    then have "be_nat (mask_top (int_top n) (x # xs)) = v
        \<longleftrightarrow> unat (take_bit (int_top n) x) = v div m \<and> be_nat xs = v mod m"
      using div_mod_iff [OF m0] that by (simp only: mask_top.simps be_nat_Cons m_def)
    moreover have "be_nat xs = v mod m \<longleftrightarrow> xs = ys" using be_nat_inj [of xs ys] that ys by metis
    ultimately show ?thesis by simp
  qed
  have "{bs. length bs = int_bytes n \<and> be_nat (mask_top (int_top n) bs) = v}
      = (\<lambda>x. x # ys) ` {x. unat (take_bit (int_top n) x) = v div m}"
  proof (intro set_eqI)
    show "bs \<in> {bs. length bs = int_bytes n \<and> be_nat (mask_top (int_top n) bs) = v}
      \<longleftrightarrow> bs \<in> (\<lambda>x. x # ys) ` {x. unat (take_bit (int_top n) x) = v div m}" for bs
      using ys(1) block by (cases bs) (auto simp: k image_iff)
  qed
  then show ?thesis
    using card_masked_bytes [OF top(3) u] by (simp add: card_image inj_on_def)
qed

lemma randIndex_block:
  assumes "2 \<le> n" and "length bs = int_bytes n"
  shows "randIndex n (bs @ rs) =
    (if be_nat (mask_top (int_top n) bs) < n then Inr (be_nat (mask_top (int_top n) bs), rs) else randIndex n rs)"
  using assms int_bits_bounds(1) [OF assms(1)]
  by (simp add: randIndex_def rand_Int.simps [of n "bs @ rs"] Let_def)

lemma randIndex_one_block:
  assumes "2 \<le> n" and "length bs = int_bytes n"
  shows "randIndex n bs = Inr (v, []) \<longleftrightarrow> be_nat (mask_top (int_top n) bs) = v \<and> v < n"
proof -
  have "randIndex n [] = Inl ErrPanic"
    using assms(1) int_bits_bounds(1) [OF assms(1)] int_top_bits(2) [of n]
    by (simp add: randIndex_def rand_Int.simps [of n "[]"])
  then show ?thesis using randIndex_block [OF assms, of "[]"] by auto
qed

text \<open>C16: The rejection sampling behind \<^verbatim>\<open>randIndex(n)\<close> has no modulo bias. Each index
  below \<open>n\<close> is the result for the same number of the blocks of random bytes that one attempt
  reads, so every index is equally likely; every other block is thrown away, and the draw goes on
  as if it had not been read.\<close>

theorem randIndex_unbiased:
  assumes "2 \<le> n"
  shows "(\<forall>v < n. card {bs. length bs = int_bytes n \<and> randIndex n bs = Inr (v, [])} = 2 ^ (8 - int_top n))
    \<and> (\<forall>bs rs. length bs = int_bytes n \<longrightarrow>
         (if \<exists>v. randIndex n bs = Inr (v, []) then \<exists>v < n. randIndex n (bs @ rs) = Inr (v, rs)
          else randIndex n (bs @ rs) = randIndex n rs))"
proof (intro conjI allI impI)
  show "card {bs. length bs = int_bytes n \<and> randIndex n bs = Inr (v, [])} = 2 ^ (8 - int_top n)" if "v < n" for v
    using card_blocks [OF assms that] randIndex_one_block [OF assms] that by (simp cong: conj_cong)
qed (simp add: randIndex_block [OF assms] randIndex_one_block [OF assms])

theorem randIndex_unbiased_witness:
  "card {bs. length bs = int_bytes 10 \<and> randIndex 10 bs = Inr (7, [])} = 2 ^ (8 - int_top 10)"
  using randIndex_unbiased [of 10] by simp

end
