(* ===== verification/Wordlist.thy ===== *)
theory Wordlist
  imports Go_Prelude
begin

text \<open>
  The embedded file \<^verbatim>\<open>wordlist\<close>, one word a line, in ten parts, and the facts about it
  that need the words themselves. The file is sorted without a word being a prefix of the
  next, which is checked on neighbours (\<open>increasing\<close>) and gives the same for all pairs.
\<close>

section \<open>The file\<close>

definition wordlist_1 :: "string list" where
  "wordlist_1 =
  [''acid'', ''acorn'', ''acre'', ''acts'', ''afar'', ''affix'', ''aged'', ''agent'', ''agile'',
    ''aging'', ''agony'', ''ahead'', ''aide'', ''aids'', ''aim'', ''ajar'', ''alarm'', ''alias'',
    ''alibi'', ''alien'', ''alike'', ''alive'', ''aloe'', ''aloft'', ''aloha'', ''alone'',
    ''amend'', ''amino'', ''ample'', ''amuse'', ''angel'', ''anger'', ''angle'', ''ankle'',
    ''apple'', ''april'', ''apron'', ''aqua'', ''area'', ''arena'', ''argue'', ''arise'',
    ''armed'', ''armor'', ''army'', ''aroma'', ''array'', ''arson'', ''art'', ''ashen'',
    ''ashes'', ''atlas'', ''atom'', ''attic'', ''audio'', ''avert'', ''avoid'', ''awake'',
    ''award'', ''awoke'', ''axis'', ''bacon'', ''badge'', ''bagel'', ''baggy'', ''baked'',
    ''baker'', ''balmy'', ''banjo'', ''barge'', ''barn'', ''bash'', ''basil'', ''bask'',
    ''batch'', ''bath'', ''baton'', ''bats'', ''blade'', ''blank'', ''blast'', ''blaze'',
    ''bleak'', ''blend'', ''bless'', ''blimp'', ''blink'', ''bloat'', ''blob'', ''blog'',
    ''blot'', ''blunt'', ''blurt'', ''blush'', ''boast'', ''boat'', ''body'', ''boil'', ''bok'',
    ''bolt'', ''boned'', ''boney'', ''bonus'', ''bony'', ''book'', ''booth'', ''boots'', ''boss'',
    ''botch'', ''both'', ''boxer'', ''breed'', ''bribe'', ''brick'', ''bride'', ''brim'',
    ''bring'', ''brink'', ''brisk'', ''broad'', ''broil'', ''broke'', ''brook'', ''broom'',
    ''brush'', ''buck'', ''bud'', ''buggy'', ''bulge'', ''bulk'']"

definition wordlist_2 :: "string list" where
  "wordlist_2 =
  [''bully'', ''bunch'', ''bunny'', ''bunt'', ''bush'', ''bust'', ''busy'', ''buzz'', ''cable'',
    ''cache'', ''cadet'', ''cage'', ''cake'', ''calm'', ''cameo'', ''canal'', ''candy'', ''cane'',
    ''canon'', ''cape'', ''card'', ''cargo'', ''carol'', ''carry'', ''carve'', ''case'', ''cash'',
    ''cause'', ''cedar'', ''chain'', ''chair'', ''chant'', ''chaos'', ''charm'', ''chase'',
    ''cheek'', ''cheer'', ''chef'', ''chess'', ''chest'', ''chew'', ''chief'', ''chili'',
    ''chill'', ''chip'', ''chomp'', ''chop'', ''chow'', ''chuck'', ''chump'', ''chunk'',
    ''churn'', ''chute'', ''cider'', ''cinch'', ''city'', ''civic'', ''civil'', ''clad'',
    ''claim'', ''clamp'', ''clap'', ''clash'', ''clasp'', ''class'', ''claw'', ''clay'',
    ''clean'', ''clear'', ''cleat'', ''cleft'', ''clerk'', ''click'', ''cling'', ''clink'',
    ''clip'', ''cloak'', ''clock'', ''clone'', ''cloth'', ''cloud'', ''clump'', ''coach'',
    ''coast'', ''coat'', ''cod'', ''coil'', ''coke'', ''cola'', ''cold'', ''colt'', ''coma'',
    ''come'', ''comic'', ''comma'', ''cone'', ''cope'', ''copy'', ''coral'', ''cork'', ''cost'',
    ''cot'', ''couch'', ''cough'', ''cover'', ''cozy'', ''craft'', ''cramp'', ''crane'',
    ''crank'', ''crate'', ''crave'', ''crawl'', ''crazy'', ''creme'', ''crepe'', ''crept'',
    ''crib'', ''cried'', ''crisp'', ''crook'', ''crop'', ''cross'', ''crowd'', ''crown'',
    ''crumb'', ''crush'', ''crust'', ''cub'', ''cult'']"

definition wordlist_3 :: "string list" where
  "wordlist_3 =
  [''cupid'', ''cure'', ''curl'', ''curry'', ''curse'', ''curve'', ''curvy'', ''cushy'', ''cut'',
    ''cycle'', ''dab'', ''dad'', ''daily'', ''dairy'', ''daisy'', ''dance'', ''dandy'', ''darn'',
    ''dart'', ''dash'', ''data'', ''date'', ''dawn'', ''deaf'', ''deal'', ''dean'', ''debit'',
    ''debt'', ''debug'', ''decaf'', ''decal'', ''decay'', ''deck'', ''decor'', ''decoy'',
    ''deed'', ''delay'', ''denim'', ''dense'', ''dent'', ''depth'', ''derby'', ''desk'', ''dial'',
    ''diary'', ''dice'', ''dig'', ''dill'', ''dime'', ''dimly'', ''diner'', ''dingy'', ''disco'',
    ''dish'', ''disk'', ''ditch'', ''ditzy'', ''dizzy'', ''dock'', ''dodge'', ''doing'', ''doll'',
    ''dome'', ''donor'', ''donut'', ''dose'', ''dot'', ''dove'', ''down'', ''dowry'', ''doze'',
    ''drab'', ''drama'', ''drank'', ''draw'', ''dress'', ''dried'', ''drift'', ''drill'',
    ''drive'', ''drone'', ''droop'', ''drove'', ''drown'', ''drum'', ''dry'', ''duck'', ''duct'',
    ''dude'', ''dug'', ''duke'', ''duo'', ''dusk'', ''dust'', ''duty'', ''dwarf'', ''dwell'',
    ''eagle'', ''early'', ''earth'', ''easel'', ''east'', ''eaten'', ''eats'', ''ebay'',
    ''ebony'', ''ebook'', ''echo'', ''edge'', ''eel'', ''eject'', ''elbow'', ''elder'', ''elf'',
    ''elk'', ''elm'', ''elope'', ''elude'', ''elves'', ''email'', ''emit'', ''empty'', ''emu'',
    ''enter'', ''entry'', ''envoy'', ''equal'', ''erase'', ''error'', ''erupt'']"

definition wordlist_4 :: "string list" where
  "wordlist_4 =
  [''essay'', ''etch'', ''evade'', ''even'', ''evict'', ''evil'', ''evoke'', ''exact'', ''exit'',
    ''fable'', ''faced'', ''fact'', ''fade'', ''fall'', ''false'', ''fancy'', ''fang'', ''fax'',
    ''feast'', ''feed'', ''femur'', ''fence'', ''fend'', ''ferry'', ''fetal'', ''fetch'',
    ''fever'', ''fiber'', ''fifth'', ''fifty'', ''film'', ''filth'', ''final'', ''finch'',
    ''fit'', ''five'', ''flag'', ''flaky'', ''flame'', ''flap'', ''flask'', ''fled'', ''flick'',
    ''fling'', ''flint'', ''flip'', ''flirt'', ''float'', ''flock'', ''flop'', ''floss'',
    ''flyer'', ''foam'', ''foe'', ''fog'', ''foil'', ''folic'', ''folk'', ''food'', ''fool'',
    ''found'', ''fox'', ''foyer'', ''frail'', ''frame'', ''fray'', ''fresh'', ''fried'',
    ''frill'', ''frisk'', ''from'', ''front'', ''frost'', ''froth'', ''frown'', ''froze'',
    ''fruit'', ''gag'', ''gains'', ''gala'', ''game'', ''gap'', ''gas'', ''gave'', ''gear'',
    ''gecko'', ''geek'', ''gem'', ''genre'', ''gift'', ''gig'', ''gills'', ''given'', ''giver'',
    ''glad'', ''glass'', ''glide'', ''gloss'', ''glove'', ''glow'', ''glue'', ''goal'', ''going'',
    ''golf'', ''gong'', ''good'', ''gooey'', ''goofy'', ''gore'', ''gown'', ''grab'', ''grain'',
    ''grant'', ''grape'', ''graph'', ''grasp'', ''grass'', ''grave'', ''gravy'', ''gray'',
    ''green'', ''greet'', ''grew'', ''grid'', ''grief'', ''grill'', ''grip'', ''grit'', ''groom'',
    ''grope'']"

definition wordlist_5 :: "string list" where
  "wordlist_5 =
  [''growl'', ''grub'', ''grunt'', ''guide'', ''gulf'', ''gulp'', ''gummy'', ''guru'', ''gush'',
    ''gut'', ''guy'', ''habit'', ''half'', ''halo'', ''halt'', ''happy'', ''harm'', ''hash'',
    ''hasty'', ''hatch'', ''hate'', ''haven'', ''hazel'', ''hazy'', ''heap'', ''heat'', ''heave'',
    ''hedge'', ''hefty'', ''help'', ''herbs'', ''hers'', ''hub'', ''hug'', ''hula'', ''hull'',
    ''human'', ''humid'', ''hump'', ''hung'', ''hunk'', ''hunt'', ''hurry'', ''hurt'', ''hush'',
    ''hut'', ''ice'', ''icing'', ''icon'', ''icy'', ''igloo'', ''image'', ''ion'', ''iron'',
    ''islam'', ''issue'', ''item'', ''ivory'', ''ivy'', ''jab'', ''jam'', ''jaws'', ''jazz'',
    ''jeep'', ''jelly'', ''jet'', ''jiffy'', ''job'', ''jog'', ''jolly'', ''jolt'', ''jot'',
    ''joy'', ''judge'', ''juice'', ''juicy'', ''july'', ''jumbo'', ''jump'', ''junky'', ''juror'',
    ''jury'', ''keep'', ''keg'', ''kept'', ''kick'', ''kilt'', ''king'', ''kite'', ''kitty'',
    ''kiwi'', ''knee'', ''knelt'', ''koala'', ''kung'', ''ladle'', ''lady'', ''lair'', ''lake'',
    ''lance'', ''land'', ''lapel'', ''large'', ''lash'', ''lasso'', ''last'', ''latch'', ''late'',
    ''lazy'', ''left'', ''legal'', ''lemon'', ''lend'', ''lens'', ''lent'', ''level'', ''lever'',
    ''lid'', ''life'', ''lift'', ''lilac'', ''lily'', ''limb'', ''limes'', ''line'', ''lint'',
    ''lion'', ''lip'', ''list'', ''lived'']"

definition wordlist_6 :: "string list" where
  "wordlist_6 =
  [''liver'', ''lunar'', ''lunch'', ''lung'', ''lurch'', ''lure'', ''lurk'', ''lying'', ''lyric'',
    ''mace'', ''maker'', ''malt'', ''mama'', ''mango'', ''manor'', ''many'', ''map'', ''march'',
    ''mardi'', ''marry'', ''mash'', ''match'', ''mate'', ''math'', ''moan'', ''mocha'', ''moist'',
    ''mold'', ''mom'', ''moody'', ''mop'', ''morse'', ''most'', ''motor'', ''motto'', ''mount'',
    ''mouse'', ''mousy'', ''mouth'', ''move'', ''movie'', ''mower'', ''mud'', ''mug'', ''mulch'',
    ''mule'', ''mull'', ''mumbo'', ''mummy'', ''mural'', ''muse'', ''music'', ''musky'', ''mute'',
    ''nacho'', ''nag'', ''nail'', ''name'', ''nanny'', ''nap'', ''navy'', ''near'', ''neat'',
    ''neon'', ''nerd'', ''nest'', ''net'', ''next'', ''niece'', ''ninth'', ''nutty'', ''oak'',
    ''oasis'', ''oat'', ''ocean'', ''oil'', ''old'', ''olive'', ''omen'', ''onion'', ''only'',
    ''ooze'', ''opal'', ''open'', ''opera'', ''opt'', ''otter'', ''ouch'', ''ounce'', ''outer'',
    ''oval'', ''oven'', ''owl'', ''ozone'', ''pace'', ''pagan'', ''pager'', ''palm'', ''panda'',
    ''panic'', ''pants'', ''panty'', ''paper'', ''park'', ''party'', ''pasta'', ''patch'',
    ''path'', ''patio'', ''payer'', ''pecan'', ''penny'', ''pep'', ''perch'', ''perky'', ''perm'',
    ''pest'', ''petal'', ''petri'', ''petty'', ''photo'', ''plank'', ''plant'', ''plaza'',
    ''plead'', ''plot'', ''plow'', ''pluck'', ''plug'', ''plus'']"

definition wordlist_7 :: "string list" where
  "wordlist_7 =
  [''poach'', ''pod'', ''poem'', ''poet'', ''pogo'', ''point'', ''poise'', ''poker'', ''polar'',
    ''polio'', ''polka'', ''polo'', ''pond'', ''pony'', ''poppy'', ''pork'', ''poser'', ''pouch'',
    ''pound'', ''pout'', ''power'', ''prank'', ''press'', ''print'', ''prior'', ''prism'',
    ''prize'', ''probe'', ''prong'', ''proof'', ''props'', ''prude'', ''prune'', ''pry'', ''pug'',
    ''pull'', ''pulp'', ''pulse'', ''puma'', ''punch'', ''punk'', ''pupil'', ''puppy'', ''purr'',
    ''purse'', ''push'', ''putt'', ''quack'', ''quake'', ''query'', ''quiet'', ''quill'',
    ''quilt'', ''quit'', ''quota'', ''quote'', ''rabid'', ''race'', ''rack'', ''radar'',
    ''radio'', ''raft'', ''rage'', ''raid'', ''rail'', ''rake'', ''rally'', ''ramp'', ''ranch'',
    ''range'', ''rank'', ''rant'', ''rash'', ''raven'', ''reach'', ''react'', ''ream'', ''rebel'',
    ''recap'', ''relax'', ''relay'', ''relic'', ''remix'', ''repay'', ''repel'', ''reply'',
    ''rerun'', ''reset'', ''rhyme'', ''rice'', ''rich'', ''ride'', ''rigid'', ''rigor'',
    ''rinse'', ''riot'', ''ripen'', ''rise'', ''risk'', ''ritzy'', ''rival'', ''river'',
    ''roast'', ''robe'', ''robin'', ''rock'', ''rogue'', ''roman'', ''romp'', ''rope'', ''rover'',
    ''royal'', ''ruby'', ''rug'', ''ruin'', ''rule'', ''runny'', ''rush'', ''rust'', ''rut'',
    ''sadly'', ''sage'', ''said'', ''saint'', ''salad'', ''salon'', ''salsa'', ''salt'', ''same'',
    ''sandy'']"

definition wordlist_8 :: "string list" where
  "wordlist_8 =
  [''santa'', ''satin'', ''sauna'', ''saved'', ''savor'', ''sax'', ''say'', ''scale'', ''scam'',
    ''scan'', ''scare'', ''scarf'', ''scary'', ''scoff'', ''scold'', ''scoop'', ''scoot'',
    ''scope'', ''score'', ''scorn'', ''scout'', ''scowl'', ''scrap'', ''scrub'', ''scuba'',
    ''scuff'', ''sect'', ''sedan'', ''self'', ''send'', ''sepia'', ''serve'', ''set'', ''seven'',
    ''shack'', ''shade'', ''shady'', ''shaft'', ''shaky'', ''sham'', ''shape'', ''share'',
    ''sharp'', ''shed'', ''sheep'', ''sheet'', ''shelf'', ''shell'', ''shine'', ''shiny'',
    ''ship'', ''shirt'', ''shock'', ''shop'', ''shore'', ''shout'', ''shove'', ''shown'',
    ''showy'', ''shred'', ''shrug'', ''shun'', ''shush'', ''shut'', ''shy'', ''sift'', ''silk'',
    ''silly'', ''silo'', ''sip'', ''siren'', ''sixth'', ''size'', ''skate'', ''skew'', ''skid'',
    ''skier'', ''skies'', ''skip'', ''skirt'', ''skit'', ''sky'', ''slab'', ''slack'', ''slain'',
    ''slam'', ''slang'', ''slash'', ''slate'', ''slaw'', ''sled'', ''sleek'', ''sleep'',
    ''sleet'', ''slept'', ''slice'', ''slick'', ''slimy'', ''sling'', ''slip'', ''slit'',
    ''slob'', ''slot'', ''slug'', ''slum'', ''slurp'', ''slush'', ''small'', ''smash'', ''smell'',
    ''smile'', ''smirk'', ''smog'', ''snack'', ''snap'', ''snare'', ''snarl'', ''sneak'',
    ''sneer'', ''sniff'', ''snore'', ''snort'', ''snout'', ''snowy'', ''snub'', ''snuff'',
    ''speak'', ''speed'', ''spend'', ''spent'']"

definition wordlist_9 :: "string list" where
  "wordlist_9 =
  [''spew'', ''spied'', ''spill'', ''spiny'', ''spoil'', ''spoke'', ''spoof'', ''spool'',
    ''spoon'', ''sport'', ''spot'', ''spout'', ''spray'', ''spree'', ''spur'', ''squad'',
    ''squat'', ''squid'', ''stack'', ''staff'', ''stage'', ''stain'', ''stall'', ''stamp'',
    ''stand'', ''stank'', ''stark'', ''start'', ''stash'', ''state'', ''stays'', ''steam'',
    ''steep'', ''stem'', ''step'', ''stew'', ''stick'', ''sting'', ''stir'', ''stock'', ''stole'',
    ''stomp'', ''stony'', ''stood'', ''stool'', ''stoop'', ''stop'', ''storm'', ''stout'',
    ''stove'', ''straw'', ''stray'', ''strut'', ''stuck'', ''stud'', ''stuff'', ''stump'',
    ''stung'', ''stunt'', ''suds'', ''sugar'', ''sulk'', ''surf'', ''sushi'', ''swab'', ''swan'',
    ''swarm'', ''sway'', ''swear'', ''sweat'', ''sweep'', ''swell'', ''swept'', ''swim'',
    ''swing'', ''swipe'', ''swirl'', ''swoop'', ''swore'', ''syrup'', ''tacky'', ''taco'',
    ''tag'', ''take'', ''tall'', ''talon'', ''tamer'', ''tank'', ''taper'', ''taps'', ''tarot'',
    ''tart'', ''task'', ''taste'', ''tasty'', ''taunt'', ''thank'', ''thaw'', ''theft'',
    ''theme'', ''thigh'', ''thing'', ''think'', ''thong'', ''thorn'', ''those'', ''throb'',
    ''thud'', ''thumb'', ''thump'', ''thus'', ''tiara'', ''tidal'', ''tidy'', ''tiger'', ''tile'',
    ''tilt'', ''tint'', ''tiny'', ''trace'', ''track'', ''trade'', ''train'', ''trait'', ''trap'',
    ''trash'', ''tray'', ''treat'', ''tree'', ''trek'']"

definition wordlist_10 :: "string list" where
  "wordlist_10 =
  [''trend'', ''trial'', ''tribe'', ''trick'', ''trio'', ''trout'', ''truce'', ''truck'',
    ''trump'', ''trunk'', ''try'', ''tug'', ''tulip'', ''tummy'', ''turf'', ''tusk'', ''tutor'',
    ''tutu'', ''tux'', ''tweak'', ''tweet'', ''twice'', ''twine'', ''twins'', ''twirl'',
    ''twist'', ''uncle'', ''uncut'', ''undo'', ''unify'', ''union'', ''unit'', ''untie'',
    ''upon'', ''upper'', ''urban'', ''used'', ''user'', ''usher'', ''utter'', ''value'',
    ''vapor'', ''vegan'', ''venue'', ''verse'', ''vest'', ''veto'', ''vice'', ''video'', ''view'',
    ''viral'', ''virus'', ''visa'', ''visor'', ''vixen'', ''vocal'', ''voice'', ''void'',
    ''volt'', ''voter'', ''vowel'', ''wad'', ''wafer'', ''wager'', ''wages'', ''wagon'', ''wake'',
    ''walk'', ''wand'', ''wasp'', ''watch'', ''water'', ''wavy'', ''wheat'', ''whiff'', ''whole'',
    ''whoop'', ''wick'', ''widen'', ''widow'', ''width'', ''wife'', ''wifi'', ''wilt'', ''wimp'',
    ''wind'', ''wing'', ''wink'', ''wipe'', ''wired'', ''wiry'', ''wise'', ''wish'', ''wispy'',
    ''wok'', ''wolf'', ''womb'', ''wool'', ''woozy'', ''word'', ''work'', ''worry'', ''wound'',
    ''woven'', ''wrath'', ''wreck'', ''wrist'', ''xerox'', ''yahoo'', ''yam'', ''yard'', ''year'',
    ''yeast'', ''yelp'', ''yield'', ''yodel'', ''yoga'', ''yoyo'', ''yummy'', ''zebra'', ''zero'',
    ''zesty'', ''zippy'', ''zone'', ''zoom'']"

definition wordlist_lines :: "string list" where
  "wordlist_lines = wordlist_1 @ wordlist_2 @ wordlist_3 @ wordlist_4 @ wordlist_5
     @ wordlist_6 @ wordlist_7 @ wordlist_8 @ wordlist_9 @ wordlist_10"

lemmas wordlist_defs = wordlist_1_def wordlist_2_def wordlist_3_def wordlist_4_def wordlist_5_def
  wordlist_6_def wordlist_7_def wordlist_8_def wordlist_9_def wordlist_10_def

section \<open>Sorted and prefix free\<close>

definition letter :: "char \<Rightarrow> bool" where
  "letter c \<longleftrightarrow> 97 \<le> (of_char c :: nat) \<and> (of_char c :: nat) \<le> 122"

definition word_form :: "string \<Rightarrow> bool" where
  "word_form w \<longleftrightarrow> 3 \<le> length w \<and> length w \<le> 5 \<and> list_all letter w"

text \<open>The string order, without a word before its own extension.\<close>

fun before :: "string \<Rightarrow> string \<Rightarrow> bool" where
  "before (c # s) (d # t) = ((of_char c :: nat) < of_char d \<or> c = d \<and> before s t)"
| "before _ _ = False"

fun increasing :: "string list \<Rightarrow> bool" where
  "increasing (s # t # ws) = (before s t \<and> increasing (t # ws))"
| "increasing _ = True"

lemma before_trans: "before s t \<Longrightarrow> before t u \<Longrightarrow> before s u"
proof (induction s t arbitrary: u rule: before.induct)
  case (1 c s d t)
  then show ?case by (cases u) auto
qed simp_all

lemma before_not_prefix: "before s t \<Longrightarrow> \<not> prefix s t \<and> \<not> prefix t s"
  by (induction s t rule: before.induct) auto

lemma increasing_sorted: "increasing ws \<Longrightarrow> sorted_wrt before ws"
proof (induction ws rule: increasing.induct)
  case (1 s t ws)
  then have "\<forall>u \<in> set ws. before t u" "before s t" by auto
  then show ?case using 1 before_trans by auto
qed simp_all

lemma increasing_append:
  "increasing xs \<Longrightarrow> increasing ys \<Longrightarrow> xs \<noteq> [] \<Longrightarrow> ys \<noteq> [] \<Longrightarrow> before (last xs) (hd ys) \<Longrightarrow>
   increasing (xs @ ys)"
  by (induction xs rule: increasing.induct; cases ys) auto

section \<open>The checks\<close>

lemma words_1:
  "length wordlist_1 = 130" "list_all word_form wordlist_1" "increasing wordlist_1"
  "wordlist_1 \<noteq> []" "hd wordlist_1 = ''acid''" "last wordlist_1 = ''bulk''"
  by (simp_all add: wordlist_1_def word_form_def letter_def)

lemma words_2:
  "length wordlist_2 = 130" "list_all word_form wordlist_2" "increasing wordlist_2"
  "wordlist_2 \<noteq> []" "hd wordlist_2 = ''bully''" "last wordlist_2 = ''cult''"
  by (simp_all add: wordlist_2_def word_form_def letter_def)

lemma words_3:
  "length wordlist_3 = 130" "list_all word_form wordlist_3" "increasing wordlist_3"
  "wordlist_3 \<noteq> []" "hd wordlist_3 = ''cupid''" "last wordlist_3 = ''erupt''"
  by (simp_all add: wordlist_3_def word_form_def letter_def)

lemma words_4:
  "length wordlist_4 = 130" "list_all word_form wordlist_4" "increasing wordlist_4"
  "wordlist_4 \<noteq> []" "hd wordlist_4 = ''essay''" "last wordlist_4 = ''grope''"
  by (simp_all add: wordlist_4_def word_form_def letter_def)

lemma words_5:
  "length wordlist_5 = 130" "list_all word_form wordlist_5" "increasing wordlist_5"
  "wordlist_5 \<noteq> []" "hd wordlist_5 = ''growl''" "last wordlist_5 = ''lived''"
  by (simp_all add: wordlist_5_def word_form_def letter_def)

lemma words_6:
  "length wordlist_6 = 130" "list_all word_form wordlist_6" "increasing wordlist_6"
  "wordlist_6 \<noteq> []" "hd wordlist_6 = ''liver''" "last wordlist_6 = ''plus''"
  by (simp_all add: wordlist_6_def word_form_def letter_def)

lemma words_7:
  "length wordlist_7 = 130" "list_all word_form wordlist_7" "increasing wordlist_7"
  "wordlist_7 \<noteq> []" "hd wordlist_7 = ''poach''" "last wordlist_7 = ''sandy''"
  by (simp_all add: wordlist_7_def word_form_def letter_def)

lemma words_8:
  "length wordlist_8 = 130" "list_all word_form wordlist_8" "increasing wordlist_8"
  "wordlist_8 \<noteq> []" "hd wordlist_8 = ''santa''" "last wordlist_8 = ''spent''"
  by (simp_all add: wordlist_8_def word_form_def letter_def)

lemma words_9:
  "length wordlist_9 = 130" "list_all word_form wordlist_9" "increasing wordlist_9"
  "wordlist_9 \<noteq> []" "hd wordlist_9 = ''spew''" "last wordlist_9 = ''trek''"
  by (simp_all add: wordlist_9_def word_form_def letter_def)

lemma words_10:
  "length wordlist_10 = 125" "list_all word_form wordlist_10" "increasing wordlist_10"
  "wordlist_10 \<noteq> []" "hd wordlist_10 = ''trend''" "last wordlist_10 = ''zoom''"
  by (simp_all add: wordlist_10_def word_form_def letter_def)

lemmas words_checked = words_1 words_2 words_3 words_4 words_5
  words_6 words_7 words_8 words_9 words_10

lemma lines_length: "length wordlist_lines = 1295"
  by (simp add: wordlist_lines_def words_checked)

lemma lines_form: "list_all word_form wordlist_lines"
  by (simp add: wordlist_lines_def words_checked)

lemma lines_increasing: "increasing wordlist_lines"
  unfolding wordlist_lines_def append_assoc
  by (intro increasing_append) (simp_all add: words_checked)

end
