(* ===== verification/Limiter.thy ===== *)
theory Limiter
  imports Go_Map Go_Float
begin

text \<open>
  \<^verbatim>\<open>limits.go\<close>: the token buckets and the connection limiter of the daemon. Each method
  reads the clock once and runs under the limiter's mutex, so it is a function of the state
  and that reading. \<^verbatim>\<open>float64\<close> arithmetic is rounded (\<open>Go_Float\<close>).

  The locale \<open>token_bucket\<close> states what the rate proofs need of one bucket, and bounds the
  grants of any run; it is interpreted on \<open>bucket_take\<close> with the parameters of the global
  and of the per-address bucket.
\<close>

section \<open>Constants and state\<close>

definition rateBurst :: int where [go_const]: "rateBurst = 20"
definition ratePerMinute :: int where [go_const]: "ratePerMinute = 20"
definition blockAfter :: nat where [go_const]: "blockAfter = 50"
definition blockWindow :: duration where [go_const]: "blockWindow = 10 * Minute"
definition blockFor :: duration where [go_const]: "blockFor = Hour"
definition globalBurst :: int where [go_const]: "globalBurst = 60"
definition globalPerSecond :: int where [go_const]: "globalPerSecond = 10"

record bucket =
  b_tokens :: rat
  b_last :: gotime

text \<open>Go embeds \<^verbatim>\<open>bucket\<close> in \<^verbatim>\<open>ipState\<close>; the record extends it.\<close>

record ipState = bucket +
  ip_lastSeen :: gotime
  ip_failures :: "gotime list"
  ip_blocked :: gotime

record limiter =
  l_ip :: "(string, ipState) gomap"
  l_global :: bucket

section \<open>Operations\<close>

definition bucket_take ::
  "'a bucket_scheme \<Rightarrow> gotime \<Rightarrow> rat \<Rightarrow> rat \<Rightarrow> bool \<times> 'a bucket_scheme" where
  "bucket_take b now burst perSecond =
     (let b0 = (if time_IsZero (b_last b) then b\<lparr>b_tokens := burst, b_last := now\<rparr> else b);
          b1 = b0\<lparr>b_tokens := min burst
                   (fl (b_tokens b0 + fl (dur_Seconds (time_Sub now (b_last b0)) * perSecond))),
                  b_last := now\<rparr>
      in if b_tokens b1 < 1 then (False, b1)
         else (True, b1\<lparr>b_tokens := fl (b_tokens b1 - 1)\<rparr>))"

definition zero_bucket :: bucket where
  "zero_bucket = \<lparr>b_tokens = 0, b_last = 0\<rparr>"

definition zero_ipState :: ipState where
  "zero_ipState = \<lparr>b_tokens = 0, b_last = 0, ip_lastSeen = 0, ip_failures = [], ip_blocked = 0\<rparr>"

definition newLimiter :: limiter where
  "newLimiter = \<lparr>l_ip = [], l_global = zero_bucket\<rparr>"

text \<open>\<^verbatim>\<open>ratePerMinute/60.0\<close> is a constant expression, rounded once when it is passed.\<close>

definition peerRate :: rat where
  "peerRate = fl (of_int ratePerMinute / 60)"

definition allowPeer :: "gotime \<Rightarrow> string \<Rightarrow> limiter \<Rightarrow> bool \<times> limiter" where
  "allowPeer now addr l =
     (let s = (case mget (l_ip l) addr of Some s \<Rightarrow> s | None \<Rightarrow> zero_ipState);
          s = s\<lparr>ip_lastSeen := now\<rparr>
      in if time_Before now (ip_blocked s)
         then (False, l\<lparr>l_ip := mput addr s (l_ip l)\<rparr>)
         else let (ok, s) = bucket_take s now (of_int rateBurst) peerRate
              in (ok, l\<lparr>l_ip := mput addr s (l_ip l)\<rparr>))"

definition allowExchange :: "gotime \<Rightarrow> limiter \<Rightarrow> bool \<times> limiter" where
  "allowExchange now l =
     (let (ok, g) = bucket_take (l_global l) now (of_int globalBurst) (of_int globalPerSecond)
      in (ok, l\<lparr>l_global := g\<rparr>))"

definition limiter_fail :: "gotime \<Rightarrow> string \<Rightarrow> limiter \<Rightarrow> limiter" where
  "limiter_fail now addr l =
     (case mget (l_ip l) addr of
        None \<Rightarrow> l
      | Some s \<Rightarrow>
          let recent = filter (\<lambda>t. time_Sub now t < blockWindow) (ip_failures s) @ [now];
              s = s\<lparr>ip_failures := recent\<rparr>;
              s = (if length (ip_failures s) \<ge> blockAfter
                   then s\<lparr>ip_blocked := time_Add now blockFor, ip_failures := []\<rparr> else s)
          in l\<lparr>l_ip := mput addr s (l_ip l)\<rparr>)"

definition ip_stale :: "gotime \<Rightarrow> ipState \<Rightarrow> bool" where
  "ip_stale now s \<longleftrightarrow>
     time_After now (ip_blocked s) \<and> time_Sub now (ip_lastSeen s) > blockWindow"

definition sweep_ips ::
  "gotime \<Rightarrow> (string \<times> ipState) list \<Rightarrow> (string, ipState) gomap \<Rightarrow> (string, ipState) gomap" where
  "sweep_ips now ord m = range_delete (\<lambda>_ s. ip_stale now s) ord m"

definition limiter_sweep :: "gotime \<Rightarrow> (string \<times> ipState) list \<Rightarrow> limiter \<Rightarrow> limiter" where
  "limiter_sweep now ord l = l\<lparr>l_ip := sweep_ips now ord (l_ip l)\<rparr>"

interpretation ip_sweep: expiring sweep_ips ip_stale
proof unfold_locales
  show "sweep_ips now ord m = filter (\<lambda>(k, v). \<not> ip_stale now v) m"
    if "mwf m" "visits ord m" for m ord now
    using that by (simp add: sweep_ips_def range_delete_visits)
  show "ip_stale t' v" if "ip_stale t v" "t \<le> t'" for t t' v
    using that time_Sub_mono [of t t' "ip_lastSeen v"] by (auto simp: ip_stale_def time_After_def)
qed

section \<open>The contract of a token bucket\<close>

text \<open>
  \<open>level\<close> is the number of tokens a bucket holds, \<open>stamp\<close> the instant of its last
  update, \<open>slack\<close> the rounding one call can add. A call moves the stamp to its instant and
  cannot hand out, in tokens and grants together, more than it held plus the refill.
\<close>

locale token_bucket =
  fixes acquire :: "gotime \<Rightarrow> 'b \<Rightarrow> bool \<times> 'b"
    and level :: "'b \<Rightarrow> rat"
    and stamp :: "'b \<Rightarrow> gotime"
    and good :: "'b \<Rightarrow> bool"
    and burst rate slack :: rat
  assumes take_used:
      "good b \<Longrightarrow> 0 < stamp b \<Longrightarrow> stamp b \<le> now \<Longrightarrow> acquire now b = (g, b') \<Longrightarrow>
       good b' \<and> stamp b' = now \<and>
       of_bool g + level b' \<le> level b + rate * of_int (now - stamp b) + slack"
    and take_fresh:
      "stamp b = 0 \<Longrightarrow> 0 < now \<Longrightarrow> acquire now b = (g, b') \<Longrightarrow>
       good b' \<and> stamp b' = now \<and> of_bool g + level b' \<le> burst + slack"
    and level_nonneg: "good b \<Longrightarrow> 0 \<le> level b"

text \<open>The number of calls granted when a bucket is asked at the instants \<open>ts\<close>.\<close>

fun grants :: "(gotime \<Rightarrow> 'b \<Rightarrow> bool \<times> 'b) \<Rightarrow> gotime list \<Rightarrow> 'b \<Rightarrow> nat" where
  "grants acquire [] b = 0"
| "grants acquire (t # ts) b = (case acquire t b of (g, b') \<Rightarrow> of_bool g + grants acquire ts b')"

context token_bucket
begin

lemma grants_used:
  "good b \<Longrightarrow> 0 < stamp b \<Longrightarrow> sorted (stamp b # ts) \<Longrightarrow>
   of_nat (grants acquire ts b) \<le>
     level b + rate * of_int (last (stamp b # ts) - stamp b) + of_nat (length ts) * slack"
proof (induction ts arbitrary: b)
  case Nil
  then show ?case using level_nonneg by simp
next
  case (Cons t ts)
  obtain g b' where tk: "acquire t b = (g, b')" by (cases "acquire t b")
  from Cons.prems take_used [OF _ _ _ tk]
  have b': "good b'" "stamp b' = t"
    and step: "of_bool g + level b' \<le> level b + rate * of_int (t - stamp b) + slack"
    by auto
  have "of_nat (grants acquire ts b') \<le>
      level b' + rate * of_int (last (t # ts) - t) + of_nat (length ts) * slack"
    using Cons.IH [of b'] Cons.prems b' by auto
  with step show ?case
    by (simp add: tk algebra_simps of_bool_def split: if_splits)
qed

lemma grants_fresh:
  assumes "stamp b = 0" and "0 < t" and "sorted (t # ts)"
  shows "of_nat (grants acquire (t # ts) b) \<le>
     burst + rate * of_int (last (t # ts) - t) + of_nat (Suc (length ts)) * slack"
proof -
  obtain g b' where tk: "acquire t b = (g, b')" by (cases "acquire t b")
  from take_fresh [OF assms(1,2) tk]
  have b': "good b'" "stamp b' = t" and step: "of_bool g + level b' \<le> burst + slack" by auto
  have "of_nat (grants acquire ts b') \<le>
      level b' + rate * of_int (last (t # ts) - t) + of_nat (length ts) * slack"
    using grants_used [of b' ts] b' assms by auto
  with step show ?thesis
    by (simp add: tk algebra_simps of_bool_def split: if_splits)
qed

end

section \<open>\<^verbatim>\<open>bucket.take\<close> is a token bucket\<close>

definition bucket_good :: "rat \<Rightarrow> 'a bucket_scheme \<Rightarrow> bool" where
  "bucket_good burst b \<longleftrightarrow> 0 \<le> b_tokens b \<and> b_tokens b \<le> burst"

text \<open>Nanosecond rate and slack of a bucket with the given float parameters.\<close>

definition ns_rate :: "rat \<Rightarrow> rat" where
  "ns_rate perSecond = perSecond / 1000000000 * (1 + ulp) ^ 4"

lemma refill_le:
  assumes "0 \<le> d" and "0 \<le> r"
  shows "fl (dur_Seconds d * r) \<le> ns_rate r * of_int d"
proof -
  have s: "0 \<le> dur_Seconds d" by (rule dur_Seconds_nonneg [OF assms(1)])
  have u: "(0::rat) \<le> 1 + ulp" using ulp_bounds by simp
  have "fl (dur_Seconds d * r) \<le> dur_Seconds d * r * (1 + ulp)"
    by (rule fl_le [OF mult_nonneg_nonneg [OF s assms(2)]])
  also have "\<dots> \<le> (of_int d / 1000000000 * (1 + ulp) ^ 3) * r * (1 + ulp)"
    using dur_Seconds_le [OF assms(1)] assms(2) u by (intro mult_right_mono) auto
  also have "\<dots> = ns_rate r * of_int d"
    by (simp add: ns_rate_def power3_eq_cube power4_eq_xxxx)
  finally show ?thesis .
qed

lemma clamp_le:
  assumes "0 \<le> y" and "0 \<le> burst"
  shows "min burst (fl y) \<le> y + 2 * burst * ulp"
proof (cases "y \<le> 2 * burst")
  case True
  have "fl y \<le> y + y * ulp" using fl_le [OF assms(1)] by (simp add: algebra_simps)
  also have "y * ulp \<le> 2 * burst * ulp"
    using True ulp_bounds by (intro mult_right_mono) auto
  finally show ?thesis by simp
next
  case False
  have "0 \<le> burst * ulp" using assms(2) ulp_bounds by simp
  moreover have "burst \<le> y" using False assms(2) by simp
  ultimately have "burst \<le> y + 2 * burst * ulp" unfolding mult.assoc by linarith
  then show ?thesis by (simp add: min_le_iff_disj)
qed

lemma spend_le:
  assumes "1 \<le> x" and "x \<le> burst" and "burst * ulp \<le> 1"
  shows "0 \<le> fl (x - 1)" and "fl (x - 1) \<le> x" and "fl (x - 1) \<le> x - 1 + burst * ulp"
proof -
  show "0 \<le> fl (x - 1)" using assms by (intro fl_nonneg) simp
  have "fl (x - 1) \<le> (x - 1) * (1 + ulp)" using assms by (intro fl_le) simp
  also have "\<dots> = x - 1 + (x - 1) * ulp" by (simp add: algebra_simps)
  also have "(x - 1) * ulp \<le> burst * ulp"
    using assms ulp_bounds by (intro mult_right_mono) auto
  finally show "fl (x - 1) \<le> x - 1 + burst * ulp" by simp
  then show "fl (x - 1) \<le> x" using assms(3) by simp
qed

text \<open>
  One call on a bucket whose stamp is set: the level stays in its range and grant plus new level
  is bounded by old level plus refill. A fresh bucket starts full.
\<close>

definition take_slack :: "rat \<Rightarrow> rat" where
  "take_slack burst = 3 * burst * ulp"

lemma bucket_take_step:
  assumes res: "bucket_take b now burst r = (g, b')"
    and b0: "b0 = (if b_last b = 0 then b\<lparr>b_tokens := burst, b_last := now\<rparr> else b)"
    and t0: "0 \<le> b_tokens b0" and mono: "b_last b0 \<le> now"
    and burst: "0 \<le> burst" "burst * ulp \<le> 1" and r: "0 \<le> r"
  shows "bucket_good burst b'" and "b_last b' = now"
    and "of_bool g + b_tokens b' \<le>
         b_tokens b0 + ns_rate r * of_int (now - b_last b0) + take_slack burst"
proof -
  define d where "d = time_Sub now (b_last b0)"
  define y where "y = b_tokens b0 + fl (dur_Seconds d * r)"
  define t where "t = min burst (fl y)"
  have d: "0 \<le> d" "d \<le> now - b_last b0"
    using time_Sub_nonneg [OF mono] time_Sub_le [OF mono] by (simp_all add: d_def)
  have inc: "0 \<le> fl (dur_Seconds d * r)"
    by (rule fl_nonneg [OF mult_nonneg_nonneg [OF dur_Seconds_nonneg [OF d(1)] r]])
  then have y0: "0 \<le> y" using t0 by (simp add: y_def)
  have t: "0 \<le> t" "t \<le> burst" using fl_nonneg [OF y0] burst by (simp_all add: t_def)
  have nr: "0 \<le> ns_rate r" using r ulp_bounds by (simp add: ns_rate_def)
  have "fl (dur_Seconds d * r) \<le> ns_rate r * of_int d" by (rule refill_le [OF d(1) r])
  also have "\<dots> \<le> ns_rate r * of_int (now - b_last b0)"
    using d(2) nr by (intro mult_left_mono) auto
  finally have y: "y \<le> b_tokens b0 + ns_rate r * of_int (now - b_last b0)"
    by (simp add: y_def)
  have ty: "t \<le> y + 2 * burst * ulp" unfolding t_def by (rule clamp_le [OF y0 burst(1)])
  have res': "(g, b') = (if t < 1 then (False, b0\<lparr>b_tokens := t, b_last := now\<rparr>)
      else (True, b0\<lparr>b_tokens := fl (t - 1), b_last := now\<rparr>))"
    using res [symmetric] unfolding bucket_take_def Let_def time_IsZero_def b0 [symmetric]
    by (auto simp: t_def y_def d_def split: if_splits)
  have bu: "0 \<le> burst * ulp" using burst ulp_bounds by simp
  note spend = spend_le [of t burst]
  show "b_last b' = now" using res' by (simp split: if_splits)
  show "bucket_good burst b'"
    using res' t spend burst by (fastforce simp: bucket_good_def split: if_splits)
  show "of_bool g + b_tokens b' \<le>
      b_tokens b0 + ns_rate r * of_int (now - b_last b0) + take_slack burst"
    using res' y ty bu t spend burst by (auto simp: take_slack_def split: if_splits)
qed

lemma token_bucket_take:
  assumes burst: "0 \<le> burst" "burst * ulp \<le> 1" and r: "0 \<le> r"
  shows "token_bucket (\<lambda>now b. bucket_take b now burst r) b_tokens b_last (bucket_good burst)
           burst (ns_rate r) (take_slack burst)"
proof unfold_locales
  fix b b' :: "'a bucket_scheme" and now g
  show "bucket_good burst b' \<and> b_last b' = now \<and>
      of_bool g + b_tokens b' \<le> b_tokens b + ns_rate r * of_int (now - b_last b) + take_slack burst"
    if "bucket_good burst b" "0 < b_last b" "b_last b \<le> now" "bucket_take b now burst r = (g, b')"
    using bucket_take_step [OF that(4) refl _ _ burst r] that by (auto simp: bucket_good_def)
  show "bucket_good burst b' \<and> b_last b' = now \<and> of_bool g + b_tokens b' \<le> burst + take_slack burst"
    if "b_last b = 0" "0 < now" "bucket_take b now burst r = (g, b')"
    using bucket_take_step [OF that(3) refl _ _ burst r] that burst by auto
  show "0 \<le> b_tokens b" if "bucket_good burst b"
    using that by (simp add: bucket_good_def)
qed

section \<open>The two buckets of the limiter\<close>

lemma peerRate_bounds: "1 / 3 * (1 - ulp) \<le> peerRate" "0 \<le> peerRate"
  using fl_ge [of "1 / 3"] fl_nonneg [of "1 / 3"] by (simp_all add: peerRate_def go_const)

interpretation global_bucket: token_bucket
  "\<lambda>now b. bucket_take b now (of_int globalBurst) (of_int globalPerSecond)"
  b_tokens b_last "bucket_good (of_int globalBurst)"
  "of_int globalBurst" "ns_rate (of_int globalPerSecond)" "take_slack (of_int globalBurst)"
  by (rule token_bucket_take) (simp_all add: go_const ulp_def)

interpretation peer_bucket: token_bucket
  "\<lambda>now b. bucket_take b now (of_int rateBurst) peerRate"
  b_tokens b_last "bucket_good (of_int rateBurst)"
  "of_int rateBurst" "ns_rate peerRate" "take_slack (of_int rateBurst)"
  by (rule token_bucket_take) (simp_all add: go_const ulp_def peerRate_bounds)

section \<open>Runs of the limiter\<close>

text \<open>
  The daemon's connections call the limiter in any order; the mutex makes every call atomic, so
  an execution is a sequence of calls with their clock readings.
\<close>

datatype limiter_op =
    AllowPeer gotime string
  | AllowExchange gotime
  | FailPeer gotime string
  | SweepPeers gotime "(string \<times> ipState) list"

fun op_time :: "limiter_op \<Rightarrow> gotime" where
  "op_time (AllowPeer t a) = t"
| "op_time (AllowExchange t) = t"
| "op_time (FailPeer t a) = t"
| "op_time (SweepPeers t ord) = t"

fun limiter_step :: "limiter_op \<Rightarrow> limiter \<Rightarrow> bool \<times> limiter" where
  "limiter_step (AllowPeer t a) l = allowPeer t a l"
| "limiter_step (AllowExchange t) l = allowExchange t l"
| "limiter_step (FailPeer t a) l = (False, limiter_fail t a l)"
| "limiter_step (SweepPeers t ord) l = (False, limiter_sweep t ord l)"

fun decisions :: "limiter \<Rightarrow> limiter_op list \<Rightarrow> (limiter_op \<times> bool) list" where
  "decisions l [] = []"
| "decisions l (x # xs) = (case limiter_step x l of (d, l') \<Rightarrow> (x, d) # decisions l' xs)"

fun is_exchange :: "limiter_op \<Rightarrow> bool" where
  "is_exchange (AllowExchange t) = True"
| "is_exchange _ = False"

definition exchange_grants :: "limiter \<Rightarrow> limiter_op list \<Rightarrow> nat" where
  "exchange_grants l ops = length (filter (\<lambda>(x, d). is_exchange x \<and> d) (decisions l ops))"

lemma limiter_step_global:
  "\<not> is_exchange x \<Longrightarrow> limiter_step x l = (d, l') \<Longrightarrow> l_global l' = l_global l"
  by (cases x) (auto simp: allowPeer_def limiter_fail_def limiter_sweep_def Let_def
      split: option.splits if_splits prod.splits)

lemma exchange_grants_eq:
  "exchange_grants l ops =
   grants (\<lambda>now b. bucket_take b now (of_int globalBurst) (of_int globalPerSecond))
     (map op_time (filter is_exchange ops)) (l_global l)"
proof (induction ops arbitrary: l)
  case Nil
  then show ?case by (simp add: exchange_grants_def)
next
  case (Cons x xs)
  obtain d l' where st: "limiter_step x l = (d, l')" by (cases "limiter_step x l")
  show ?case
  proof (cases "is_exchange x")
    case True
    then obtain t where x: "x = AllowExchange t" by (cases x) auto
    obtain g where tk: "bucket_take (l_global l) t (of_int globalBurst) (of_int globalPerSecond)
        = (d, g)" "l_global l' = g"
      using st x by (auto simp: allowExchange_def split: prod.splits)
    have "exchange_grants l (x # xs) = of_bool d + exchange_grants l' xs"
      using st x by (simp add: exchange_grants_def)
    then show ?thesis using Cons.IH [of l'] x tk by simp
  next
    case False
    then have "exchange_grants l (x # xs) = exchange_grants l' xs"
      using st by (simp add: exchange_grants_def)
    then show ?thesis
      using Cons.IH [of l'] False limiter_step_global [OF False st] by simp
  qed
qed

lemma global_slack_small:
  assumes "n \<le> 2 ^ 40" and "0 \<le> d" and "d \<le> 2 ^ 70"
  shows "of_int globalBurst + ns_rate (of_int globalPerSecond) * of_int d
     + of_nat n * take_slack (of_int globalBurst)
   \<le> 61 + of_int (globalPerSecond * d) / 1000000000"
proof -
  have n: "(of_nat n :: rat) \<le> 2 ^ 40"
  proof -
    have "(of_nat n :: rat) \<le> of_nat (2 ^ 40)" using assms(1) by (simp only: of_nat_le_iff)
    then show ?thesis by simp
  qed
  have d: "(of_int d :: rat) \<le> 2 ^ 70" "0 \<le> (of_int d :: rat)"
  proof -
    have "(of_int d :: rat) \<le> of_int (2 ^ 70)" using assms(3) by (simp only: of_int_le_iff)
    then show "(of_int d :: rat) \<le> 2 ^ 70" by simp
  qed (use assms(2) in simp)
  have r: "ns_rate 10 - 10 / 1000000000 \<le> 1 / 2 ^ 75"
    by (simp add: ns_rate_def ulp_def power4_eq_xxxx)
  have "(ns_rate 10 - 10 / 1000000000) * of_int d \<le> 1 / 2 ^ 75 * 2 ^ 70"
    using r d by (intro mult_mono) auto
  also have "\<dots> \<le> (1 / 2 :: rat)" by simp
  finally have a: "ns_rate 10 * of_int d \<le> 10 / 1000000000 * of_int d + 1 / 2"
    by (simp add: algebra_simps)
  have "of_nat n * take_slack 60 \<le> 2 ^ 40 * take_slack 60"
    using n by (intro mult_right_mono) (auto simp: take_slack_def ulp_def)
  also have "\<dots> \<le> 1 / 2" by (simp add: take_slack_def ulp_def)
  finally have b: "of_nat n * take_slack 60 \<le> 1 / 2" .
  show ?thesis using a b by (simp add: go_const)
qed

lemma decisions_op: "(x, d) \<in> set (decisions l ops) \<Longrightarrow> x \<in> set ops"
  by (induction ops arbitrary: l) (auto split: prod.splits)

text \<open>
  A trace of calls: the clock does not go back, and a sweep ranges over the map as it is then.
\<close>

fun limiter_trace :: "gotime \<Rightarrow> limiter \<Rightarrow> limiter_op list \<Rightarrow> bool" where
  "limiter_trace now l [] = True"
| "limiter_trace now l (x # xs) =
     (now \<le> op_time x \<and>
      (case x of SweepPeers t ord \<Rightarrow> visits ord (l_ip l) | _ \<Rightarrow> True) \<and>
      limiter_trace (op_time x) (snd (limiter_step x l)) xs)"

fun limiter_after :: "limiter \<Rightarrow> limiter_op list \<Rightarrow> limiter" where
  "limiter_after l [] = l"
| "limiter_after l (x # xs) = limiter_after (snd (limiter_step x l)) xs"

lemma limiter_trace_sorted: "limiter_trace now l ops \<Longrightarrow> sorted (now # map op_time ops)"
proof (induction ops arbitrary: now l)
  case Nil
  then show ?case by simp
next
  case (Cons x xs)
  then show ?case by fastforce
qed

lemma sorted_map_filter: "sorted (map f xs) \<Longrightarrow> sorted (map f (filter P xs))"
  by (induction xs) auto

text \<open>C2: However the calls of many connections interleave and however many source addresses
  they come from, the number of testable offers the daemon lets through in \<open>t1 - t0\<close>
  nanoseconds is at most the burst of 60 plus 10 a second, plus 1 for the rounding of the float
  arithmetic of up to \<open>2^40\<close> calls.\<close>

theorem guess_rate_bounded:
  assumes tr: "limiter_trace t0 newLimiter ops" and t0: "0 < t0"
    and t1: "\<forall>x \<in> set ops. op_time x \<le> t1" "t0 \<le> t1" "t1 - t0 \<le> 2 ^ 70"
    and n: "length ops \<le> 2 ^ 40"
  shows "of_nat (exchange_grants newLimiter ops)
     \<le> (61 :: rat) + of_int (globalPerSecond * (t1 - t0)) / 1000000000"
proof -
  define ts where "ts = map op_time (filter is_exchange ops)"
  have len: "length ts \<le> 2 ^ 40" using n by (simp add: ts_def le_trans [OF length_filter_le])
  have so: "sorted ts"
    using limiter_trace_sorted [OF tr] by (simp add: ts_def sorted_map_filter)
  have rng: "\<forall>t \<in> set ts. t0 \<le> t \<and> t \<le> t1"
    using limiter_trace_sorted [OF tr] t1 by (auto simp: ts_def)
  show ?thesis
  proof (cases ts)
    case Nil
    then show ?thesis using t1 by (simp add: exchange_grants_eq ts_def go_const)
  next
    case (Cons t ts')
    have l: "last (t # ts') - t \<le> t1 - t0" "0 \<le> last (t # ts') - t"
      using rng Cons so last_in_set [of "t # ts'"] by force+
    have pos: "0 < t" using rng t0 Cons by auto
    have eq: "exchange_grants newLimiter ops =
        grants (\<lambda>now b. bucket_take b now (of_int globalBurst) (of_int globalPerSecond))
          (t # ts') (l_global newLimiter)"
      by (simp only: exchange_grants_eq ts_def [symmetric] Cons)
    have "of_nat (exchange_grants newLimiter ops) \<le>
        of_int globalBurst + ns_rate (of_int globalPerSecond) * of_int (last (t # ts') - t)
        + of_nat (Suc (length ts')) * take_slack (of_int globalBurst)"
      unfolding eq using pos so Cons
      by (intro global_bucket.grants_fresh) (simp_all add: newLimiter_def zero_bucket_def)
    also have "\<dots> \<le> 61 + of_int (globalPerSecond * (last (t # ts') - t)) / 1000000000"
      using len Cons l t1 by (intro global_slack_small) auto
    also have "\<dots> \<le> 61 + of_int (globalPerSecond * (t1 - t0)) / 1000000000"
    proof -
      have "(of_int (globalPerSecond * (last (t # ts') - t)) :: rat)
          \<le> of_int (globalPerSecond * (t1 - t0))"
        using l by (simp only: of_int_le_iff) (simp add: go_const)
      then show ?thesis by simp
    qed
    finally show ?thesis .
  qed
qed

section \<open>The limiter's invariant\<close>

definition ip_ok :: "gotime \<Rightarrow> ipState \<Rightarrow> bool" where
  "ip_ok now s \<longleftrightarrow>
     bucket_good (of_int rateBurst) s \<and> 0 \<le> b_last s \<and> b_last s \<le> ip_lastSeen s
     \<and> ip_lastSeen s \<le> now \<and> length (ip_failures s) < blockAfter
     \<and> (\<forall>t \<in> set (ip_failures s). t \<le> now)"

definition limiter_ok :: "gotime \<Rightarrow> limiter \<Rightarrow> bool" where
  "limiter_ok now l \<longleftrightarrow>
     mwf (l_ip l) \<and> (\<forall>e \<in> set (l_ip l). ip_ok now (snd e))
     \<and> bucket_good (of_int globalBurst) (l_global l) \<and> 0 \<le> b_last (l_global l)
     \<and> b_last (l_global l) \<le> now"

lemma ip_ok_later: "ip_ok now s \<Longrightarrow> now \<le> now' \<Longrightarrow> ip_ok now' s"
  by (auto simp: ip_ok_def)

lemma limiter_ok_later: "limiter_ok now l \<Longrightarrow> now \<le> now' \<Longrightarrow> limiter_ok now' l"
  by (auto simp: limiter_ok_def ip_ok_later)

lemma limiter_ok_new: "0 \<le> now \<Longrightarrow> limiter_ok now newLimiter"
  by (simp add: limiter_ok_def newLimiter_def zero_bucket_def bucket_good_def go_const)

lemma limiter_ok_get: "limiter_ok now l \<Longrightarrow> mget (l_ip l) a = Some s \<Longrightarrow> ip_ok now s"
  by (auto simp: limiter_ok_def dest!: mget_Some_mem)

lemma bucket_take_good:
  assumes "bucket_good burst b" and "0 \<le> b_last b" and "b_last b \<le> now" and "0 < now"
    and "0 \<le> burst" "burst * ulp \<le> 1" "0 \<le> r" and "bucket_take b now burst r = (g, b')"
  shows "bucket_good burst b' \<and> b_last b' = now"
  using assms bucket_take_step [OF assms(8) refl _ _ assms(5-7)]
  by (auto simp: bucket_good_def)

lemma bucket_take_frame:
  "bucket_take s now burst r = (g, s') \<Longrightarrow>
   ip_lastSeen s' = ip_lastSeen s \<and> ip_failures s' = ip_failures s \<and> ip_blocked s' = ip_blocked s"
  by (auto simp: bucket_take_def Let_def split: if_splits)

lemma limiter_ok_mput:
  "limiter_ok now l \<Longrightarrow> ip_ok now s \<Longrightarrow> limiter_ok now (l\<lparr>l_ip := mput a s (l_ip l)\<rparr>)"
  using ball_mput [of "l_ip l" "\<lambda>e. ip_ok now (snd e)" a s] by (simp add: limiter_ok_def)

lemma allowPeer_ok:
  assumes ok: "limiter_ok t l" and t: "0 < now" "t \<le> now"
    and st: "allowPeer now a l = (d, l')"
  shows "limiter_ok now l'"
proof -
  define s where "s = (case mget (l_ip l) a of Some s \<Rightarrow> s | None \<Rightarrow> zero_ipState)\<lparr>ip_lastSeen := now\<rparr>"
  have seen: "ip_lastSeen s = now" by (simp add: s_def)
  have s: "ip_ok now s"
    using limiter_ok_get [OF limiter_ok_later [OF ok t(2)], of a] t
    by (auto simp: s_def ip_ok_def zero_ipState_def bucket_good_def go_const split: option.splits)
  obtain g s' where tk: "bucket_take s now (of_int rateBurst) peerRate = (g, s')"
    by (cases "bucket_take s now (of_int rateBurst) peerRate")
  have s': "ip_ok now s'"
    using bucket_take_good [OF _ _ _ t(1) _ _ _ tk] bucket_take_frame [OF tk] s seen
    by (auto simp: ip_ok_def go_const ulp_def peerRate_bounds)
  have "l' = l\<lparr>l_ip := mput a s (l_ip l)\<rparr> \<or> l' = l\<lparr>l_ip := mput a s' (l_ip l)\<rparr>"
    using st tk by (auto simp: allowPeer_def Let_def s_def split: if_splits)
  then show ?thesis
    using limiter_ok_mput [OF limiter_ok_later [OF ok t(2)]] s s' by blast
qed

lemma allowExchange_ok:
  assumes ok: "limiter_ok t l" and t: "0 < now" "t \<le> now"
    and st: "allowExchange now l = (d, l')"
  shows "limiter_ok now l'"
proof -
  obtain g where tk: "bucket_take (l_global l) now (of_int globalBurst) (of_int globalPerSecond)
      = (d, g)" and l': "l' = l\<lparr>l_global := g\<rparr>"
    using st by (auto simp: allowExchange_def split: prod.splits)
  have "limiter_ok now l" by (rule limiter_ok_later [OF ok t(2)])
  then show ?thesis
    using bucket_take_good [OF _ _ _ t(1) _ _ _ tk] l'
    by (auto simp: limiter_ok_def go_const ulp_def)
qed

lemma fail_ok:
  assumes ok: "limiter_ok t l" and t: "t \<le> now"
  shows "limiter_ok now (limiter_fail now a l)"
proof (cases "mget (l_ip l) a")
  case None
  then show ?thesis using limiter_ok_later [OF ok t] by (simp add: limiter_fail_def)
next
  case (Some s)
  have l: "limiter_ok now l" by (rule limiter_ok_later [OF ok t])
  have s: "ip_ok now s" by (rule limiter_ok_get [OF l Some])
  obtain s' where s': "limiter_fail now a l = l\<lparr>l_ip := mput a s' (l_ip l)\<rparr>" and "ip_ok now s'"
  proof
    let ?s = "s\<lparr>ip_failures := filter (\<lambda>t. time_Sub now t < blockWindow) (ip_failures s) @ [now]\<rparr>"
    let ?s' = "if length (ip_failures ?s) \<ge> blockAfter
      then ?s\<lparr>ip_blocked := time_Add now blockFor, ip_failures := []\<rparr> else ?s"
    show "limiter_fail now a l = l\<lparr>l_ip := mput a ?s' (l_ip l)\<rparr>"
      using Some by (simp add: limiter_fail_def Let_def)
    show "ip_ok now ?s'"
      using s by (auto simp: ip_ok_def bucket_good_def blockAfter_def)
  qed
  then show ?thesis using limiter_ok_mput [OF l] by simp
qed

lemma limiter_sweep_ok:
  assumes ok: "limiter_ok t l" and t: "t \<le> now" and v: "visits ord (l_ip l)"
  shows "limiter_ok now (limiter_sweep now ord l)"
proof -
  have "mwf (l_ip l)" using ok by (simp add: limiter_ok_def)
  then show ?thesis
    using limiter_ok_later [OF ok t] ip_sweep.sweep_filter [OF _ v, of now]
    by (auto simp: limiter_ok_def limiter_sweep_def mwf_filter)
qed

lemma limiter_step_ok:
  assumes "limiter_ok t l" and "0 < op_time x" and "t \<le> op_time x"
    and "case x of SweepPeers t ord \<Rightarrow> visits ord (l_ip l) | _ \<Rightarrow> True"
  shows "limiter_ok (op_time x) (snd (limiter_step x l))"
  using assms
  by (cases x) (auto simp: fail_ok limiter_sweep_ok
      intro: allowPeer_ok [OF _ _ _ prod.collapse [symmetric]]
        allowExchange_ok [OF _ _ _ prod.collapse [symmetric]])

text \<open>Every sequence of limiter calls keeps the limiter well formed: per-address and global
  tokens stay between 0 and their burst, an address has fewer than 50 failures on record, and no
  recorded instant lies in the future.\<close>

lemma limiter_invariant:
  assumes "limiter_trace t0 newLimiter ops" and "0 < t0"
  shows "limiter_ok (last (t0 # map op_time ops)) (limiter_after newLimiter ops)"
proof -
  have "limiter_ok (last (t # map op_time ops)) (limiter_after l ops)"
    if "limiter_trace t l ops" "limiter_ok t l" "0 < t" for t l
    using that
  proof (induction ops arbitrary: t l)
    case Nil
    then show ?case by simp
  next
    case (Cons x xs)
    then have "limiter_ok (op_time x) (snd (limiter_step x l))"
      by (intro limiter_step_ok) auto
    then show ?case using Cons.IH [of "op_time x"] Cons.prems by auto
  qed
  then show ?thesis using assms limiter_ok_new by auto
qed

section \<open>Blocking after failures\<close>

text \<open>\<open>blocked_until a B l\<close>: the address is on record as blocked at least until \<open>B\<close>.\<close>

definition blocked_until :: "string \<Rightarrow> gotime \<Rightarrow> limiter \<Rightarrow> bool" where
  "blocked_until a B l =
     (case mget (l_ip l) a of None \<Rightarrow> False | Some s \<Rightarrow> B \<le> ip_blocked s)"

lemma blocked_refuses:
  "blocked_until a B l \<Longrightarrow> now < B \<Longrightarrow> \<not> fst (allowPeer now a l)"
  by (auto simp: blocked_until_def allowPeer_def Let_def time_Before_def split: option.splits)

definition entry :: "string \<Rightarrow> limiter \<Rightarrow> ipState" where
  "entry a l = (case mget (l_ip l) a of Some s \<Rightarrow> s | None \<Rightarrow> zero_ipState)"

lemma allowPeer_own:
  "\<exists>s'. mget (l_ip (snd (allowPeer t a l))) a = Some s' \<and> ip_blocked s' = ip_blocked (entry a l)
    \<and> ip_failures s' = ip_failures (entry a l) \<and> ip_lastSeen s' = t"
proof -
  let ?s = "(entry a l)\<lparr>ip_lastSeen := t\<rparr>"
  obtain g s' where tk: "bucket_take ?s t (of_int rateBurst) peerRate = (g, s')"
    by (cases "bucket_take ?s t (of_int rateBurst) peerRate")
  show ?thesis
    using bucket_take_frame [OF tk] by (simp add: allowPeer_def Let_def entry_def [symmetric] tk)
qed

lemma allowPeer_other: "c \<noteq> a \<Longrightarrow> mget (l_ip (snd (allowPeer t c l))) a = mget (l_ip l) a"
  by (simp add: allowPeer_def Let_def split: prod.splits)

lemma blocked_step:
  assumes b: "blocked_until a B l" and x: "op_time x < B" "B \<le> op_time x + blockFor"
    and wf: "mwf (l_ip l)" and v: "case x of SweepPeers t ord \<Rightarrow> visits ord (l_ip l) | _ \<Rightarrow> True"
  shows "blocked_until a B (snd (limiter_step x l))"
proof (cases x)
  case (AllowPeer t c)
  then show ?thesis
    using b by (auto simp: blocked_until_def allowPeer_def Let_def bucket_take_frame
        split: option.splits prod.splits)
next
  case (AllowExchange t)
  then show ?thesis using b by (auto simp: blocked_until_def allowExchange_def split: prod.splits)
next
  case (FailPeer t c)
  then show ?thesis
    using b x by (auto simp: blocked_until_def limiter_fail_def Let_def time_Add_def split: option.splits)
next
  case (SweepPeers t ord)
  then show ?thesis
    using b x v wf ip_sweep.sweep_keeps_live [of "l_ip l" ord a _ t]
    by (fastforce simp: blocked_until_def limiter_sweep_def ip_stale_def time_After_def split: option.splits)
qed

lemma limiter_step_wf:
  assumes "mwf (l_ip l)" and "case x of SweepPeers t ord \<Rightarrow> visits ord (l_ip l) | _ \<Rightarrow> True"
  shows "mwf (l_ip (snd (limiter_step x l)))"
  using assms
  by (cases x) (auto simp: allowPeer_def allowExchange_def limiter_fail_def limiter_sweep_def
      Let_def ip_sweep.sweep_wf split: option.splits prod.splits)

lemma blocked_trace:
  assumes "blocked_until a B l" and "mwf (l_ip l)" and "limiter_trace t0 l ops"
    and "B \<le> t0 + blockFor"
  shows "\<forall>(x, d) \<in> set (decisions l ops). \<forall>t. x = AllowPeer t a \<and> t < B \<longrightarrow> \<not> d"
  using assms
proof (induction ops arbitrary: l t0)
  case Nil
  then show ?case by simp
next
  case (Cons x xs)
  obtain d l' where st: "limiter_step x l = (d, l')" by (cases "limiter_step x l")
  from Cons.prems have v: "case x of SweepPeers t ord \<Rightarrow> visits ord (l_ip l) | _ \<Rightarrow> True"
    and tx: "t0 \<le> op_time x" and rest: "limiter_trace (op_time x) l' xs"
    using st by auto
  have wf': "mwf (l_ip l')" using limiter_step_wf [OF Cons.prems(2) v] st by simp
  have now: "\<not> d" if "x = AllowPeer t a" "t < B" for t
    using blocked_refuses [OF Cons.prems(1) that(2)] st that(1) by simp
  show ?case
  proof (cases "op_time x < B")
    case True
    have "blocked_until a B l'"
      using blocked_step [OF Cons.prems(1) True _ Cons.prems(2) v] tx Cons.prems(4) st by simp
    then show ?thesis using Cons.IH [OF _ wf' rest] tx Cons.prems(4) now st by auto
  next
    case False
    have "op_time y < B \<longrightarrow> y \<notin> set xs" for y
      using limiter_trace_sorted [OF rest] False by fastforce
    then show ?thesis using now st by (fastforce dest: decisions_op)
  qed
qed

text \<open>Until when an address is blocked, and its failures, on record and in a history.\<close>

definition blocked_of :: "string \<Rightarrow> limiter \<Rightarrow> gotime" where
  "blocked_of a l = (case mget (l_ip l) a of None \<Rightarrow> 0 | Some s \<Rightarrow> ip_blocked s)"

definition recent_failures :: "gotime \<Rightarrow> string \<Rightarrow> limiter \<Rightarrow> gotime list" where
  "recent_failures now a l =
     (case mget (l_ip l) a of None \<Rightarrow> []
      | Some s \<Rightarrow> filter (\<lambda>u. time_Sub now u < blockWindow) (ip_failures s))"

fun is_fail :: "string \<Rightarrow> limiter_op \<Rightarrow> bool" where
  "is_fail a (FailPeer t c) = (c = a)"
| "is_fail a _ = False"

text \<open>While the window runs the address stays on record, blocked as before, with exactly the failures
  \<open>ts\<close> since the window began.\<close>

definition counting :: "string \<Rightarrow> gotime \<Rightarrow> gotime \<Rightarrow> gotime list \<Rightarrow> limiter \<Rightarrow> bool" where
  "counting a t1 B ts l \<longleftrightarrow>
     (\<exists>s old. mget (l_ip l) a = Some s \<and> t1 \<le> ip_lastSeen s \<and> ip_blocked s = B \<and> ip_failures s = old @ ts
        \<and> (\<forall>u \<in> set old. blockWindow \<le> time_Sub t1 u) \<and> (\<forall>u \<in> set ts. t1 \<le> u))"

lemma in_window:
  assumes "t1 \<le> t" "t < t1 + blockWindow" "\<forall>u \<in> set old. blockWindow \<le> time_Sub t1 u" "\<forall>u \<in> set ts. t1 \<le> u"
  shows "filter (\<lambda>u. time_Sub t u < blockWindow) (old @ ts) = ts"
proof -
  have "time_Sub t u < blockWindow" if "t1 \<le> u" for u
    using that assms(1,2) by (auto simp: time_Sub_def go_const)
  moreover have "\<not> time_Sub t u < blockWindow" if "blockWindow \<le> time_Sub t1 u" for u
    using that time_Sub_mono [OF assms(1), of u] by simp
  ultimately show ?thesis using assms(3,4) by (auto simp: filter_empty_conv filter_id_conv)
qed

lemma counting_fail:
  assumes c: "counting a t1 B ts l" and t: "t1 \<le> t" "t < t1 + blockWindow"
  shows "if Suc (length ts) < blockAfter then counting a t1 B (ts @ [t]) (limiter_fail t a l)
    else blocked_of a (limiter_fail t a l) = t + blockFor \<and> blocked_until a (t + blockFor) (limiter_fail t a l)"
proof -
  obtain s old where s: "mget (l_ip l) a = Some s" "t1 \<le> ip_lastSeen s" "ip_blocked s = B" "ip_failures s = old @ ts"
    "\<forall>u \<in> set old. blockWindow \<le> time_Sub t1 u" "\<forall>u \<in> set ts. t1 \<le> u"
    using c by (auto simp: counting_def)
  note w = in_window [OF t s(5,6)]
  show ?thesis
  proof (cases "Suc (length ts) < blockAfter")
    case True
    then have "mget (l_ip (limiter_fail t a l)) a = Some (s\<lparr>ip_failures := ts @ [t]\<rparr>)"
      using s(1,4) w by (simp add: limiter_fail_def Let_def)
    then show ?thesis using True s t
      by (auto simp: counting_def intro!: exI [of _ "s\<lparr>ip_failures := ts @ [t]\<rparr>"] exI [of _ "[]"])
  next
    case False
    then have "mget (l_ip (limiter_fail t a l)) a = Some (s\<lparr>ip_blocked := t + blockFor, ip_failures := []\<rparr>)"
      using s(1,4) w by (simp add: limiter_fail_def Let_def time_Add_def)
    then show ?thesis using False by (simp add: blocked_of_def blocked_until_def)
  qed
qed

lemma counting_step:
  assumes c: "counting a t1 B ts l" and x: "\<not> is_fail a x" "t1 \<le> op_time x" "op_time x < t1 + blockWindow"
    and wf: "mwf (l_ip l)" and v: "case x of SweepPeers t ord \<Rightarrow> visits ord (l_ip l) | _ \<Rightarrow> True"
  shows "counting a t1 B ts (snd (limiter_step x l))"
proof (cases x)
  case (AllowPeer t c)
  obtain s where s: "mget (l_ip l) a = Some s" using c by (auto simp: counting_def)
  obtain s' where "mget (l_ip (snd (allowPeer t c l))) a = Some s'" "ip_blocked s' = ip_blocked s"
    "ip_failures s' = ip_failures s" "ip_lastSeen s' = ip_lastSeen s \<or> ip_lastSeen s' = t"
    using s allowPeer_own [of t a l] by (cases "c = a") (auto simp: allowPeer_other entry_def)
  then show ?thesis using c s x(2) AllowPeer by (auto simp: counting_def)
next
  case (AllowExchange t)
  then show ?thesis using c by (simp add: counting_def allowExchange_def split: prod.splits)
next
  case (FailPeer t c)
  then show ?thesis
    using c x(1) by (auto simp: counting_def limiter_fail_def Let_def split: option.splits)
next
  case (SweepPeers t ord)
  obtain s where s: "mget (l_ip l) a = Some s" "t1 \<le> ip_lastSeen s" using c by (auto simp: counting_def)
  have "\<not> ip_stale t s"
    using s(2) x(2,3) SweepPeers by (auto simp: ip_stale_def time_Sub_def go_const)
  then have "mget (l_ip (limiter_sweep t ord l)) a = Some s"
    using SweepPeers v wf s(1) ip_sweep.sweep_keeps_live by (fastforce simp: limiter_sweep_def)
  then show ?thesis using c s SweepPeers by (auto simp: counting_def)
qed

lemma counting_trace:
  assumes "counting a t1 B ts l" and "mwf (l_ip l)" and "limiter_trace t0 l ops" and "t1 \<le> t0"
    and "\<forall>x \<in> set ops. op_time x < t1 + blockWindow"
    and "length ts + length (filter (is_fail a) ops) < blockAfter"
  shows "counting a t1 B (ts @ map op_time (filter (is_fail a) ops)) (limiter_after l ops)
    \<and> mwf (l_ip (limiter_after l ops))"
  using assms
proof (induction ops arbitrary: l t0 ts)
  case Nil
  then show ?case by simp
next
  case (Cons x xs)
  let ?l = "snd (limiter_step x l)"
  from Cons.prems have v: "case x of SweepPeers t ord \<Rightarrow> visits ord (l_ip l) | _ \<Rightarrow> True"
    and tx: "t1 \<le> op_time x" "op_time x < t1 + blockWindow" and rest: "limiter_trace (op_time x) ?l xs"
    by auto
  have wf': "mwf (l_ip ?l)" by (rule limiter_step_wf [OF Cons.prems(2) v])
  show ?case
  proof (cases "is_fail a x")
    case True
    then obtain t where x: "x = FailPeer t a" by (cases x) auto
    have "counting a t1 B (ts @ [t]) ?l"
      using counting_fail [OF Cons.prems(1), of t] tx Cons.prems(6) by (simp add: x)
    then show ?thesis using Cons.IH [OF _ wf' rest tx(1), of "ts @ [t]"] Cons.prems(5,6) x by simp
  next
    case False
    have "counting a t1 B ts ?l" by (rule counting_step [OF Cons.prems(1) False tx Cons.prems(2) v])
    then show ?thesis using Cons.IH [OF _ wf' rest tx(1), of ts] Cons.prems(5,6) False by simp
  qed
qed

lemma limiter_after_append: "limiter_after l (xs @ ys) = limiter_after (limiter_after l xs) ys"
  by (induction xs arbitrary: l) auto

lemma limiter_trace_append:
  "limiter_trace t l (xs @ ys) \<longleftrightarrow>
     limiter_trace t l xs \<and> limiter_trace (last (t # map op_time xs)) (limiter_after l xs) ys"
  by (induction xs arbitrary: t l) auto

lemma counting_start:
  assumes "recent_failures t1 a l = []"
  shows "counting a t1 (blocked_of a l) [] (snd (allowPeer t1 a l))"
proof -
  have "ip_blocked (entry a l) = blocked_of a l"
    "\<forall>u \<in> set (ip_failures (entry a l)). blockWindow \<le> time_Sub t1 u"
    using assms by (auto simp: entry_def blocked_of_def recent_failures_def zero_ipState_def
        filter_empty_conv not_less split: option.splits)
  then show ?thesis using allowPeer_own [of t1 a l] by (auto simp: counting_def)
qed

text \<open>C12: Fifty failed confirmations within ten minutes block an address for an hour, and fewer do not.
  Let an address without recent failures connect at \<open>t1\<close>, and let its fiftieth failure since
  then come at \<open>t2\<close>, less than ten minutes later, whatever else the limiter is called with in
  between: further attempts of the address, other addresses, offers, sweeps. Until that failure it is
  blocked no longer than before; then it is blocked until an hour after the fiftieth failure, and in
  every continuation, sweeps included, each of its attempts in that hour is refused.\<close>

theorem repeated_failures_block:
  assumes wf: "mwf (l_ip l)" and none: "recent_failures t1 a l = []"
    and tr: "limiter_trace t0 l (AllowPeer t1 a # win @ FailPeer t2 a # post)"
    and n: "Suc (length (filter (is_fail a) win)) = blockAfter" and t2: "t2 < t1 + blockWindow"
    and l1: "l1 = limiter_after l (AllowPeer t1 a # win)" and l2: "l2 = limiter_fail t2 a l1"
  shows "blocked_of a l1 = blocked_of a l \<and> blocked_of a l2 = t2 + blockFor
    \<and> (\<forall>(x, d) \<in> set (decisions l2 post). \<forall>t. x = AllowPeer t a \<and> t < t2 + blockFor \<longrightarrow> \<not> d)"
proof -
  let ?l = "snd (allowPeer t1 a l)"
  have c: "counting a t1 (blocked_of a l) [] ?l" by (rule counting_start [OF none])
  have wf1: "mwf (l_ip ?l)" using limiter_step_wf [OF wf, of "AllowPeer t1 a"] by simp
  have trw: "limiter_trace t1 ?l win" and trp: "limiter_trace t2 l2 post"
    and le: "\<forall>x \<in> set win. op_time x \<le> t2" "t1 \<le> t2"
  proof -
    have all: "limiter_trace t1 ?l (win @ FailPeer t2 a # post)" using tr by simp
    then show "limiter_trace t1 ?l win" "limiter_trace t2 l2 post"
      by (simp_all add: limiter_trace_append l1 l2)
    show "\<forall>x \<in> set win. op_time x \<le> t2" "t1 \<le> t2"
      using limiter_trace_sorted [OF all] by (auto simp: sorted_append)
  qed
  have k: "counting a t1 (blocked_of a l) (map op_time (filter (is_fail a) win)) l1 \<and> mwf (l_ip l1)"
    using counting_trace [OF c wf1 trw order_refl] le t2 n by (fastforce simp: l1)
  have b: "blocked_of a l2 = t2 + blockFor \<and> blocked_until a (t2 + blockFor) l2"
    using counting_fail [OF conjunct1 [OF k] le(2) t2] n by (simp add: l2)
  have "blocked_of a l1 = blocked_of a l" using k by (auto simp: counting_def blocked_of_def)
  moreover have "mwf (l_ip l2)" using limiter_step_wf [of l1 "FailPeer t2 a"] k by (simp add: l2)
  ultimately show ?thesis using blocked_trace [OF conjunct2 [OF b] _ trp] b by simp
qed

theorem repeated_failures_block_witness:
  "let win = replicate 49 (FailPeer 2 ''10.0.0.1'') @ [SweepPeers 3 (l_ip (limiter_after newLimiter
         (AllowPeer 1 ''10.0.0.1'' # replicate 49 (FailPeer 2 ''10.0.0.1'')))) ];
       l2 = limiter_fail Minute ''10.0.0.1'' (limiter_after newLimiter (AllowPeer 1 ''10.0.0.1'' # win))
   in \<not> fst (allowPeer Hour ''10.0.0.1'' l2)"
proof -
  let ?a = "''10.0.0.1''"
  let ?f = "replicate 49 (FailPeer 2 ?a)"
  let ?win = "?f @ [SweepPeers 3 (l_ip (limiter_after newLimiter (AllowPeer 1 ?a # ?f)))]"
  have fails: "t \<le> 2 \<Longrightarrow> limiter_trace t l (replicate n (FailPeer 2 ?a))" for t l n
    by (induction n arbitrary: t l) auto
  have "limiter_trace 0 newLimiter (AllowPeer 1 ?a # ?f @ [SweepPeers 3 (l_ip (limiter_after newLimiter (AllowPeer 1 ?a # ?f)))] @ [FailPeer Minute ?a, AllowPeer Hour ?a])"
    using fails [of 1 _ 49] by (simp add: limiter_trace_append last_map go_const visits_def)
  then have tr: "limiter_trace 0 newLimiter (AllowPeer 1 ?a # ?win @ FailPeer Minute ?a # [AllowPeer Hour ?a])"
    by simp
  have n: "Suc (length (filter (is_fail ?a) ?win)) = blockAfter" by (simp add: go_const)
  have "Minute < 1 + blockWindow" by (simp add: go_const)
  from repeated_failures_block [OF _ _ tr n this refl refl] show ?thesis
    by (auto simp: Let_def newLimiter_def recent_failures_def go_const case_prod_unfold)
qed

section \<open>Sweeping is invisible to admission\<close>

lemma full_refill:
  assumes t: "0 \<le> t" and d: "600 * Second \<le> d"
  shows "min (of_int rateBurst) (fl (t + fl (dur_Seconds d * peerRate))) = of_int rateBurst"
proof -
  have u: "0 \<le> 1 - ulp" using ulp_bounds by simp
  have sec: "600 * (1 - ulp) ^ 2 \<le> dur_Seconds d"
  proof -
    have "600 \<le> d div Second" using d by (simp add: go_const)
    then have "(of_int 600 :: rat) \<le> of_int (d div Second)" by (simp only: of_int_le_iff)
    then have "600 * (1 - ulp) ^ 2 \<le> of_int (d div Second) * (1 - ulp) ^ 2"
      by (intro mult_right_mono) auto
    also have "\<dots> \<le> dur_Seconds d" using d by (intro dur_Seconds_ge) (simp add: go_const)
    finally show ?thesis .
  qed
  have p: "600 * (1 - ulp) ^ 2 * (1 / 3 * (1 - ulp)) \<le> dur_Seconds d * peerRate"
    using sec peerRate_bounds u dur_Seconds_nonneg [of d] d
    by (intro mult_mono) (auto simp: go_const)
  have p0: "0 \<le> dur_Seconds d * peerRate" using dur_Seconds_nonneg [of d] peerRate_bounds(2) d
    by (intro mult_nonneg_nonneg) (simp_all add: go_const)
  have "200 * (1 - ulp) ^ 4 = 600 * (1 - ulp) ^ 2 * (1 / 3 * (1 - ulp)) * (1 - ulp)"
    by (simp add: power2_eq_square power4_eq_xxxx)
  also have "\<dots> \<le> dur_Seconds d * peerRate * (1 - ulp)" using p u by (rule mult_right_mono)
  also have "\<dots> \<le> fl (dur_Seconds d * peerRate)" by (rule fl_ge [OF p0])
  finally have i: "200 * (1 - ulp) ^ 4 \<le> t + fl (dur_Seconds d * peerRate)" using t by simp
  have "(20 :: rat) \<le> 200 * (1 - ulp) ^ 4 * (1 - ulp)" by (simp add: ulp_def power4_eq_xxxx)
  also have "\<dots> \<le> (t + fl (dur_Seconds d * peerRate)) * (1 - ulp)" using i u by (rule mult_right_mono)
  also have "\<dots> \<le> fl (t + fl (dur_Seconds d * peerRate))"
    using t fl_nonneg [OF p0] by (intro fl_ge) simp
  finally show ?thesis by (simp add: go_const min_def)
qed

lemma bucket_take_stale:
  assumes good: "0 \<le> b_tokens s" and idle: "b_last s = 0 \<or> blockWindow \<le> time_Sub now (b_last s)"
    and z: "b_last z = 0"
  shows "fst (bucket_take s now (of_int rateBurst) peerRate) =
           fst (bucket_take z now (of_int rateBurst) peerRate) \<and>
         bucket.truncate (snd (bucket_take s now (of_int rateBurst) peerRate)) =
           bucket.truncate (snd (bucket_take z now (of_int rateBurst) peerRate))"
proof -
  have fresh: "min (of_int rateBurst) (fl (of_int rateBurst)) = (of_int rateBurst :: rat)"
    using fl_int [of rateBurst] by (simp add: go_const)
  have full: "b_last s \<noteq> 0 \<Longrightarrow> min (of_int rateBurst)
      (fl (b_tokens s + fl (dur_Seconds (time_Sub now (b_last s)) * peerRate))) = of_int rateBurst"
    using full_refill [OF good] idle by (simp add: go_const)
  have z0: "time_Sub now now = 0" by (simp add: time_Sub_def go_const)
  show ?thesis
    using z fresh full
    by (cases "b_last s = 0")
      (simp_all add: bucket_take_def Let_def time_IsZero_def z0 bucket.truncate_def)
qed

text \<open>Two entries are alike when no later call can tell them apart: the same bucket, the same
  failures that still count, and both blocks over unless they are the same.\<close>

definition ip_alike :: "gotime \<Rightarrow> ipState \<Rightarrow> ipState \<Rightarrow> bool" where
  "ip_alike now s s' \<longleftrightarrow>
     bucket.truncate s = bucket.truncate s' \<and> ip_lastSeen s = ip_lastSeen s'
     \<and> filter (\<lambda>u. time_Sub now u < blockWindow) (ip_failures s)
         = filter (\<lambda>u. time_Sub now u < blockWindow) (ip_failures s')
     \<and> (ip_blocked s = ip_blocked s' \<or> ip_blocked s < now \<and> ip_blocked s' < now)"

text \<open>An entry that is as good as none: idle, not blocked, its bucket full again, and no failure that
  still counts.\<close>

definition spent :: "gotime \<Rightarrow> ipState \<Rightarrow> bool" where
  "spent now s \<longleftrightarrow>
     ip_stale now s \<and> 0 \<le> b_tokens s \<and> b_last s \<le> ip_lastSeen s
     \<and> (\<forall>u \<in> set (ip_failures s). blockWindow \<le> time_Sub now u)"

fun entries_alike :: "bool \<Rightarrow> gotime \<Rightarrow> ipState option \<Rightarrow> ipState option \<Rightarrow> bool" where
  "entries_alike k now None None = True"
| "entries_alike k now (Some s) (Some s') = ip_alike now s s'"
| "entries_alike k now (Some s) None = (\<not> k \<and> spent now s)"
| "entries_alike k now None (Some s') = False"

definition limiters_alike :: "string set \<Rightarrow> gotime \<Rightarrow> limiter \<Rightarrow> limiter \<Rightarrow> bool" where
  "limiters_alike A now l l' \<longleftrightarrow>
     mwf (l_ip l) \<and> mwf (l_ip l') \<and> l_global l = l_global l'
     \<and> (\<forall>a. entries_alike (a \<in> A) now (mget (l_ip l) a) (mget (l_ip l') a))"

lemma window_later:
  assumes "now \<le> now'" and "filter (\<lambda>u. time_Sub now u < w) xs = filter (\<lambda>u. time_Sub now u < w) ys"
  shows "filter (\<lambda>u. time_Sub now' u < w) xs = filter (\<lambda>u. time_Sub now' u < w) ys"
proof -
  have sub: "filter (\<lambda>u. time_Sub now' u < w) zs = filter (\<lambda>u. time_Sub now' u < w) (filter (\<lambda>u. time_Sub now u < w) zs)" for zs
    using time_Sub_mono [OF assms(1)] by (auto intro!: filter_cong simp: conj_commute intro: le_less_trans)
  show ?thesis unfolding sub [of xs] sub [of ys] assms(2) ..
qed

lemma ip_alike_later: "ip_alike now s s' \<Longrightarrow> now \<le> now' \<Longrightarrow> ip_alike now' s s'"
  using window_later [of now now' blockWindow "ip_failures s" "ip_failures s'"] by (auto simp: ip_alike_def)

lemma spent_later:
  assumes "spent now s" and "now \<le> now'"
  shows "spent now' s"
proof -
  have "blockWindow \<le> time_Sub now' u" if "u \<in> set (ip_failures s)" for u
    using assms(1) that time_Sub_mono [OF assms(2), of u] order_trans by (auto simp: spent_def)
  then show ?thesis using assms ip_sweep.stale_mono by (auto simp: spent_def)
qed

lemma entries_alike_later: "entries_alike k now x y \<Longrightarrow> now \<le> now' \<Longrightarrow> entries_alike k now' x y"
  by (cases "(k, now, x, y)" rule: entries_alike.cases) (auto intro: ip_alike_later spent_later)

lemma limiters_alike_later: "limiters_alike A now l l' \<Longrightarrow> now \<le> now' \<Longrightarrow> limiters_alike A now' l l'"
  unfolding limiters_alike_def using entries_alike_later by blast

lemma limiters_alike_put:
  assumes "limiters_alike A now l l'" and "ip_alike now s s'"
  shows "limiters_alike (insert a A) now (l\<lparr>l_ip := mput a s (l_ip l)\<rparr>) (l'\<lparr>l_ip := mput a s' (l_ip l')\<rparr>)"
  using assms by (simp add: limiters_alike_def)

lemma bucket_take_truncate:
  assumes "bucket.truncate s = bucket.truncate (z :: 'a bucket_scheme)"
  shows "fst (bucket_take s now burst r) = fst (bucket_take z now burst r)
    \<and> bucket.truncate (snd (bucket_take s now burst r)) = bucket.truncate (snd (bucket_take z now burst r))"
  using assms by (simp add: bucket_take_def Let_def bucket.truncate_def)

text \<open>An attempt of an address is answered alike and leaves alike entries.\<close>

lemma alike_allow:
  assumes "ip_alike now s s' \<or> spent now s \<and> s' = zero_ipState"
    and "s1 = s\<lparr>ip_lastSeen := now\<rparr>" and "s1' = s'\<lparr>ip_lastSeen := now\<rparr>" and "0 < now"
  shows "(time_Before now (ip_blocked s1) \<longleftrightarrow> time_Before now (ip_blocked s1'))
    \<and> (\<not> time_Before now (ip_blocked s1) \<longrightarrow>
        fst (bucket_take s1 now (of_int rateBurst) peerRate) = fst (bucket_take s1' now (of_int rateBurst) peerRate)
        \<and> ip_alike now (snd (bucket_take s1 now (of_int rateBurst) peerRate))
             (snd (bucket_take s1' now (of_int rateBurst) peerRate)))
    \<and> (time_Before now (ip_blocked s1) \<longrightarrow> ip_alike now s1 s1')"
proof -
  let ?t = "\<lambda>s. bucket_take s now (of_int rateBurst) peerRate"
  have frame: "ip_lastSeen (snd (?t s)) = ip_lastSeen s" "ip_failures (snd (?t s)) = ip_failures s"
    "ip_blocked (snd (?t s)) = ip_blocked s" for s :: ipState
    using bucket_take_frame [of s now _ _ _ "snd (?t s)"] by (metis prod.collapse)+
  show ?thesis
  proof (cases "ip_alike now s s'")
    case True
    then have "bucket.truncate s1 = bucket.truncate s1'"
      using assms(2,3) by (simp add: ip_alike_def bucket.truncate_def)
    then show ?thesis
      using True assms(2,3) bucket_take_truncate [of s1 s1' now "of_int rateBurst" peerRate]
      by (auto simp: ip_alike_def frame time_Before_def)
  next
    case False
    then have sp: "spent now s" and z: "s' = zero_ipState" using assms(1) by auto
    have "blockWindow \<le> time_Sub now (b_last s1)"
      using sp assms(2) by (auto simp: spent_def ip_stale_def time_Sub_def go_const)
    then have "fst (?t s1) = fst (?t s1') \<and> bucket.truncate (snd (?t s1)) = bucket.truncate (snd (?t s1'))"
      using sp assms(2,3) z by (intro bucket_take_stale) (auto simp: spent_def zero_ipState_def)
    then show ?thesis
      using sp assms z by (auto simp: ip_alike_def frame spent_def ip_stale_def time_After_def time_Before_def
          zero_ipState_def filter_empty_conv not_less)
  qed
qed

lemma alike_allowPeer:
  assumes "limiters_alike A now l l'" and "0 < now"
  shows "fst (allowPeer now a l) = fst (allowPeer now a l')
    \<and> limiters_alike (insert a A) now (snd (allowPeer now a l)) (snd (allowPeer now a l'))"
proof -
  let ?s1 = "(entry a l)\<lparr>ip_lastSeen := now\<rparr>" and ?s1' = "(entry a l')\<lparr>ip_lastSeen := now\<rparr>"
  have "ip_alike now (entry a l) (entry a l') \<or> spent now (entry a l) \<and> entry a l' = zero_ipState"
  proof -
    have "entries_alike (a \<in> A) now (mget (l_ip l) a) (mget (l_ip l') a)"
      using assms(1) by (simp add: limiters_alike_def)
    then show ?thesis
      by (cases "mget (l_ip l) a"; cases "mget (l_ip l') a") (simp_all add: entry_def ip_alike_def)
  qed
  note al = alike_allow [OF this refl refl assms(2)]
  have ap: "allowPeer now a m = (if time_Before now (ip_blocked (entry a m)) then (False, m\<lparr>l_ip := mput a ((entry a m)\<lparr>ip_lastSeen := now\<rparr>) (l_ip m)\<rparr>)
      else let r = bucket_take ((entry a m)\<lparr>ip_lastSeen := now\<rparr>) now (of_int rateBurst) peerRate
           in (fst r, m\<lparr>l_ip := mput a (snd r) (l_ip m)\<rparr>))" for m
    by (simp add: allowPeer_def Let_def entry_def case_prod_unfold)
  show ?thesis
    unfolding ap Let_def using al limiters_alike_put [OF assms(1)] by (auto simp del: fun_upd_apply)
qed

lemma alike_fail:
  assumes "limiters_alike A now l l'" and "a \<in> A"
  shows "limiters_alike A now (limiter_fail now a l) (limiter_fail now a l')"
proof -
  have e: "entries_alike True now (mget (l_ip l) a) (mget (l_ip l') a)"
    using assms by (auto simp: limiters_alike_def dest: spec [of _ a])
  show ?thesis
  proof (cases "mget (l_ip l) a")
    case None
    moreover have "mget (l_ip l') a = None" using e None by (cases "mget (l_ip l') a") simp_all
    ultimately show ?thesis using assms(1) by (simp add: limiter_fail_def)
  next
    case (Some s)
    then obtain s' where s': "mget (l_ip l') a = Some s'" "ip_alike now s s'"
      using e by (cases "mget (l_ip l') a") simp_all
    let ?f = "\<lambda>s. let recent = filter (\<lambda>u. time_Sub now u < blockWindow) (ip_failures s) @ [now]; s = s\<lparr>ip_failures := recent\<rparr>
      in if blockAfter \<le> length (ip_failures s) then s\<lparr>ip_blocked := time_Add now blockFor, ip_failures := []\<rparr> else s"
    have "ip_alike now (?f s) (?f s')"
      using s'(2) by (auto simp: ip_alike_def Let_def bucket.truncate_def)
    from limiters_alike_put [OF assms(1) this, of a] show ?thesis
      using Some s'(1) assms(2) by (simp add: limiter_fail_def Let_def insert_absorb)
  qed
qed

lemma alike_stale: "ip_alike now s s' \<Longrightarrow> ip_stale now s = ip_stale now s'"
  by (auto simp: ip_alike_def ip_stale_def time_After_def)

lemma alike_sweep:
  assumes al: "limiters_alike A now l l'" and v: "visits ord (l_ip l)" "visits ord' (l_ip l')"
  shows "limiters_alike A now (limiter_sweep now ord l) (limiter_sweep now ord' l')"
proof -
  have wf: "mwf (l_ip l)" "mwf (l_ip l')" using al by (simp_all add: limiters_alike_def)
  note get = ip_sweep.sweep_get [OF wf(1) v(1)] ip_sweep.sweep_get [OF wf(2) v(2)]
  have "entries_alike k now (case x of None \<Rightarrow> None | Some s \<Rightarrow> if ip_stale now s then None else Some s)
      (case y of None \<Rightarrow> None | Some s \<Rightarrow> if ip_stale now s then None else Some s)"
    if "entries_alike k now x y" for k x y
    using that alike_stale by (cases "(k, now, x, y)" rule: entries_alike.cases) (auto simp: spent_def)
  then show ?thesis
    using al ip_sweep.sweep_wf [OF wf(1) v(1)] ip_sweep.sweep_wf [OF wf(2) v(2)]
    by (simp add: limiters_alike_def limiter_sweep_def get)
qed

text \<open>The same calls on two limiters: a sweep goes through each map in an order of its own. A failure
  is only counted for an address that connected before (\<open>A\<close>).\<close>

definition same_call :: "limiter_op \<Rightarrow> limiter_op \<Rightarrow> bool" where
  "same_call x x' \<longleftrightarrow> x = x' \<or> (\<exists>t ord ord'. x = SweepPeers t ord \<and> x' = SweepPeers t ord')"

fun fails_known :: "string set \<Rightarrow> limiter_op list \<Rightarrow> bool" where
  "fails_known A [] = True"
| "fails_known A (x # xs) =
     (case x of AllowPeer t a \<Rightarrow> fails_known (insert a A) xs
      | FailPeer t a \<Rightarrow> a \<in> A \<and> fails_known A xs
      | _ \<Rightarrow> fails_known A xs)"

lemma alike_decisions:
  assumes "limiters_alike A now l l'" and "0 < now" and "list_all2 same_call ops ops'"
    and "limiter_trace now l ops" and "limiter_trace now l' ops'" and "fails_known A ops"
  shows "map snd (decisions l ops) = map snd (decisions l' ops')"
  using assms(3,1,2,4-)
proof (induction arbitrary: A now l l' rule: list_all2_induct)
  case Nil
  then show ?case by simp
next
  case (Cons x xs x' xs')
  let ?A = "case x of AllowPeer t a \<Rightarrow> insert a A | _ \<Rightarrow> A"
  have t: "op_time x' = op_time x" "now \<le> op_time x" using Cons.hyps(1) Cons.prems by (auto simp: same_call_def)
  then have al: "limiters_alike A (op_time x) l l'" and pos: "0 < op_time x"
    using limiters_alike_later [OF Cons.prems(1)] Cons.prems(2) by simp_all
  have step: "fst (limiter_step x l) = fst (limiter_step x' l')
      \<and> limiters_alike ?A (op_time x) (snd (limiter_step x l)) (snd (limiter_step x' l'))"
  proof (cases x)
    case (AllowPeer u a)
    then show ?thesis using Cons.hyps(1) alike_allowPeer [OF al pos] by (auto simp: same_call_def)
  next
    case (AllowExchange u)
    then have x': "x' = AllowExchange u" using Cons.hyps(1) by (simp add: same_call_def)
    have "l_global l = l_global l'" using al by (simp add: limiters_alike_def)
    then show ?thesis using AllowExchange x' al
      by (simp add: allowExchange_def limiters_alike_def split: prod.splits)
  next
    case (FailPeer u a)
    then show ?thesis using Cons.hyps(1) Cons.prems(5) alike_fail [OF al] by (auto simp: same_call_def)
  next
    case (SweepPeers u ord)
    then show ?thesis using Cons.hyps(1) Cons.prems(3,4) alike_sweep [OF al] by (auto simp: same_call_def)
  qed
  have "map snd (decisions (snd (limiter_step x l)) xs) = map snd (decisions (snd (limiter_step x' l')) xs')"
    using step pos Cons.prems(3-5) t(1) by (intro Cons.IH [of ?A "op_time x"]) (auto split: limiter_op.splits)
  then show ?case using step by (simp add: case_prod_unfold)
qed

lemma swept_alike:
  assumes ok: "limiter_ok t l" and v: "visits ord (l_ip l)"
    and old: "\<forall>(a, s) \<in> set (l_ip l). ip_stale t s \<longrightarrow> (\<forall>u \<in> set (ip_failures s). blockWindow \<le> time_Sub t u)"
  shows "limiters_alike (fst ` set (l_ip (limiter_sweep t ord l))) t l (limiter_sweep t ord l)"
proof -
  have wf: "mwf (l_ip l)" using ok by (simp add: limiter_ok_def)
  note get = ip_sweep.sweep_get [OF wf v] and wf' = ip_sweep.sweep_wf [OF wf v, of t]
  have mem: "a \<in> fst ` set (l_ip (limiter_sweep t ord l)) \<longleftrightarrow> mget (l_ip (limiter_sweep t ord l)) a \<noteq> None" for a
    by (simp add: mget_def map_of_eq_None_iff)
  have "spent t s" if "mget (l_ip l) a = Some s" "ip_stale t s" for a s
    using limiter_ok_get [OF ok that(1)] old mget_Some_mem [OF that(1)] that(2)
    by (fastforce simp: spent_def ip_ok_def bucket_good_def)
  then show ?thesis
    using wf wf' unfolding limiters_alike_def mem
    by (simp add: limiter_sweep_def get ip_alike_def split: option.split)
qed

text \<open>C13: Sweeping changes no decision of the limiter, however long it runs on. If a sweep
  drops no entry with a failure of the last ten minutes, then the swept limiter answers every call of
  every continuation (attempts of any address, offers, failures, further sweeps) as the unswept one
  would, float arithmetic included; a continuation counts failures only for addresses that connected
  since, or are still on record.\<close>

theorem sweep_transparent:
  assumes ok: "limiter_ok t l" and t: "0 < t" and v: "visits ord (l_ip l)"
    and old: "\<forall>(a, s) \<in> set (l_ip l). ip_stale t s \<longrightarrow> (\<forall>u \<in> set (ip_failures s). blockWindow \<le> time_Sub t u)"
    and l': "l' = limiter_sweep t ord l"
    and same: "list_all2 same_call ops ops'" and tr: "limiter_trace t l ops" "limiter_trace t l' ops'"
    and known: "fails_known (fst ` set (l_ip l')) ops"
  shows "map snd (decisions l ops) = map snd (decisions l' ops')"
  using alike_decisions [OF swept_alike [OF ok v old] t same tr(1)] tr(2) known by (simp add: l')

theorem sweep_transparent_witness:
  "let l = snd (allowPeer 1 ''10.0.0.1'' newLimiter); l' = limiter_sweep Hour (l_ip l) l;
       ops = [AllowPeer (2 * Hour) ''10.0.0.1'', FailPeer (2 * Hour) ''10.0.0.1'', AllowPeer (3 * Hour) ''10.0.0.1'']
   in map snd (decisions l ops) = map snd (decisions l' ops)"
proof -
  let ?l = "snd (allowPeer 1 ''10.0.0.1'' newLimiter)"
  let ?ops = "[AllowPeer (2 * Hour) ''10.0.0.1'', FailPeer (2 * Hour) ''10.0.0.1'', AllowPeer (3 * Hour) ''10.0.0.1'']"
  have "limiter_ok 1 ?l"
    by (rule allowPeer_ok [OF limiter_ok_new [of 0] _ _ prod.collapse [symmetric]]) simp_all
  then have ok: "limiter_ok Hour ?l" by (rule limiter_ok_later) (simp add: go_const)
  have none: "\<forall>(a, s) \<in> set (l_ip ?l). ip_failures s = []"
    by (auto simp: allowPeer_def newLimiter_def Let_def mput_def zero_ipState_def dest: bucket_take_frame split: prod.splits)
  show ?thesis unfolding Let_def
  proof (rule sweep_transparent [OF ok _ _ _ refl])
    show "list_all2 same_call ?ops ?ops" by (simp add: same_call_def)
  qed (use none in \<open>auto simp: visits_def go_const\<close>)
qed

text \<open>The condition on the failures is needed: an entry is dropped ten minutes after the address
  last asked for \<^emph>\<open>admission\<close>, and a failure comes some seconds after that. Of 49 failures that still
  count, a sweep then leaves none, and the fiftieth does not block.\<close>

lemma sweep_forgets_failures:
  assumes "mget (l_ip l) a = Some s" and "ip_stale t s" and "t \<le> t'" and "mwf (l_ip l)" and "visits ord (l_ip l)"
    and "Suc (length (filter (\<lambda>u. time_Sub t' u < blockWindow) (ip_failures s))) = blockAfter"
  shows "blocked_of a (limiter_fail t' a (snd (allowPeer t' a l))) = t' + blockFor"
    and "blocked_of a (limiter_fail t' a (snd (allowPeer t' a (limiter_sweep t ord l)))) = 0"
proof -
  have e: "entry a l = s" "entry a (limiter_sweep t ord l) = zero_ipState"
    using assms(1,2) ip_sweep.sweep_get [OF assms(4,5), of t a] by (simp_all add: entry_def limiter_sweep_def)
  obtain s1 where s1: "mget (l_ip (snd (allowPeer t' a l))) a = Some s1" "ip_failures s1 = ip_failures s"
    using allowPeer_own [of t' a l] e(1) by auto
  show "blocked_of a (limiter_fail t' a (snd (allowPeer t' a l))) = t' + blockFor"
    using s1 assms(6) by (simp add: blocked_of_def limiter_fail_def Let_def time_Add_def)
  obtain z where "mget (l_ip (snd (allowPeer t' a (limiter_sweep t ord l)))) a = Some z" "ip_failures z = []" "ip_blocked z = 0"
    using allowPeer_own [of t' a "limiter_sweep t ord l"] e(2) by (auto simp: zero_ipState_def)
  then show "blocked_of a (limiter_fail t' a (snd (allowPeer t' a (limiter_sweep t ord l)))) = 0"
    by (simp add: blocked_of_def limiter_fail_def Let_def blockAfter_def)
qed

theorem guess_rate_bounded_witness:
  "of_nat (exchange_grants newLimiter [AllowPeer 1 ''10.0.0.1'', AllowExchange 2, AllowExchange (3 * Second)])
     \<le> (61 :: rat) + of_int (globalPerSecond * (3 * Second - 1)) / 1000000000"
  by (rule guess_rate_bounded) (simp_all add: go_const)

lemma limiter_invariant_witness:
  "limiter_ok (last (1 # map op_time [AllowPeer 1 ''10.0.0.1'', FailPeer 2 ''10.0.0.1'', AllowExchange 3]))
     (limiter_after newLimiter [AllowPeer 1 ''10.0.0.1'', FailPeer 2 ''10.0.0.1'', AllowExchange 3])"
  by (rule limiter_invariant) simp_all

end
