(* ===== verification/Store.thy ===== *)
theory Store
  imports Params Go_Map Go_Slice Hex Rand "HOL-Library.While_Combinator"
begin

text \<open>
  \<^verbatim>\<open>store.go\<close>: the pastes a daemon holds in memory. Every method runs under the store's
  mutex and is a function of the heap of payload buffers and of the store. Methods that range
  over the map take the visited entries, methods that read the clock the instant they read,
  \<open>candidates\<close> the supply of random bytes its shuffle draws from.
\<close>

section \<open>Constants and state\<close>

definition minCandidates :: nat where [go_const]: "minCandidates = 4"
definition defaultTTL :: duration where [go_const]: "defaultTTL = Hour"
definition maxTTL :: duration where [go_const]: "maxTTL = 24 * Hour"
definition sweepInterval :: duration where [go_const]: "sweepInterval = 30 * Second"

record paste =
  p_Label :: string
  p_Size :: int
  p_ExpiresAt :: gotime
  p_MaxGets :: int
  p_Gets :: int
  p_Burned :: bool
  p_prs :: bytes
  p_data :: slice

record store =
  s_m :: "(string, paste) gomap"
  s_decoy :: bytes

definition newStore :: "bytes \<Rightarrow> (store \<times> bytes) result" where
  "newStore rs =
     and_then (rand_Read scryptLen rs) (\<lambda>(decoy, rs'). Inr (\<lparr>s_m = [], s_decoy = decoy\<rparr>, rs'))"

definition pasteKey :: "bytes \<Rightarrow> string" where
  "pasteKey prs = hex_encode prs"

section \<open>Operations\<close>

definition store_add :: "paste \<Rightarrow> store \<Rightarrow> store result" where
  "store_add p s =
     (if length (s_m s) \<ge> maxPastes then Inl ErrTooMany
      else if mget (s_m s) (pasteKey (p_prs p)) \<noteq> None then Inl ErrCollision
      else Inr (s\<lparr>s_m := mput (pasteKey (p_prs p)) p (s_m s)\<rparr>))"

text \<open>\<^verbatim>\<open>for n < live+1 && n < maxCandidates { n *= 2 }\<close>.\<close>

definition paddedCount :: "nat \<Rightarrow> nat" where
  "paddedCount live =
     while (\<lambda>n. n < live + 1 \<and> n < maxCandidates) (\<lambda>n. n * 2) minCandidates"

text \<open>\<^verbatim>\<open>for i := len(out)-1; i > 0; i-- { j := randIndex(i+1); swap }\<close>.\<close>

definition swap :: "nat \<Rightarrow> nat \<Rightarrow> 'a list \<Rightarrow> 'a list" where
  "swap i j xs = xs[i := xs ! j, j := xs ! i]"

fun shuffle_from :: "nat \<Rightarrow> 'a list \<Rightarrow> bytes \<Rightarrow> ('a list \<times> bytes) result" where
  "shuffle_from 0 xs rs = Inr (xs, rs)"
| "shuffle_from (Suc i) xs rs =
     and_then (randIndex (Suc i + 1) rs) (\<lambda>(j, rs'). shuffle_from i (swap (Suc i) j xs) rs')"

definition is_live :: "gotime \<Rightarrow> paste \<Rightarrow> bool" where
  "is_live now p \<longleftrightarrow> \<not> (p_Burned p \<or> time_After now (p_ExpiresAt p))"

definition candidates ::
  "gotime \<Rightarrow> (string \<times> paste) list \<Rightarrow> store \<Rightarrow> bytes \<Rightarrow> (bytes list \<times> bytes) result" where
  "candidates now ord s rs =
     (let out = map (\<lambda>(k, p). p_prs p) (filter (\<lambda>(k, p). is_live now p) ord);
          out = out @ replicate (paddedCount (length out) - length out) (s_decoy s)
      in shuffle_from (length out - 1) out rs)"

text \<open>\<^verbatim>\<open>clear(p.data); p.data = nil; p.Burned = true\<close>.\<close>

definition burn :: "heap \<Rightarrow> paste \<Rightarrow> heap \<times> paste" where
  "burn h p = (sl_clear (p_data p) h, p\<lparr>p_data := NilSlice, p_Burned := True\<rparr>)"

text \<open>A nil slice is the source's nil result.\<close>

definition store_take :: "gotime \<Rightarrow> bytes \<Rightarrow> heap \<Rightarrow> store \<Rightarrow> slice \<times> heap \<times> store" where
  "store_take now prs h s =
     (case mget (s_m s) (pasteKey prs) of
        None \<Rightarrow> (NilSlice, h, s)
      | Some p \<Rightarrow>
          if p_Burned p \<or> time_After now (p_ExpiresAt p) then (NilSlice, h, s)
          else
            let p = p\<lparr>p_Gets := p_Gets p + 1\<rparr>;
                (body, h) = sl_make (sl_len (p_data p)) (sl_len (p_data p) + aeadOverhead) h;
                h = sl_copy body (p_data p) h;
                (h, p) = (if p_MaxGets p > 0 \<and> p_Gets p \<ge> p_MaxGets p then burn h p else (h, p))
            in (body, h, s\<lparr>s_m := mput (pasteKey prs) p (s_m s)\<rparr>))"

definition store_list :: "(string \<times> paste) list \<Rightarrow> paste list" where
  "store_list ord = map (\<lambda>(k, p). p\<lparr>p_prs := [], p_data := NilSlice\<rparr>) ord"

definition store_del :: "bytes \<Rightarrow> heap \<Rightarrow> store \<Rightarrow> bool \<times> heap \<times> store" where
  "store_del prs h s =
     (case mget (s_m s) (pasteKey prs) of
        None \<Rightarrow> (False, h, s)
      | Some p \<Rightarrow> (True, fst (burn h p), s\<lparr>s_m := mdel (pasteKey prs) (s_m s)\<rparr>))"

text \<open>\<^verbatim>\<open>for key, p := range s.m { if P(p) { burn(p); delete(s.m, key) } }\<close>.\<close>

fun burn_loop ::
  "(paste \<Rightarrow> bool) \<Rightarrow> (string \<times> paste) list \<Rightarrow> heap \<Rightarrow> (string, paste) gomap
    \<Rightarrow> heap \<times> (string, paste) gomap" where
  "burn_loop P [] h m = (h, m)"
| "burn_loop P ((k, p) # ord) h m =
     (if P p then burn_loop P ord (fst (burn h p)) (mdel k m) else burn_loop P ord h m)"

definition store_clear :: "(string \<times> paste) list \<Rightarrow> heap \<Rightarrow> store \<Rightarrow> heap \<times> store" where
  "store_clear ord h s =
     (case burn_loop (\<lambda>_. True) ord h (s_m s) of (h', m') \<Rightarrow> (h', s\<lparr>s_m := m'\<rparr>))"

definition paste_expired :: "gotime \<Rightarrow> paste \<Rightarrow> bool" where
  "paste_expired now p \<longleftrightarrow> time_After now (p_ExpiresAt p)"

definition store_sweep :: "gotime \<Rightarrow> (string \<times> paste) list \<Rightarrow> heap \<Rightarrow> store \<Rightarrow> heap \<times> store" where
  "store_sweep now ord h s =
     (case burn_loop (paste_expired now) ord h (s_m s) of (h', m') \<Rightarrow> (h', s\<lparr>s_m := m'\<rparr>))"

section \<open>The burning loops\<close>

lemma burn_loop_map: "snd (burn_loop P ord h m) = range_delete (\<lambda>_. P) ord m"
  by (induction P ord h m rule: burn_loop.induct) simp_all

lemma burn_loop_next: "h_next (fst (burn_loop P ord h m)) = h_next h"
  by (induction P ord h m rule: burn_loop.induct) (simp_all add: burn_def)

lemma burn_loop_other:
  "\<forall>(k, p) \<in> set ord. P p \<longrightarrow> p_data p = NilSlice \<or> sl_addr (p_data p) \<noteq> a \<Longrightarrow>
   h_cell (fst (burn_loop P ord h m)) a = h_cell h a"
proof (induction P ord h m rule: burn_loop.induct)
  case (1 P h m)
  then show ?case by simp
next
  case (2 P k p ord h m)
  then show ?case by (auto simp: burn_def)
qed

lemma burn_loop_ok:
  "sl_ok h t \<Longrightarrow> \<forall>(k, p) \<in> set ord. sl_ok h (p_data p) \<Longrightarrow> sl_ok (fst (burn_loop P ord h m)) t"
proof (induction P ord h m rule: burn_loop.induct)
  case (1 P h m)
  then show ?case by simp
next
  case (2 P k p ord h m)
  then show ?case by (fastforce simp: burn_def)
qed

definition sweep_pastes ::
  "gotime \<Rightarrow> (string \<times> paste) list \<Rightarrow> (string, paste) gomap \<Rightarrow> (string, paste) gomap" where
  "sweep_pastes now ord m = snd (burn_loop (paste_expired now) ord empty_heap m)"

lemma store_sweep_map: "s_m (snd (store_sweep now ord h s)) = sweep_pastes now ord (s_m s)"
  by (simp add: store_sweep_def sweep_pastes_def burn_loop_map case_prod_unfold)

interpretation paste_sweep: expiring sweep_pastes paste_expired
proof unfold_locales
  show "sweep_pastes now ord m = filter (\<lambda>(k, v). \<not> paste_expired now v) m"
    if "mwf m" "visits ord m" for m ord now
    using that by (simp add: sweep_pastes_def burn_loop_map range_delete_visits)
  show "paste_expired t' v" if "paste_expired t v" "t \<le> t'" for t t' v
    using that by (simp add: paste_expired_def time_After_def)
qed

section \<open>Padding and shuffling\<close>

lemma padded_while:
  "\<exists>n. while_option (\<lambda>n. n < live + 1 \<and> n < maxCandidates) (\<lambda>n. n * 2) minCandidates = Some n"
  by (rule measure_while_option_Some [where P = "\<lambda>n. 0 < n" and f = "\<lambda>n. maxCandidates - n"])
    (auto simp: go_const)

lemma paddedCount_facts:
  "while_option (\<lambda>n. n < live + 1 \<and> n < maxCandidates) (\<lambda>n. n * 2) minCandidates
     = Some (paddedCount live)
   \<and> (\<exists>k \<le> 7. paddedCount live = 4 * 2 ^ k)
   \<and> (live < paddedCount live \<or> maxCandidates \<le> live \<and> paddedCount live = maxCandidates)
   \<and> (paddedCount live = minCandidates \<or> paddedCount live div 2 \<le> live)"
proof -
  obtain n where n: "while_option (\<lambda>n. n < live + 1 \<and> n < maxCandidates) (\<lambda>n. n * 2) minCandidates = Some n"
    using padded_while by blast
  have "(\<exists>k \<le> 7. n = 4 * 2 ^ k) \<and> (n = minCandidates \<or> n div 2 \<le> live)"
    using n
  proof (rule while_option_rule [rotated])
    show "(\<exists>k \<le> 7. minCandidates = 4 * 2 ^ k) \<and> (minCandidates = minCandidates \<or> minCandidates div 2 \<le> live)"
      by (auto simp: go_const intro!: exI [of _ 0])
    fix m assume m: "(\<exists>k \<le> 7. m = 4 * 2 ^ k) \<and> (m = minCandidates \<or> m div 2 \<le> live)"
      and b: "m < live + 1 \<and> m < maxCandidates"
    then obtain k where k: "k \<le> 7" "m = 4 * 2 ^ k" by auto
    have "k \<noteq> 7" using b k by (auto simp: go_const)
    then have "Suc k \<le> 7" "m * 2 = 4 * 2 ^ Suc k" using k by auto
    then show "(\<exists>k \<le> 7. m * 2 = 4 * 2 ^ k) \<and> (m * 2 = minCandidates \<or> m * 2 div 2 \<le> live)"
      using b by (metis add_0 add_le_cancel_left less_Suc_eq_le Suc_eq_plus1 nonzero_mult_div_cancel_right zero_neq_numeral)
  qed
  moreover have "\<not> (n < live + 1 \<and> n < maxCandidates)" by (rule while_option_stop [OF n])
  moreover have "n \<le> maxCandidates" if "\<exists>k \<le> 7. n = 4 * 2 ^ k"
  proof -
    obtain k where "k \<le> 7" "n = 4 * 2 ^ k" using \<open>\<exists>k \<le> 7. n = 4 * 2 ^ k\<close> by auto
    then show ?thesis using power_increasing [of k 7 "2::nat"] by (simp add: go_const)
  qed
  ultimately show ?thesis using n by (auto simp: paddedCount_def while_def)
qed

text \<open>The loop of \<^verbatim>\<open>paddedCount\<close> ends, with a power of two between 4 and 512 that has
  room for a decoy whenever fewer than 512 pastes are live (the store's cap is 256), and is the
  smallest such bucket.\<close>

lemma paddedCount_bucket:
  "while_option (\<lambda>n. n < live + 1 \<and> n < maxCandidates) (\<lambda>n. n * 2) minCandidates
     = Some (paddedCount live)
   \<and> (\<exists>k \<le> 7. paddedCount live = 4 * 2 ^ k)
   \<and> (live < paddedCount live \<or> maxCandidates \<le> live \<and> paddedCount live = maxCandidates)
   \<and> (paddedCount live = minCandidates \<or> paddedCount live div 2 \<le> live)"
  by (rule paddedCount_facts)

lemma paddedCount_le: "paddedCount live \<le> maxCandidates"
proof -
  obtain k where "k \<le> 7" "paddedCount live = 4 * 2 ^ k" using paddedCount_facts by blast
  then show ?thesis using power_increasing [of k 7 "2::nat"] by (simp add: go_const)
qed

lemma paddedCount_room: "live < maxCandidates \<Longrightarrow> live < paddedCount live"
  using paddedCount_facts [of live] by auto

lemma mset_swap_at: "i < length xs \<Longrightarrow> j < length xs \<Longrightarrow> mset (swap i j xs) = mset xs"
  by (simp add: swap_def mset_swap)

lemma length_swap [simp]: "length (swap i j xs) = length xs"
  by (simp add: swap_def)

lemma shuffle_from_mset:
  "shuffle_from i xs rs = Inr (ys, rs') \<Longrightarrow> i < length xs \<or> i = 0 \<Longrightarrow> mset ys = mset xs"
proof (induction i arbitrary: xs rs)
  case 0
  then show ?case by simp
next
  case (Suc i)
  then obtain j rs1 where j: "randIndex (Suc i + 1) rs = Inr (j, rs1)"
    and rest: "shuffle_from i (swap (Suc i) j xs) rs1 = Inr (ys, rs')"
    by (auto simp: and_then_Inr_iff)
  have "j < length xs" using randIndex_less [OF j] Suc.prems by simp
  then show ?case using Suc.IH [OF rest] Suc.prems mset_swap_at [of "Suc i" xs j] by simp
qed

text \<open>The shuffle for given indices, and the sequences of indices it can draw.\<close>

fun shuffle_with :: "nat \<Rightarrow> nat list \<Rightarrow> 'a list \<Rightarrow> 'a list" where
  "shuffle_with (Suc i) (j # js) xs = shuffle_with i js (swap (Suc i) j xs)"
| "shuffle_with _ _ xs = xs"

fun index_seq :: "nat \<Rightarrow> nat list \<Rightarrow> bool" where
  "index_seq 0 js = (js = [])"
| "index_seq (Suc i) [] = False"
| "index_seq (Suc i) (j # js) = (j \<le> Suc i \<and> index_seq i js)"

fun shuffle_sizes :: "nat \<Rightarrow> nat list" where
  "shuffle_sizes 0 = []"
| "shuffle_sizes (Suc i) = (Suc i + 1) # shuffle_sizes i"

lemma shuffle_from_draws:
  "shuffle_from i xs rs =
     and_then (draws (shuffle_sizes i) rs) (\<lambda>(js, rs'). Inr (shuffle_with i js xs, rs'))"
proof (induction i arbitrary: xs rs)
  case 0
  then show ?case by simp
next
  case (Suc i)
  show ?case
    by (cases "randIndex (Suc i + 1) rs") (auto simp: Suc and_then_def split: sum.splits)
qed

lemma draws_index_seq: "draws (shuffle_sizes i) rs = Inr (js, rs') \<Longrightarrow> index_seq i js"
proof (induction i arbitrary: rs js)
  case 0
  then show ?case by simp
next
  case (Suc i)
  then show ?case by (fastforce simp: and_then_Inr_iff dest: randIndex_less)
qed

lemma swap_nth:
  "i < length xs \<Longrightarrow> j < length xs \<Longrightarrow>
   swap i j xs ! k = (if k = j then xs ! i else if k = i then xs ! j else xs ! k)"
  by (auto simp: swap_def nth_list_update)

lemma distinct_swap: "i < length xs \<Longrightarrow> j < length xs \<Longrightarrow> distinct (swap i j xs) = distinct xs"
  by (simp add: swap_def)

lemma shuffle_with_above:
  "index_seq i js \<Longrightarrow> i < k \<Longrightarrow> k < length xs \<Longrightarrow> shuffle_with i js xs ! k = xs ! k"
proof (induction i js xs rule: shuffle_with.induct)
  case (1 i j js xs)
  then show ?case by (simp add: swap_nth)
qed simp_all

lemma shuffle_pick:
  assumes "mset ys = mset xs" and "drop (Suc i) ys = drop (Suc i) xs" and "i < length xs"
  shows "\<exists>j \<le> i. xs ! j = ys ! i"
proof -
  have len: "length ys = length xs" using assms(1) by (rule mset_eq_length)
  have "mset (take (Suc i) ys @ drop (Suc i) ys) = mset (take (Suc i) xs @ drop (Suc i) xs)"
    using assms(1) by simp
  then have "mset (take (Suc i) ys) = mset (take (Suc i) xs)"
    unfolding mset_append assms(2) by simp
  then have "set (take (Suc i) ys) = set (take (Suc i) xs)" by (rule mset_eq_setD)
  moreover have "ys ! i \<in> set (take (Suc i) ys)"
    using assms(3) len by (auto simp: in_set_conv_nth intro!: exI [of _ i])
  ultimately obtain j where "j < length (take (Suc i) xs)" "take (Suc i) xs ! j = ys ! i"
    by (auto simp: in_set_conv_nth)
  then show ?thesis using assms(3) by (auto intro!: exI [of _ j])
qed

lemma drop_eq_nth:
  "drop n xs = drop n ys \<Longrightarrow> length xs = length ys \<Longrightarrow> n \<le> k \<Longrightarrow> k < length xs \<Longrightarrow> xs ! k = ys ! k"
  by (metis le_add_diff_inverse nth_drop order_trans less_imp_le)

lemma shuffle_exists:
  assumes "distinct xs" and "mset ys = mset xs" and "drop (Suc i) ys = drop (Suc i) xs"
    and "i < length xs"
  shows "\<exists>!js. index_seq i js \<and> shuffle_with i js xs = ys"
  using assms
proof (induction i arbitrary: xs)
  case 0
  have "xs = ys"
  proof (rule nth_equalityI)
    show "length xs = length ys" using "0.prems"(2) by (metis mset_eq_length)
    fix k assume k: "k < length xs"
    show "xs ! k = ys ! k"
    proof (cases k)
      case 0
      then show ?thesis using shuffle_pick [OF "0.prems"(2,3,4)] by auto
    next
      case (Suc k')
      then show ?thesis
        using drop_eq_nth [OF "0.prems"(3) mset_eq_length [OF "0.prems"(2)], of k] k
          mset_eq_length [OF "0.prems"(2)] by simp
    qed
  qed
  then show ?case by auto
next
  case (Suc i)
  have len: "length ys = length xs" using Suc.prems(2) by (rule mset_eq_length)
  obtain j where j: "j \<le> Suc i" "xs ! j = ys ! Suc i"
    using shuffle_pick [OF Suc.prems(2-4)] by auto
  let ?xs = "swap (Suc i) j xs"
  have jl: "Suc i < length xs" "j < length xs" using j Suc.prems by auto
  have "drop (Suc i) ys = drop (Suc i) ?xs"
  proof (rule nth_equalityI)
    show "length (drop (Suc i) ys) = length (drop (Suc i) ?xs)" using len by simp
    fix k assume "k < length (drop (Suc i) ys)"
    then have k: "Suc i + k < length xs" using len by simp
    show "drop (Suc i) ys ! k = drop (Suc i) ?xs ! k"
    proof (cases k)
      case 0
      then show ?thesis using j jl len by (simp add: swap_nth)
    next
      case (Suc k')
      then show ?thesis
        using drop_eq_nth [OF Suc.prems(3) len, of "Suc i + k"] k j jl len
        by (simp add: swap_nth)
    qed
  qed
  then have ex: "\<exists>!js. index_seq i js \<and> shuffle_with i js ?xs = ys"
    using Suc.IH [of ?xs] Suc.prems jl by (simp add: distinct_swap mset_swap_at)
  then obtain js where js: "index_seq i js" "shuffle_with i js ?xs = ys" by blast
  show ?case
  proof (rule ex1I [of _ "j # js"])
    show "index_seq (Suc i) (j # js) \<and> shuffle_with (Suc i) (j # js) xs = ys"
      using js j by simp
    fix ks assume "index_seq (Suc i) ks \<and> shuffle_with (Suc i) ks xs = ys"
    then obtain j' js' where ks: "ks = j' # js'" "j' \<le> Suc i" "index_seq i js'"
      and sh: "shuffle_with i js' (swap (Suc i) j' xs) = ys"
      by (cases ks) auto
    have "ys ! Suc i = swap (Suc i) j' xs ! Suc i"
      unfolding sh [symmetric] using ks jl by (intro shuffle_with_above) auto
    also have "\<dots> = xs ! j'" using ks jl by (simp add: swap_nth)
    finally have "j' = j"
      using j ks jl Suc.prems(1) by (simp add: nth_eq_iff_index_eq)
    then show "ks = j # js" using ex js ks sh by blast
  qed
qed

text \<open>C15: The shuffle of the offered candidates is unbiased: it applies the swaps of the indices it
  draws, and of all the sequences of indices its
  draws can produce, exactly one leads from a given order to any given permutation, so with
  uniform draws the position of a paste among the decoys is uniform.\<close>

theorem shuffle_unbiased:
  assumes "distinct xs" and "mset ys = mset xs" and "xs \<noteq> []"
  shows "(\<forall>rs. shuffle_from (length xs - 1) xs rs =
        and_then (draws (shuffle_sizes (length xs - 1)) rs)
          (\<lambda>(js, rs'). Inr (shuffle_with (length xs - 1) js xs, rs')))
    \<and> (\<exists>!js. index_seq (length xs - 1) js \<and> shuffle_with (length xs - 1) js xs = ys)"
proof (intro conjI allI)
  show "shuffle_from (length xs - 1) xs rs =
        and_then (draws (shuffle_sizes (length xs - 1)) rs)
          (\<lambda>(js, rs'). Inr (shuffle_with (length xs - 1) js xs, rs'))" for rs
    by (rule shuffle_from_draws)
  show "\<exists>!js. index_seq (length xs - 1) js \<and> shuffle_with (length xs - 1) js xs = ys"
    using assms mset_eq_length [OF assms(2)] by (intro shuffle_exists) auto
qed

theorem shuffle_unbiased_witness:
  "\<exists>!js. index_seq (length [1::nat, 2, 3] - 1) js \<and> shuffle_with (length [1::nat, 2, 3] - 1) js [1::nat, 2, 3] = [3, 1, 2]"
  by (rule conjunct2 [OF shuffle_unbiased]) simp_all

section \<open>Candidates\<close>

definition live_pastes :: "gotime \<Rightarrow> store \<Rightarrow> (string \<times> paste) list" where
  "live_pastes now s = filter (\<lambda>(k, p). is_live now p) (s_m s)"

lemma candidates_mset:
  assumes "candidates now ord s rs = Inr (cs, rs')" and "visits ord (s_m s)"
  shows "mset cs = image_mset (\<lambda>(k, p). p_prs p) (mset (live_pastes now s))
      + replicate_mset (paddedCount (length (live_pastes now s)) - length (live_pastes now s)) (s_decoy s)"
proof -
  let ?live = "map (\<lambda>(k, p). p_prs p) (filter (\<lambda>(k, p). is_live now p) ord)"
  let ?out = "?live @ replicate (paddedCount (length ?live) - length ?live) (s_decoy s)"
  have "shuffle_from (length ?out - 1) ?out rs = Inr (cs, rs')"
    using assms(1) by (simp only: candidates_def Let_def)
  then have "mset cs = mset ?out"
    by (rule shuffle_from_mset) auto
  moreover have m: "mset (filter (\<lambda>(k, p). is_live now p) ord) = mset (live_pastes now s)"
    using assms(2) by (simp add: live_pastes_def visits_def)
  moreover have "length (filter (\<lambda>(k, p). is_live now p) ord) = length (live_pastes now s)"
    using m by (metis size_mset)
  ultimately show ?thesis by simp
qed

text \<open>The secrets on offer, and the size of the offer.\<close>

lemma candidates_length:
  assumes "candidates now ord s rs = Inr (cs, rs')" and "visits ord (s_m s)"
  shows "length cs = max (length (live_pastes now s)) (paddedCount (length (live_pastes now s)))"
proof -
  have "size (mset cs) = size (image_mset (\<lambda>(k, p). p_prs p) (mset (live_pastes now s))
      + replicate_mset (paddedCount (length (live_pastes now s)) - length (live_pastes now s)) (s_decoy s))"
    by (simp only: candidates_mset [OF assms])
  then show ?thesis by simp
qed

text \<open>C14: An offer holds the secret of every live paste exactly as often as it is stored, nothing
  of a burned or expired one, and otherwise only the decoy; with fewer than 512 live pastes (the
  store's cap is 256) the offer has exactly the padded length and at least one decoy in it.\<close>

theorem candidates_offer:
  assumes "candidates now ord s rs = Inr (cs, rs')" and "visits ord (s_m s)"
    and "length (live_pastes now s) < maxCandidates"
  shows "mset cs = image_mset (\<lambda>(k, p). p_prs p) (mset (live_pastes now s))
      + replicate_mset (paddedCount (length (live_pastes now s)) - length (live_pastes now s)) (s_decoy s)
    \<and> length cs = paddedCount (length (live_pastes now s))
    \<and> s_decoy s \<in> set cs"
proof (intro conjI)
  let ?n = "length (live_pastes now s)"
  have room: "?n < paddedCount ?n" by (rule paddedCount_room [OF assms(3)])
  show m: "mset cs = image_mset (\<lambda>(k, p). p_prs p) (mset (live_pastes now s))
      + replicate_mset (paddedCount ?n - ?n) (s_decoy s)"
    by (rule candidates_mset [OF assms(1,2)])
  show "length cs = paddedCount ?n" using candidates_length [OF assms(1,2)] room by simp
  have "s_decoy s \<in># mset cs" using room by (simp add: m)
  then show "s_decoy s \<in> set cs" by simp
qed

section \<open>The store's invariant\<close>

text \<open>
  An entry sits under the key of its secret, its payload is in the heap, it is burned exactly
  when its payload is gone, and its fetch count respects \<^verbatim>\<open>MaxGets\<close>. No two entries share a
  payload buffer.
\<close>

definition paste_ok :: "heap \<Rightarrow> string \<Rightarrow> paste \<Rightarrow> bool" where
  "paste_ok h k p \<longleftrightarrow>
     k = pasteKey (p_prs p) \<and> sl_ok h (p_data p) \<and> (p_Burned p \<longleftrightarrow> p_data p = NilSlice)
     \<and> 0 \<le> p_Gets p
     \<and> (if 0 < p_MaxGets p then p_Gets p \<le> p_MaxGets p \<and> (p_Burned p \<longleftrightarrow> p_Gets p = p_MaxGets p)
        else \<not> p_Burned p)
     \<and> (p_Burned p \<or> p_Size p = int (sl_len (p_data p)))"

definition apart :: "slice \<Rightarrow> slice \<Rightarrow> bool" where
  "apart s t \<longleftrightarrow> s = NilSlice \<or> t = NilSlice \<or> sl_addr s \<noteq> sl_addr t"

definition unshared :: "(string, paste) gomap \<Rightarrow> bool" where
  "unshared m \<longleftrightarrow>
     (\<forall>e \<in> set m. \<forall>e' \<in> set m. fst e \<noteq> fst e' \<longrightarrow> apart (p_data (snd e)) (p_data (snd e')))"

definition store_ok :: "heap \<Rightarrow> store \<Rightarrow> bool" where
  "store_ok h s \<longleftrightarrow>
     mwf (s_m s) \<and> length (s_m s) \<le> maxPastes
     \<and> (\<forall>e \<in> set (s_m s). paste_ok h (fst e) (snd e)) \<and> unshared (s_m s)"

text \<open>What \<^verbatim>\<open>handlePost\<close> passes to \<^verbatim>\<open>add\<close>: no fetches yet, its own buffer.\<close>

definition new_paste :: "heap \<Rightarrow> store \<Rightarrow> paste \<Rightarrow> bool" where
  "new_paste h s p \<longleftrightarrow>
     p_Gets p = 0 \<and> \<not> p_Burned p \<and> p_data p \<noteq> NilSlice \<and> sl_ok h (p_data p)
     \<and> p_Size p = int (sl_len (p_data p))
     \<and> (\<forall>e \<in> set (s_m s). apart (p_data p) (p_data (snd e)))"

lemma store_ok_get:
  "store_ok h s \<Longrightarrow> mget (s_m s) k = Some p \<Longrightarrow> paste_ok h k p"
  by (auto simp: store_ok_def dest!: mget_Some_mem)

lemma unshared_get:
  "unshared m \<Longrightarrow> mget m k = Some p \<Longrightarrow> mget m k' = Some p' \<Longrightarrow> k \<noteq> k' \<Longrightarrow> apart (p_data p) (p_data p')"
  by (fastforce simp: unshared_def dest!: mget_Some_mem)

lemma apart_sym: "apart s t = apart t s"
  by (auto simp: apart_def)

lemma paste_ok_heap:
  "paste_ok h k p \<Longrightarrow> (p_data p \<noteq> NilSlice \<Longrightarrow> sl_ok h' (p_data p)) \<Longrightarrow> paste_ok h' k p"
  by (auto simp: paste_ok_def)

text \<open>Replacing one entry keeps the invariant if the new entry is well formed and keeps apart.\<close>

lemma store_ok_put:
  assumes ok: "store_ok h s" and p: "paste_ok h' k p"
    and heap: "\<And>e. e \<in> set (s_m s) \<Longrightarrow> fst e \<noteq> k \<Longrightarrow> sl_ok h' (p_data (snd e))"
    and ap: "\<And>e. e \<in> set (s_m s) \<Longrightarrow> fst e \<noteq> k \<Longrightarrow> apart (p_data p) (p_data (snd e))"
    and len: "length (mput k p (s_m s)) \<le> maxPastes"
  shows "store_ok h' (s\<lparr>s_m := mput k p (s_m s)\<rparr>)"
proof -
  have wf: "mwf (s_m s)" using ok by (simp add: store_ok_def)
  have mem: "e = (k, p) \<or> e \<in> set (s_m s) \<and> fst e \<noteq> k" if "e \<in> set (mput k p (s_m s))" for e
    using that wf by (intro mem_mput)
  have "paste_ok h' (fst e) (snd e)" if "e \<in> set (mput k p (s_m s))" for e
    using mem [OF that] p heap ok paste_ok_heap by (fastforce simp: store_ok_def)
  moreover have "apart (p_data (snd e)) (p_data (snd e'))"
    if "e \<in> set (mput k p (s_m s))" "e' \<in> set (mput k p (s_m s))" "fst e \<noteq> fst e'" for e e'
    using mem [OF that(1)] mem [OF that(2)] that(3) ap [of e] ap [of e'] ok
    by (auto simp: store_ok_def unshared_def apart_sym)
  ultimately show ?thesis using wf len by (simp add: store_ok_def unshared_def)
qed

lemma store_ok_sub:
  assumes ok: "store_ok h s" and sub: "set m' \<subseteq> set (s_m s)" "mwf m'" "length m' \<le> length (s_m s)"
    and heap: "\<And>e. e \<in> set m' \<Longrightarrow> sl_ok h' (p_data (snd e))"
  shows "store_ok h' (s\<lparr>s_m := m'\<rparr>)"
proof -
  have "paste_ok h' (fst e) (snd e)" if e: "e \<in> set m'" for e
  proof (rule paste_ok_heap)
    show "paste_ok h (fst e) (snd e)" using e ok sub(1) by (auto simp: store_ok_def)
    show "sl_ok h' (p_data (snd e))" by (rule heap [OF e])
  qed
  moreover have "unshared m'"
    using ok sub(1) unfolding store_ok_def unshared_def by blast
  ultimately show ?thesis using ok sub(2,3) by (simp add: store_ok_def)
qed

lemma newStore_ok: "newStore rs = Inr (s, rs') \<Longrightarrow> store_ok h s"
  by (auto simp: newStore_def and_then_Inr_iff store_ok_def unshared_def rand_Read_def)

lemma store_add_ok:
  assumes ok: "store_ok h s" and new: "new_paste h s p" and add: "store_add p s = Inr s'"
  shows "store_ok h s'"
proof -
  have s': "s' = s\<lparr>s_m := mput (pasteKey (p_prs p)) p (s_m s)\<rparr>"
    and free: "length (s_m s) < maxPastes" "mget (s_m s) (pasteKey (p_prs p)) = None"
    using add by (auto simp: store_add_def split: if_splits)
  show ?thesis
    unfolding s'
  proof (rule store_ok_put [OF ok])
    show "paste_ok h (pasteKey (p_prs p)) p"
      using new by (auto simp: new_paste_def paste_ok_def)
    show "length (mput (pasteKey (p_prs p)) p (s_m s)) \<le> maxPastes"
      using free by (simp add: length_mput)
  qed (use ok new in \<open>auto simp: store_ok_def paste_ok_def new_paste_def\<close>)
qed

section \<open>\<^verbatim>\<open>take\<close>\<close>

lemma store_take_none:
  "(case mget (s_m s) (pasteKey prs) of None \<Rightarrow> True | Some p \<Rightarrow> \<not> is_live now p) \<Longrightarrow>
   store_take now prs h s = (NilSlice, h, s)"
  by (auto simp: store_take_def is_live_def split: option.splits)

text \<open>The heap and the entry that a fetch of a live paste leaves.\<close>

definition take_last :: "paste \<Rightarrow> bool" where
  "take_last p \<longleftrightarrow> 0 < p_MaxGets p \<and> p_MaxGets p \<le> p_Gets p + 1"

definition taken_paste :: "paste \<Rightarrow> paste" where
  "taken_paste p =
     (if take_last p then p\<lparr>p_Gets := p_Gets p + 1, p_data := NilSlice, p_Burned := True\<rparr>
      else p\<lparr>p_Gets := p_Gets p + 1\<rparr>)"

definition taken_heap :: "heap \<Rightarrow> paste \<Rightarrow> heap" where
  "taken_heap h p =
     (let h' = h\<lparr>h_next := Suc (h_next h),
                 h_cell := (h_cell h)(h_next h := sl_read h (p_data p) @ replicate aeadOverhead 0)\<rparr>
      in if take_last p then sl_clear (p_data p) h' else h')"

lemma store_take_live:
  assumes get: "mget (s_m s) (pasteKey prs) = Some p" and live: "is_live now p"
    and ok: "sl_ok h (p_data p)"
  shows "store_take now prs h s =
    (Slice (h_next h) (sl_len (p_data p)), taken_heap h p,
     s\<lparr>s_m := mput (pasteKey prs) (taken_paste p) (s_m s)\<rparr>)"
proof -
  let ?n = "sl_len (p_data p)"
  obtain h1 where mk: "sl_make ?n (?n + aeadOverhead) h = (Slice (h_next h) ?n, h1)"
    and h1: "h1 = h\<lparr>h_next := Suc (h_next h),
        h_cell := (h_cell h)(h_next h := replicate (?n + aeadOverhead) 0)\<rparr>"
    by (simp add: sl_make_def)
  have rd: "sl_read h1 (p_data p) = sl_read h (p_data p)"
    using ok by (intro sl_read_cong) (auto simp: h1)
  have "sl_copy (Slice (h_next h) ?n) (p_data p) h1 = h\<lparr>h_next := Suc (h_next h),
      h_cell := (h_cell h)(h_next h := sl_read h (p_data p) @ replicate aeadOverhead 0)\<rparr>"
    using length_sl_read [OF ok] rd by (simp add: poke_def h1 replicate_add)
  then show ?thesis
    using get live mk
    by (auto simp: store_take_def is_live_def Let_def taken_heap_def taken_paste_def take_last_def burn_def)
qed

lemma taken_heap_next [simp]: "h_next (taken_heap h p) = Suc (h_next h)"
  by (simp add: taken_heap_def Let_def)

lemma taken_heap_body:
  assumes "sl_ok h (p_data p)"
  shows "h_cell (taken_heap h p) (h_next h) = sl_read h (p_data p) @ replicate aeadOverhead 0"
proof (cases "take_last p")
  case True
  have "p_data p = NilSlice \<or> h_next h \<noteq> sl_addr (p_data p)"
    using assms by (cases "p_data p") auto
  then show ?thesis using True by (simp add: taken_heap_def Let_def)
next
  case False
  then show ?thesis by (simp add: taken_heap_def Let_def)
qed

lemma taken_heap_other:
  assumes "a \<noteq> h_next h" and "\<not> take_last p \<or> p_data p = NilSlice \<or> a \<noteq> sl_addr (p_data p)"
  shows "h_cell (taken_heap h p) a = h_cell h a"
  using assms by (auto simp: taken_heap_def Let_def)

lemma taken_heap_burned:
  "take_last p \<Longrightarrow> sl_read (taken_heap h p) (p_data p) = replicate (sl_len (p_data p)) 0"
  by (simp add: taken_heap_def Let_def)

lemma taken_heap_sl_ok:
  assumes "sl_ok h t" and "sl_ok h (p_data p)"
  shows "sl_ok (taken_heap h p) t"
proof -
  let ?h' = "h\<lparr>h_next := Suc (h_next h),
      h_cell := (h_cell h)(h_next h := sl_read h (p_data p) @ replicate aeadOverhead 0)\<rparr>"
  have "sl_ok ?h' t" "sl_ok ?h' (p_data p)"
    using assms by (cases t; cases "p_data p"; auto)+
  then show ?thesis by (simp add: taken_heap_def Let_def)
qed

lemma taken_paste_ok:
  assumes "paste_ok h k p" and "is_live now p"
  shows "paste_ok (taken_heap h p) k (taken_paste p)"
  using assms taken_heap_sl_ok [of h "p_data p" p]
  by (auto simp: paste_ok_def taken_paste_def take_last_def is_live_def split: if_splits)

lemma store_take_ok:
  assumes ok: "store_ok h s" and tk: "store_take now prs h s = (body, h', s')"
  shows "store_ok h' s'"
proof (cases "\<exists>p. mget (s_m s) (pasteKey prs) = Some p \<and> is_live now p")
  case False
  then show ?thesis
    using store_take_none [where s = s and prs = prs and now = now and h = h] ok tk by (auto split: option.splits)
next
  case True
  then obtain p where p: "mget (s_m s) (pasteKey prs) = Some p" "is_live now p" by auto
  have pok: "paste_ok h (pasteKey prs) p" by (rule store_ok_get [OF ok p(1)])
  then have dok: "sl_ok h (p_data p)" by (simp add: paste_ok_def)
  have s': "h' = taken_heap h p" "s' = s\<lparr>s_m := mput (pasteKey prs) (taken_paste p) (s_m s)\<rparr>"
    using tk store_take_live [OF p dok] by auto
  show ?thesis
    unfolding s'
  proof (rule store_ok_put [OF ok taken_paste_ok [OF pok p(2)]])
    fix e assume e: "e \<in> set (s_m s)" "fst e \<noteq> pasteKey prs"
    show "sl_ok (taken_heap h p) (p_data (snd e))"
      using e(1) ok dok by (intro taken_heap_sl_ok) (auto simp: store_ok_def paste_ok_def)
    have "apart (p_data p) (p_data (snd e))"
      using unshared_get [of "s_m s" "pasteKey prs" p "fst e" "snd e"] e p(1) ok
      by (auto simp: store_ok_def mem_mget)
    then show "apart (p_data (taken_paste p)) (p_data (snd e))"
      by (auto simp: taken_paste_def apart_def)
  qed (use ok p in \<open>simp add: store_ok_def length_mput\<close>)
qed

lemma take_facts:
  assumes ok: "store_ok h s" and get: "mget (s_m s) (pasteKey prs) = Some p" and live: "is_live now p"
    and tk: "store_take now prs h s = (body, h', s')"
  shows "sl_read h' body = sl_read h (p_data p)"
    and "sl_cap h' body = sl_len body + aeadOverhead"
    and "sl_addr body = h_next h" and "body \<noteq> NilSlice"
    and "mget (s_m s') (pasteKey prs) = Some (taken_paste p)"
    and "\<forall>k q. k \<noteq> pasteKey prs \<longrightarrow> mget (s_m s) k = Some q \<longrightarrow>
           mget (s_m s') k = Some q \<and> sl_read h' (p_data q) = sl_read h (p_data q)"
    and "sl_read h' (p_data p) =
           (if take_last p then replicate (sl_len (p_data p)) 0 else sl_read h (p_data p))"
proof -
  have pok: "paste_ok h (pasteKey prs) p" by (rule store_ok_get [OF ok get])
  then have dok: "sl_ok h (p_data p)" by (simp add: paste_ok_def)
  note res = store_take_live [OF get live dok]
  have s': "body = Slice (h_next h) (sl_len (p_data p))" "h' = taken_heap h p"
      "s' = s\<lparr>s_m := mput (pasteKey prs) (taken_paste p) (s_m s)\<rparr>"
    using tk res by auto
  show "sl_read h' body = sl_read h (p_data p)"
    using taken_heap_body [OF dok] length_sl_read [OF dok] by (simp add: s')
  show "sl_cap h' body = sl_len body + aeadOverhead"
    using taken_heap_body [OF dok] length_sl_read [OF dok] by (simp add: s')
  show "sl_addr body = h_next h" "body \<noteq> NilSlice" by (simp_all add: s')
  show "mget (s_m s') (pasteKey prs) = Some (taken_paste p)" by (simp add: s')
  show "\<forall>k q. k \<noteq> pasteKey prs \<longrightarrow> mget (s_m s) k = Some q \<longrightarrow>
           mget (s_m s') k = Some q \<and> sl_read h' (p_data q) = sl_read h (p_data q)"
  proof (intro allI impI)
    fix k q assume k: "k \<noteq> pasteKey prs" and q: "mget (s_m s) k = Some q"
    have ap: "apart (p_data p) (p_data q)"
      using unshared_get [OF _ get q] k ok by (auto simp: store_ok_def)
    have qok: "sl_ok h (p_data q)" using store_ok_get [OF ok q] by (simp add: paste_ok_def)
    have "sl_read h' (p_data q) = sl_read h (p_data q)"
      unfolding s' using ap qok
      by (intro sl_read_cong taken_heap_other) (auto simp: apart_def)
    then show "mget (s_m s') k = Some q \<and> sl_read h' (p_data q) = sl_read h (p_data q)"
      using k q by (simp add: s')
  qed
  show "sl_read h' (p_data p) =
           (if take_last p then replicate (sl_len (p_data p)) 0 else sl_read h (p_data p))"
  proof (cases "take_last p")
    case True
    then show ?thesis by (simp add: s' taken_heap_burned)
  next
    case False
    have "sl_read (taken_heap h p) (p_data p) = sl_read h (p_data p)"
      using dok False by (intro sl_read_cong taken_heap_other) auto
    then show ?thesis using False by (simp add: s')
  qed
qed

text \<open>A fetch of a live paste returns a fresh buffer that holds the whole payload and has room
  for the AEAD tag, charges the paste one fetch, and leaves every other payload in the heap
  untouched. When it is the last fetch that \<^verbatim>\<open>MaxGets\<close> allows, the stored payload is zeroed
  and dropped, and the returned copy still holds it.\<close>

lemma take_delivers:
  assumes "store_ok h s" and "mget (s_m s) (pasteKey prs) = Some p" and "is_live now p"
    and "store_take now prs h s = (body, h', s')"
  shows "sl_read h' body = sl_read h (p_data p)
    \<and> sl_addr body = h_next h
    \<and> sl_cap h' body = sl_len body + aeadOverhead
    \<and> mget (s_m s') (pasteKey prs) = Some (taken_paste p)
    \<and> (\<forall>k q. k \<noteq> pasteKey prs \<and> mget (s_m s) k = Some q \<longrightarrow>
           mget (s_m s') k = Some q \<and> sl_read h' (p_data q) = sl_read h (p_data q))
    \<and> sl_read h' (p_data p) =
           (if take_last p then replicate (sl_len (p_data p)) 0 else sl_read h (p_data p))"
  using take_facts [OF assms] by blast

text \<open>A paste of two bytes that may be fetched once, alone in the store.\<close>

definition demo_heap :: heap where
  "demo_heap = \<lparr>h_next = 1, h_cell = (\<lambda>_. [])(0 := [104, 105])\<rparr>"

definition demo_paste :: paste where
  "demo_paste = \<lparr>p_Label = [], p_Size = 2, p_ExpiresAt = Hour, p_MaxGets = 1, p_Gets = 0,
     p_Burned = False, p_prs = [1, 2], p_data = Slice 0 2\<rparr>"

definition demo_store :: store where
  "demo_store = \<lparr>s_m = [(pasteKey [1, 2], demo_paste)], s_decoy = [9, 9]\<rparr>"

lemma demo_ok: "store_ok demo_heap demo_store"
  by (simp add: store_ok_def demo_store_def demo_heap_def demo_paste_def mwf_def paste_ok_def
      unshared_def go_const)

lemma take_delivers_witness:
  "\<exists>body h' s'. store_take Second [1, 2] demo_heap demo_store = (body, h', s')
     \<and> sl_read h' body = [104, 105] \<and> sl_read h' (p_data demo_paste) = [0, 0]"
proof -
  obtain body h' s' where tk: "store_take Second [1, 2] demo_heap demo_store = (body, h', s')"
    using prod_cases3 by blast
  have get: "mget (s_m demo_store) (pasteKey [1, 2]) = Some demo_paste"
    by (simp add: demo_store_def mget_def)
  have live: "is_live Second demo_paste"
    by (simp add: is_live_def demo_paste_def time_After_def go_const)
  have "sl_read h' body = [104, 105] \<and> sl_read h' (p_data demo_paste) = [0, 0]"
    using take_delivers [OF demo_ok get live tk]
    by (simp add: demo_paste_def demo_heap_def take_last_def numeral_2_eq_2)
  then show ?thesis using tk by blast
qed

text \<open>The offer of that store, with the draws 0, 0, 0.\<close>

lemma demo_paddedCount: "paddedCount (Suc 0) = 4"
  by (simp add: paddedCount_def while_unfold go_const)

lemma demo_bits: "int_bits 4 = 2" "int_bits 3 = 2" "int_bits 2 = 1"
  by code_simp+

lemma draw_zero:
  assumes "int_bits n = b" and "0 < b" and "b \<le> 8" and "1 < n"
  shows "randIndex n (0 # rs) = Inr (0, rs)"
proof -
  have "int_bytes n = 1" using assms by (auto simp: int_bytes_def)
  then have "rand_Int n (0 # rs) = Inr (0, rs)"
    using assms by (subst rand_Int.simps) (simp add: be_nat_def)
  then show ?thesis using assms(4) by (simp add: randIndex_def)
qed

lemma demo_draws:
  "randIndex (Suc (Suc (Suc (Suc 0)))) (0 # rs) = Inr (0, rs)"
  "randIndex (Suc (Suc (Suc 0))) (0 # rs) = Inr (0, rs)"
  "randIndex (Suc (Suc 0)) (0 # rs) = Inr (0, rs)"
  using draw_zero [OF demo_bits(1)] draw_zero [OF demo_bits(2)] draw_zero [OF demo_bits(3)]
  by (simp_all add: numeral_eq_Suc)

lemma demo_candidates:
  "candidates Second (s_m demo_store) demo_store (0 # 0 # 0 # rs) = Inr ([[9, 9], [9, 9], [9, 9], [1, 2]], rs)"
  by (simp add: candidates_def demo_store_def demo_paste_def is_live_def time_After_def go_const
      demo_paddedCount numeral_3_eq_3 and_then_def demo_draws swap_def)

theorem candidates_offer_witness:
  "candidates Second (s_m demo_store) demo_store [0, 0, 0] = Inr ([[9, 9], [9, 9], [9, 9], [1, 2]], [])
   \<and> live_pastes Second demo_store = s_m demo_store
   \<and> s_decoy demo_store \<in> set [[9, 9], [9, 9], [9, 9], [1, 2]]"
proof -
  have live: "live_pastes Second demo_store = s_m demo_store"
    by (simp add: live_pastes_def demo_store_def demo_paste_def is_live_def time_After_def go_const)
  have "length (live_pastes Second demo_store) < maxCandidates"
    unfolding live by (simp add: demo_store_def go_const)
  from candidates_offer [OF demo_candidates _ this] show ?thesis
    using demo_candidates live by (simp add: visits_def)
qed

section \<open>Deletion, clearing, sweeping\<close>

lemma store_del_ok:
  assumes ok: "store_ok h s" and del: "store_del prs h s = (b, h', s')"
  shows "store_ok h' s'"
proof (cases "mget (s_m s) (pasteKey prs)")
  case None
  then show ?thesis using ok del by (simp add: store_del_def)
next
  case (Some p)
  have pok: "sl_ok h (p_data p)" using store_ok_get [OF ok Some] by (simp add: paste_ok_def)
  have s': "h' = sl_clear (p_data p) h" "s' = s\<lparr>s_m := mdel (pasteKey prs) (s_m s)\<rparr>"
    using del Some by (auto simp: store_del_def burn_def)
  show ?thesis
    unfolding s'
    using ok pok
    by (intro store_ok_sub [OF ok])
      (auto simp: set_mdel length_mdel_le store_ok_def paste_ok_def)
qed

lemma store_drop_ok:
  assumes ok: "store_ok h s" and v: "visits ord (s_m s)"
    and res: "burn_loop P ord h (s_m s) = (h', m')"
  shows "store_ok h' (s\<lparr>s_m := m'\<rparr>)"
    and "m' = filter (\<lambda>(k, p). \<not> P p) (s_m s)"
    and "\<forall>k q. mget m' k = Some q \<longrightarrow> sl_read h' (p_data q) = sl_read h (p_data q)"
proof -
  have wf: "mwf (s_m s)" using ok by (simp add: store_ok_def)
  have so: "set ord = set (s_m s)" using v by (metis visits_def set_mset_mset)
  have h': "h' = fst (burn_loop P ord h (s_m s))" using res by simp
  show m': "m' = filter (\<lambda>(k, p). \<not> P p) (s_m s)"
    using burn_loop_map [of P ord h "s_m s"] res wf v by (simp add: range_delete_visits)
  have oks: "\<forall>(k, p) \<in> set ord. sl_ok h (p_data p)"
    using ok so by (auto simp: store_ok_def paste_ok_def)
  show "store_ok h' (s\<lparr>s_m := m'\<rparr>)"
    unfolding h'
    using ok oks so wf m'
    by (intro store_ok_sub [OF ok] burn_loop_ok) (auto simp: mwf_filter)
  show "\<forall>k q. mget m' k = Some q \<longrightarrow> sl_read h' (p_data q) = sl_read h (p_data q)"
  proof (intro allI impI)
    fix k q assume q: "mget m' k = Some q"
    then have qm: "mget (s_m s) k = Some q" "\<not> P q"
      using wf by (auto simp: m' mget_filter split: option.splits if_splits)
    have ap: "p_data p = NilSlice \<or> sl_addr (p_data p) \<noteq> a"
      if "(k', p) \<in> set ord" "P p" "p_data q = Slice a n" for k' p a n
    proof -
      have pm: "mget (s_m s) k' = Some p" using that(1) so wf by (simp add: mem_mget)
      have "k' \<noteq> k" using pm qm that(2) by auto
      then have "apart (p_data p) (p_data q)"
        using unshared_get [OF _ pm qm(1)] ok by (simp add: store_ok_def)
      then show ?thesis using that(3) by (auto simp: apart_def)
    qed
    have "h_cell h' a = h_cell h a" if "p_data q = Slice a n" for a n
      unfolding h' using ap [OF _ _ that] by (intro burn_loop_other) auto
    then show "sl_read h' (p_data q) = sl_read h (p_data q)" by (rule sl_read_cong)
  qed
qed

lemma store_clear_ok:
  "store_ok h s \<Longrightarrow> visits ord (s_m s) \<Longrightarrow> store_clear ord h s = (h', s') \<Longrightarrow>
   store_ok h' s' \<and> s_m s' = []"
  using store_drop_ok(1,2) [of h s ord "\<lambda>_. True"]
  by (auto simp: store_clear_def split: prod.splits)

lemma store_sweep_ok:
  "store_ok h s \<Longrightarrow> visits ord (s_m s) \<Longrightarrow> store_sweep now ord h s = (h', s') \<Longrightarrow>
   store_ok h' s' \<and> s_m s' = filter (\<lambda>(k, p). \<not> paste_expired now p) (s_m s)
   \<and> (\<forall>k q. mget (s_m s') k = Some q \<longrightarrow> sl_read h' (p_data q) = sl_read h (p_data q))"
  using store_drop_ok [of h s ord "paste_expired now"]
  by (auto simp: store_sweep_def split: prod.splits)

lemma store_del_other:
  assumes ok: "store_ok h s" and del: "store_del prs h s = (b, h', s')"
    and k: "k \<noteq> pasteKey prs" and q: "mget (s_m s) k = Some q"
  shows "sl_read h' (p_data q) = sl_read h (p_data q)"
proof (cases "mget (s_m s) (pasteKey prs)")
  case None
  then show ?thesis using del by (simp add: store_del_def)
next
  case (Some p)
  have h': "h' = sl_clear (p_data p) h" using del Some by (auto simp: store_del_def burn_def)
  have "apart (p_data p) (p_data q)"
    using unshared_get [OF _ Some q] k ok by (auto simp: store_ok_def)
  then show ?thesis unfolding h' by (intro sl_read_cong sl_clear_other) (auto simp: apart_def)
qed

text \<open>Zeroed stays zeroed while the loop burns other entries, and every burned entry is zeroed.\<close>

lemma burn_loop_zeroed:
  "sl_read h t = replicate (sl_len t) 0 \<Longrightarrow> \<forall>(k, p) \<in> set ord. p_data p = t \<or> apart t (p_data p) \<Longrightarrow>
   sl_read (fst (burn_loop P ord h m)) t = replicate (sl_len t) 0"
proof (induction P ord h m rule: burn_loop.induct)
  case (1 P h m)
  then show ?case by simp
next
  case (2 P k p ord h m)
  have "sl_read (sl_clear (p_data p) h) t = replicate (sl_len t) 0"
  proof (cases "p_data p = t")
    case True
    then show ?thesis by simp
  next
    case False
    then have "sl_read (sl_clear (p_data p) h) t = sl_read h t"
      using "2.prems"(2) by (intro sl_read_cong sl_clear_other) (auto simp: apart_def)
    then show ?thesis using "2.prems"(1) by simp
  qed
  then show ?case using 2 by (simp add: burn_def)
qed

lemma burn_loop_erases:
  "(k, p) \<in> set ord \<Longrightarrow> P p \<Longrightarrow>
   \<forall>(k', q) \<in> set ord. p_data q = p_data p \<or> apart (p_data p) (p_data q) \<Longrightarrow>
   sl_read (fst (burn_loop P ord h m)) (p_data p) = replicate (sl_len (p_data p)) 0"
proof (induction P ord h m rule: burn_loop.induct)
  case (1 P h m)
  then show ?case by simp
next
  case (2 P k' p' ord h m)
  show ?case
  proof (cases "p' = p")
    case True
    then show ?thesis
      using "2.prems" burn_loop_zeroed [of "sl_clear (p_data p) h" "p_data p" ord P "mdel k' m"]
      by (simp add: burn_def)
  next
    case False
    then show ?thesis using 2 by auto
  qed
qed

lemma store_drop_erases:
  assumes ok: "store_ok h s" and v: "visits ord (s_m s)"
    and res: "burn_loop P ord h (s_m s) = (h', m')" and p: "mget (s_m s) k = Some p" "P p"
  shows "sl_read h' (p_data p) = replicate (sl_len (p_data p)) 0"
proof -
  have so: "set ord = set (s_m s)" using v by (metis visits_def set_mset_mset)
  have wf: "mwf (s_m s)" and un: "unshared (s_m s)" using ok by (simp_all add: store_ok_def)
  have "p_data q = p_data p \<or> apart (p_data p) (p_data q)" if "(k', q) \<in> set ord" for k' q
  proof (cases "k' = k")
    case True
    then show ?thesis using that so wf p by (simp add: mem_mget)
  next
    case False
    have "mget (s_m s) k' = Some q" using that so wf by (simp add: mem_mget)
    then show ?thesis using unshared_get [OF un p(1)] False by auto
  qed
  then have "sl_read (fst (burn_loop P ord h (s_m s))) (p_data p) = replicate (sl_len (p_data p)) 0"
    using p so by (intro burn_loop_erases) (auto dest: mget_Some_mem)
  then show ?thesis using res by simp
qed

end
