(* ===== verification/Store_Spec.thy ===== *)
theory Store_Spec
  imports Store
begin

text \<open>
  What the store promises, apart from its maps, buffers and counters: a partial function from
  secrets to a payload, the fetches left and the expiry. \<open>store_step\<close> is the store as the
  daemon drives it, one method call at a time under the mutex, with writes of the callers to
  their own buffers in between; \<open>spec_step\<close> is the contract. Every step of the store is a
  step of the contract (a functional refinement), so what holds of all histories of the
  contract holds of the store.
\<close>

section \<open>The contract\<close>

record spec_entry =
  se_body :: "bytes option"
  se_left :: "nat option"
  se_expires :: gotime

type_synonym spec_store = "bytes \<Rightarrow> spec_entry option"

text \<open>A call and what it returned. \<open>EvWrite\<close> is a caller writing to a buffer of its own.\<close>

datatype store_event =
    EvAdd bytes bytes gotime int "go_error option"
  | EvTake gotime bytes "bytes option"
  | EvDel bytes bool
  | EvClear
  | EvSweep gotime
  | EvWrite

definition spec_new :: "bytes \<Rightarrow> gotime \<Rightarrow> int \<Rightarrow> spec_entry" where
  "spec_new body expires mx =
     \<lparr>se_body = Some body, se_left = (if 0 < mx then Some (nat mx) else None), se_expires = expires\<rparr>"

definition spec_adding :: "spec_store \<Rightarrow> bytes \<Rightarrow> go_error option" where
  "spec_adding A prs =
     (if maxPastes \<le> card (dom A) then Some ErrTooMany
      else if A prs \<noteq> None then Some ErrCollision else None)"

definition spec_taking :: "spec_store \<Rightarrow> gotime \<Rightarrow> bytes \<Rightarrow> bytes option" where
  "spec_taking A now prs =
     (case A prs of None \<Rightarrow> None
      | Some e \<Rightarrow> if time_After now (se_expires e) then None else se_body e)"

definition spec_spend :: "spec_entry \<Rightarrow> spec_entry" where
  "spec_spend e =
     (case se_left e of None \<Rightarrow> e
      | Some n \<Rightarrow> e\<lparr>se_left := Some (n - 1), se_body := (if n \<le> 1 then None else se_body e)\<rparr>)"

fun spec_step :: "spec_store \<Rightarrow> store_event \<Rightarrow> spec_store option" where
  "spec_step A (EvAdd prs body expires mx err) =
     (if err = spec_adding A prs
      then Some (if err = None then A(prs \<mapsto> spec_new body expires mx) else A) else None)"
| "spec_step A (EvTake now prs res) =
     (if res = spec_taking A now prs
      then Some (if res = None then A else A(prs := map_option spec_spend (A prs))) else None)"
| "spec_step A (EvDel prs b) =
     (if b = (A prs \<noteq> None) then Some (A(prs := None)) else None)"
| "spec_step A EvClear = Some Map.empty"
| "spec_step A (EvSweep now) =
     Some (\<lambda>prs. case A prs of None \<Rightarrow> None
        | Some e \<Rightarrow> if time_After now (se_expires e) then None else Some e)"
| "spec_step A EvWrite = Some A"

fun spec_run :: "spec_store \<Rightarrow> store_event list \<Rightarrow> spec_store option" where
  "spec_run A [] = Some A"
| "spec_run A (ev # evs) = Option.bind (spec_step A ev) (\<lambda>A'. spec_run A' evs)"

section \<open>The store, step by step\<close>

text \<open>The entry \<^verbatim>\<open>handlePost\<close> builds.\<close>

definition posted :: "string \<Rightarrow> bytes \<Rightarrow> gotime \<Rightarrow> int \<Rightarrow> slice \<Rightarrow> paste" where
  "posted label prs expires mx data =
     \<lparr>p_Label = label, p_Size = int (sl_len data), p_ExpiresAt = expires, p_MaxGets = mx,
      p_Gets = 0, p_Burned = False, p_prs = prs, p_data = data\<rparr>"

inductive store_step :: "heap \<times> store \<Rightarrow> store_event \<Rightarrow> heap \<times> store \<Rightarrow> bool" where
  step_add: "sl_new body h = (d, h') \<Longrightarrow> store_add (posted label prs expires mx d) s = Inr s' \<Longrightarrow>
    store_step (h, s) (EvAdd prs body expires mx None) (h', s')"
| step_add_fails: "sl_new body h = (d, h') \<Longrightarrow> store_add (posted label prs expires mx d) s = Inl e \<Longrightarrow>
    store_step (h, s) (EvAdd prs body expires mx (Some e)) (h', s)"
| step_take: "store_take now prs h s = (b, h', s') \<Longrightarrow>
    store_step (h, s) (EvTake now prs (if b = NilSlice then None else Some (sl_read h' b))) (h', s')"
| step_del: "store_del prs h s = (b, h', s') \<Longrightarrow> store_step (h, s) (EvDel prs b) (h', s')"
| step_clear: "visits ord (s_m s) \<Longrightarrow> store_clear ord h s = (h', s') \<Longrightarrow>
    store_step (h, s) EvClear (h', s')"
| step_sweep: "visits ord (s_m s) \<Longrightarrow> store_sweep now ord h s = (h', s') \<Longrightarrow>
    store_step (h, s) (EvSweep now) (h', s')"
| step_write: "\<forall>e \<in> set (s_m s). apart (p_data (snd e)) (Slice a 0) \<Longrightarrow> h_next h \<le> n \<Longrightarrow>
    store_step (h, s) EvWrite (h\<lparr>h_next := n, h_cell := (h_cell h)(a := bs)\<rparr>, s)"

inductive store_run :: "heap \<times> store \<Rightarrow> store_event list \<Rightarrow> heap \<times> store \<Rightarrow> bool" where
  run_done: "store_run c [] c"
| run_more: "store_step c ev c' \<Longrightarrow> store_run c' evs c'' \<Longrightarrow> store_run c (ev # evs) c''"

section \<open>The refinement\<close>

definition abs_entry :: "heap \<Rightarrow> paste \<Rightarrow> spec_entry" where
  "abs_entry h p =
     \<lparr>se_body = (if p_Burned p then None else Some (sl_read h (p_data p))),
      se_left = (if 0 < p_MaxGets p then Some (nat (p_MaxGets p - p_Gets p)) else None),
      se_expires = p_ExpiresAt p\<rparr>"

definition abs_store :: "heap \<Rightarrow> store \<Rightarrow> spec_store" where
  "abs_store h s = (\<lambda>prs. map_option (abs_entry h) (mget (s_m s) (pasteKey prs)))"

lemma pasteKey_inj [simp]: "pasteKey p = pasteKey q \<longleftrightarrow> p = q"
  by (metis hex_encode_inj injD pasteKey_def)

lemma abs_entry_cong: "sl_read h' (p_data p) = sl_read h (p_data p) \<Longrightarrow> abs_entry h' p = abs_entry h p"
  by (simp add: abs_entry_def)

text \<open>Two stores with the same entries and the same payloads in the heap are the same to the contract.\<close>

lemma abs_store_cong:
  assumes "\<And>k p. mget (s_m s') k = Some p \<Longrightarrow> sl_read h' (p_data p) = sl_read h (p_data p)"
    and "s_m s' = s_m s"
  shows "abs_store h' s' = abs_store h s"
  unfolding abs_store_def using assms
  by (auto intro!: ext abs_entry_cong simp: map_option_case split: option.splits)

lemma abs_store_dom:
  assumes "store_ok h s"
  shows "card (dom (abs_store h s)) = length (s_m s)"
proof -
  have wf: "mwf (s_m s)" using assms by (simp add: store_ok_def)
  have "pasteKey ` dom (abs_store h s) = fst ` set (s_m s)"
  proof (intro equalityI subsetI)
    fix k assume "k \<in> pasteKey ` dom (abs_store h s)"
    then show "k \<in> fst ` set (s_m s)"
      by (auto simp: abs_store_def dest!: mget_Some_mem intro: rev_image_eqI)
  next
    fix k assume "k \<in> fst ` set (s_m s)"
    then obtain p where kp: "(k, p) \<in> set (s_m s)" by auto
    then have "k = pasteKey (p_prs p)" using assms by (auto simp: store_ok_def paste_ok_def)
    moreover have "mget (s_m s) k = Some p" using kp wf by (simp add: mem_mget)
    ultimately show "k \<in> pasteKey ` dom (abs_store h s)" by (auto simp: abs_store_def)
  qed
  then have "card (dom (abs_store h s)) = card (fst ` set (s_m s))"
    by (metis card_image inj_on_def pasteKey_inj)
  also have "\<dots> = length (s_m s)"
    using wf by (metis distinct_card length_map list.set_map mwf_def)
  finally show ?thesis .
qed

lemma new_body_frame:
  assumes "store_ok h s" and "sl_new body h = (d, h')"
  shows "store_ok h' s" and "abs_store h' s = abs_store h s"
    and "new_paste h' s (posted label prs expires mx d)" and "sl_read h' d = body"
proof -
  note fresh = sl_new_fresh [OF assms(2)]
  have ok: "sl_ok h (p_data p)" if "e \<in> set (s_m s)" "p = snd e" for e p
    using assms(1) that by (auto simp: store_ok_def paste_ok_def)
  have cell: "h_cell h' (sl_addr (p_data p)) = h_cell h (sl_addr (p_data p))"
    if "e \<in> set (s_m s)" "p = snd e" "p_data p \<noteq> NilSlice" for e p
    using ok [OF that(1,2)] that(3) by (intro fresh(5)) (cases "p_data p"; simp)
  have "sl_ok h' (p_data (snd e))" if "e \<in> set (s_m s)" for e
    using ok [OF that refl] cell [OF that refl] fresh(2) by (cases "p_data (snd e)") auto
  then show "store_ok h' s"
    using store_ok_sub [OF assms(1), of "s_m s" h'] assms(1) by (simp add: store_ok_def)
  show "abs_store h' s = abs_store h s"
  proof (rule abs_store_cong)
    fix k p assume "mget (s_m s) k = Some p"
    then have m: "(k, p) \<in> set (s_m s)" by (rule mget_Some_mem)
    show "sl_read h' (p_data p) = sl_read h (p_data p)"
      using cell [OF m] by (intro sl_read_cong) auto
  qed simp
  have "apart d (p_data (snd e))" if "e \<in> set (s_m s)" for e
    using ok [OF that refl] fresh(1) by (cases "p_data (snd e)") (auto simp: apart_def)
  then show "new_paste h' s (posted label prs expires mx d)"
    using fresh by (simp add: new_paste_def posted_def)
  show "sl_read h' d = body" by (rule fresh(4))
qed

lemma store_add_outcome:
  "store_ok h s \<Longrightarrow> store_add p s =
     (case spec_adding (abs_store h s) (p_prs p) of Some e \<Rightarrow> Inl e
      | None \<Rightarrow> Inr (s\<lparr>s_m := mput (pasteKey (p_prs p)) p (s_m s)\<rparr>))"
  unfolding store_add_def spec_adding_def
  by (simp only: abs_store_dom) (simp add: abs_store_def)

lemma refine_add:
  assumes ok: "store_ok h s" and new: "sl_new body h = (d, h')"
    and add: "store_add (posted label prs expires mx d) s = Inr s'"
  shows "store_ok h' s'"
    and "spec_step (abs_store h s) (EvAdd prs body expires mx None) = Some (abs_store h' s')"
proof -
  note fr = new_body_frame [OF ok new]
  show "store_ok h' s'" by (rule store_add_ok [OF fr(1,3) add])
  have sp: "spec_adding (abs_store h s) prs = None"
    and s': "s' = s\<lparr>s_m := mput (pasteKey prs) (posted label prs expires mx d) (s_m s)\<rparr>"
    using add store_add_outcome [OF ok, of "posted label prs expires mx d"]
    by (auto simp: posted_def split: option.splits)
  have e: "abs_entry h' (posted label prs expires mx d) = spec_new body expires mx"
    using fr(4) by (simp add: abs_entry_def posted_def spec_new_def)
  have "abs_store h' s' = (abs_store h s)(prs \<mapsto> spec_new body expires mx)"
    unfolding fr(2) [symmetric] by (auto simp: abs_store_def s' e)
  then show "spec_step (abs_store h s) (EvAdd prs body expires mx None) = Some (abs_store h' s')"
    by (simp add: sp)
qed

lemma refine_add_fails:
  assumes ok: "store_ok h s" and new: "sl_new body h = (d, h')"
    and add: "store_add (posted label prs expires mx d) s = Inl e"
  shows "store_ok h' s"
    and "spec_step (abs_store h s) (EvAdd prs body expires mx (Some e)) = Some (abs_store h' s)"
proof -
  note fr = new_body_frame [OF ok new]
  show "store_ok h' s" by (rule fr(1))
  have "spec_adding (abs_store h s) prs = Some e"
    using add store_add_outcome [OF ok, of "posted label prs expires mx d"]
    by (auto simp: posted_def split: option.splits)
  then show "spec_step (abs_store h s) (EvAdd prs body expires mx (Some e)) = Some (abs_store h' s)"
    by (simp add: fr(2))
qed

lemma spec_taking_abs:
  assumes ok: "store_ok h s"
  shows "spec_taking (abs_store h s) now prs =
    (case mget (s_m s) (pasteKey prs) of None \<Rightarrow> None
     | Some p \<Rightarrow> if is_live now p then Some (sl_read h (p_data p)) else None)"
  by (auto simp: spec_taking_def abs_store_def abs_entry_def is_live_def split: option.splits)

lemma abs_taken:
  assumes "paste_ok h k p" and "is_live now p"
    and "\<not> take_last p \<Longrightarrow> sl_read h' (p_data p) = sl_read h (p_data p)"
  shows "abs_entry h' (taken_paste p) = spec_spend (abs_entry h p)"
  using assms
  by (auto simp: abs_entry_def taken_paste_def take_last_def spec_spend_def paste_ok_def is_live_def
      nat_diff_distrib' split: if_splits)

lemma refine_take:
  assumes ok: "store_ok h s" and tk: "store_take now prs h s = (b, h', s')"
  shows "spec_step (abs_store h s) (EvTake now prs (if b = NilSlice then None else Some (sl_read h' b)))
    = Some (abs_store h' s')"
proof (cases "\<exists>p. mget (s_m s) (pasteKey prs) = Some p \<and> is_live now p")
  case False
  then have "store_take now prs h s = (NilSlice, h, s)"
    by (intro store_take_none) (auto split: option.splits)
  moreover have "spec_taking (abs_store h s) now prs = None"
    using False by (auto simp: spec_taking_abs [OF ok] split: option.splits)
  ultimately show ?thesis using tk by simp
next
  case True
  then obtain p where p: "mget (s_m s) (pasteKey prs) = Some p" "is_live now p" by auto
  note tf = take_facts [OF ok p tk]
  have pok: "paste_ok h (pasteKey prs) p" by (rule store_ok_get [OF ok p(1)])
  have ap: "abs_entry h' (taken_paste p) = spec_spend (abs_entry h p)"
    using tf(7) by (intro abs_taken [OF pok p(2)]) simp
  have s': "s_m s' = mput (pasteKey prs) (taken_paste p) (s_m s)"
    using tk store_take_live [OF p, of h] pok by (auto simp: paste_ok_def)
  have "abs_store h' s' q = ((abs_store h s)(prs := map_option spec_spend (abs_store h s prs))) q" for q
  proof (cases "q = prs")
    case True
    then show ?thesis using p(1) by (simp add: abs_store_def s' ap)
  next
    case False
    then have "abs_entry h' x = abs_entry h x" if "mget (s_m s) (pasteKey q) = Some x" for x
      using tf(6) that by (intro abs_entry_cong) (metis pasteKey_inj)
    then show ?thesis using False
      by (cases "mget (s_m s) (pasteKey q)") (simp_all add: abs_store_def s')
  qed
  then have "abs_store h' s' = (abs_store h s)(prs := map_option spec_spend (abs_store h s prs))" ..
  then show ?thesis using tf(1,4) p by (simp add: spec_taking_abs [OF ok])
qed

lemma refine_del:
  assumes ok: "store_ok h s" and del: "store_del prs h s = (b, h', s')"
  shows "spec_step (abs_store h s) (EvDel prs b) = Some (abs_store h' s')"
proof -
  have b: "b = (abs_store h s prs \<noteq> None)"
    using del by (auto simp: store_del_def abs_store_def split: option.splits)
  have m: "mget (s_m s') k = (if k = pasteKey prs then None else mget (s_m s) k)" for k
    using del by (auto simp: store_del_def split: option.splits)
  have "abs_store h' s' q = ((abs_store h s)(prs := None)) q" for q
  proof (cases "q = prs")
    case True
    then show ?thesis by (simp add: abs_store_def m)
  next
    case False
    then have "abs_entry h' x = abs_entry h x" if "mget (s_m s) (pasteKey q) = Some x" for x
      using that by (intro abs_entry_cong store_del_other [OF ok del]) auto
    then show ?thesis using False
      by (cases "mget (s_m s) (pasteKey q)") (simp_all add: abs_store_def m)
  qed
  then have "abs_store h' s' = (abs_store h s)(prs := None)" ..
  then show ?thesis using b by simp
qed

lemma refine_clear:
  assumes "store_ok h s" and "visits ord (s_m s)" and "store_clear ord h s = (h', s')"
  shows "spec_step (abs_store h s) EvClear = Some (abs_store h' s')"
  using store_clear_ok [OF assms] by (auto simp: abs_store_def)

lemma refine_sweep:
  assumes ok: "store_ok h s" and v: "visits ord (s_m s)" and sw: "store_sweep now ord h s = (h', s')"
  shows "spec_step (abs_store h s) (EvSweep now) = Some (abs_store h' s')"
proof -
  note res = store_sweep_ok [OF ok v sw]
  have wf: "mwf (s_m s)" using ok by (simp add: store_ok_def)
  have "s_m s' = sweep_pastes now ord (s_m s)"
    using store_sweep_map [of now ord h s] sw by simp
  then have m: "mget (s_m s') k = (case mget (s_m s) k of None \<Rightarrow> None
      | Some p \<Rightarrow> if paste_expired now p then None else Some p)" for k
    using paste_sweep.sweep_get [OF wf v] by simp
  have "abs_store h' s' q = (case abs_store h s q of None \<Rightarrow> None
      | Some e \<Rightarrow> if time_After now (se_expires e) then None else Some e)" for q
  proof (cases "mget (s_m s) (pasteKey q)")
    case None
    then show ?thesis by (simp add: abs_store_def m)
  next
    case (Some p)
    have "abs_entry h' p = abs_entry h p" if "\<not> paste_expired now p"
      using res Some that m [of "pasteKey q"] by (intro abs_entry_cong) auto
    then show ?thesis using Some by (auto simp: abs_store_def m paste_expired_def abs_entry_def)
  qed
  then show ?thesis by auto
qed

lemma refine_write:
  assumes ok: "store_ok h s" and a: "\<forall>e \<in> set (s_m s). apart (p_data (snd e)) (Slice a 0)"
    and n: "h_next h \<le> n" and h': "h' = h\<lparr>h_next := n, h_cell := (h_cell h)(a := bs)\<rparr>"
  shows "store_ok h' s" and "abs_store h' s = abs_store h s"
proof -
  have cell: "h_cell h' (sl_addr (p_data (snd e))) = h_cell h (sl_addr (p_data (snd e)))"
    if "e \<in> set (s_m s)" "p_data (snd e) \<noteq> NilSlice" for e
    using a that by (auto simp: h' apart_def)
  have "sl_ok h' (p_data (snd e))" if "e \<in> set (s_m s)" for e
    using cell [OF that] ok n that
    by (cases "p_data (snd e)") (auto simp: store_ok_def paste_ok_def h')
  then show "store_ok h' s"
    using store_ok_sub [OF ok, of "s_m s" h'] ok by (simp add: store_ok_def)
  show "abs_store h' s = abs_store h s"
  proof (rule abs_store_cong)
    fix k p assume "mget (s_m s) k = Some p"
    then have "(k, p) \<in> set (s_m s)" by (rule mget_Some_mem)
    then show "sl_read h' (p_data p) = sl_read h (p_data p)"
      using cell [of "(k, p)"] by (intro sl_read_cong) auto
  qed simp
qed

lemma step_refines:
  "store_step c ev c' \<Longrightarrow> store_ok (fst c) (snd c) \<Longrightarrow>
   store_ok (fst c') (snd c')
   \<and> spec_step (abs_store (fst c) (snd c)) ev = Some (abs_store (fst c') (snd c'))"
  unfolding conj_commute [of "store_ok (fst c') (snd c')"]
proof (induction rule: store_step.induct)
  case (step_add body h d h' label prs expires mx s s')
  then have ok: "store_ok h s" by simp
  show ?case
    unfolding fst_conv snd_conv
    by (intro conjI refine_add(2) [OF ok step_add(1,2)]
        refine_add(1) [OF ok step_add(1,2)])
next
  case (step_add_fails body h d h' label prs expires mx s e)
  then have ok: "store_ok h s" by simp
  show ?case
    unfolding fst_conv snd_conv
    by (intro conjI refine_add_fails(2) [OF ok step_add_fails(1,2)]
        refine_add_fails(1) [OF ok step_add_fails(1,2)])
next
  case (step_take now prs h s b h' s')
  then have ok: "store_ok h s" by simp
  show ?case
    unfolding fst_conv snd_conv
    by (intro conjI refine_take [OF ok step_take(1)]
        store_take_ok [OF ok step_take(1)])
next
  case (step_del prs h s b h' s')
  then have ok: "store_ok h s" by simp
  show ?case
    unfolding fst_conv snd_conv
    by (intro conjI refine_del [OF ok step_del(1)]
        store_del_ok [OF ok step_del(1)])
next
  case (step_clear ord s h h' s')
  then have ok: "store_ok h s" by simp
  show ?case
    unfolding fst_conv snd_conv
    by (intro conjI refine_clear [OF ok step_clear(1,2)]
        conjunct1 [OF store_clear_ok [OF ok step_clear(1,2)]])
next
  case (step_sweep ord s now h h' s')
  then have ok: "store_ok h s" by simp
  show ?case
    unfolding fst_conv snd_conv
    by (intro conjI refine_sweep [OF ok step_sweep(1,2)]
        conjunct1 [OF store_sweep_ok [OF ok step_sweep(1,2)]])
next
  case (step_write s a h n bs)
  then have "store_ok h s" by simp
  from refine_write [OF this step_write(1,2) refl] show ?case by simp
qed

lemma run_refines:
  "store_run c evs c' \<Longrightarrow> store_ok (fst c) (snd c) \<Longrightarrow>
   store_ok (fst c') (snd c')
   \<and> spec_run (abs_store (fst c) (snd c)) evs = Some (abs_store (fst c') (snd c'))"
  by (induction rule: store_run.induct) (use step_refines in \<open>simp_all del: spec_step.simps\<close>)

section \<open>Histories of the contract\<close>

text \<open>The successful fetches of a secret in a history, and the events that can end its paste early.\<close>

fun fetched :: "bytes \<Rightarrow> store_event list \<Rightarrow> (gotime \<times> bytes) list" where
  "fetched prs [] = []"
| "fetched prs (EvTake now q (Some b) # evs) =
     (if q = prs then (now, b) # fetched prs evs else fetched prs evs)"
| "fetched prs (_ # evs) = fetched prs evs"

fun readds :: "bytes \<Rightarrow> store_event \<Rightarrow> bool" where
  "readds prs (EvAdd q body expires mx None) = (q = prs)"
| "readds prs _ = False"

fun ends :: "bytes \<Rightarrow> gotime \<Rightarrow> store_event \<Rightarrow> bool" where
  "ends prs expires (EvDel q b) = (q = prs)"
| "ends prs expires EvClear = True"
| "ends prs expires (EvSweep now) = time_After now expires"
| "ends prs expires _ = False"

text \<open>What every fetch of a paste must answer when \<open>n\<close> fetches are left (\<^verbatim>\<open>None\<close>: no limit).\<close>

fun served :: "bytes \<Rightarrow> bytes \<Rightarrow> gotime \<Rightarrow> nat option \<Rightarrow> store_event list \<Rightarrow> bool" where
  "served prs body expires n [] = True"
| "served prs body expires n (EvTake now q res # evs) =
     (if q = prs
      then res = (if time_After now expires \<or> n = Some 0 then None else Some body)
        \<and> served prs body expires (if res = None then n else map_option (\<lambda>k. k - 1) n) evs
      else served prs body expires n evs)"
| "served prs body expires n (_ # evs) = served prs body expires n evs"

definition holds :: "bytes \<Rightarrow> gotime \<Rightarrow> nat option \<Rightarrow> spec_entry \<Rightarrow> bool" where
  "holds body expires n e \<longleftrightarrow>
     se_expires e = expires \<and> se_left e = n
     \<and> se_body e = (if n = Some 0 then None else Some body)"

lemma holds_spend: "holds body expires n e \<Longrightarrow> holds body expires (map_option (\<lambda>k. k - 1) n) (spec_spend e)"
  by (cases n) (auto simp: holds_def spec_spend_def)

lemma holds_new: "holds body expires (if 0 < mx then Some (nat mx) else None) (spec_new body expires mx)"
  by (simp add: holds_def spec_new_def)

lemma holds_taking:
  "A prs = Some e \<Longrightarrow> holds body expires n e \<Longrightarrow>
   spec_taking A now prs = (if time_After now expires \<or> n = Some 0 then None else Some body)"
  by (auto simp: spec_taking_def holds_def)

text \<open>A step keeps an entry, or spends one of its fetches, or ends it.\<close>

lemma spec_step_holds:
  assumes "spec_step A ev = Some A'" and "A prs = Some e" and "holds body expires n e"
    and "\<not> readds prs ev"
  shows "(A' prs = None \<and> ends prs expires ev \<and> fetched prs [ev] = [])
    \<or> (\<exists>e'. A' prs = Some e' \<and> (case ev of
         EvTake now q (Some b) \<Rightarrow>
           if q = prs then b = body \<and> \<not> time_After now expires \<and> n \<noteq> Some 0
             \<and> holds body expires (map_option (\<lambda>k. k - 1) n) e'
           else holds body expires n e'
       | _ \<Rightarrow> holds body expires n e'))"
  using assms
proof (cases ev)
  case (EvTake now q res)
  then show ?thesis
    using assms holds_taking [of A prs, OF assms(2,3)] holds_spend [OF assms(3)]
    by (cases res; cases "q = prs") (auto split: if_splits)
qed (auto simp: holds_def split: if_splits option.splits)

lemma spec_step_absent:
  "spec_step A ev = Some A' \<Longrightarrow> A prs = None \<Longrightarrow> \<not> readds prs ev \<Longrightarrow>
   A' prs = None \<and> fetched prs [ev] = []"
  by (cases ev) (auto simp: spec_taking_def split: if_splits option.splits)

lemma fetched_Cons: "fetched prs (ev # evs) = fetched prs [ev] @ fetched prs evs"
proof (cases ev)
  case (EvTake now q res)
  then show ?thesis by (cases res) auto
qed auto

lemma spec_fetched_absent:
  "spec_run A evs = Some A' \<Longrightarrow> A prs = None \<Longrightarrow> \<forall>ev \<in> set evs. \<not> readds prs ev \<Longrightarrow>
   fetched prs evs = []"
proof (induction evs arbitrary: A)
  case (Cons ev evs)
  then obtain B where "spec_step A ev = Some B" "spec_run B evs = Some A'"
    by (auto simp: bind_eq_Some_conv)
  then show ?case
    using Cons.IH Cons.prems(2,3) spec_step_absent fetched_Cons [of prs ev evs] by fastforce
qed simp

lemma spec_fetched:
  "spec_run A evs = Some A' \<Longrightarrow> A prs = Some e \<Longrightarrow> holds body expires n e \<Longrightarrow>
   \<forall>ev \<in> set evs. \<not> readds prs ev \<Longrightarrow>
   (\<forall>(now, b) \<in> set (fetched prs evs). b = body \<and> \<not> time_After now expires)
   \<and> (\<forall>k. n = Some k \<longrightarrow> length (fetched prs evs) \<le> k)"
proof (induction evs arbitrary: A e n)
  case (Cons ev evs)
  then obtain B where B: "spec_step A ev = Some B" "spec_run B evs = Some A'"
    by (auto simp: bind_eq_Some_conv)
  have nr: "\<not> readds prs ev" "\<forall>ev \<in> set evs. \<not> readds prs ev" using Cons.prems(4) by auto
  show ?case
  proof (cases "B prs")
    case None
    then have "fetched prs evs = []" using spec_fetched_absent [OF B(2) _ nr(2)] by simp
    moreover have "fetched prs [ev] = []"
      using spec_step_holds [OF B(1) Cons.prems(2,3) nr(1)] None by auto
    ultimately show ?thesis using fetched_Cons [of prs ev evs] by simp
  next
    case (Some e')
    show ?thesis
      using spec_step_holds [OF B(1) Cons.prems(2,3) nr(1)] Some
        Cons.IH [OF B(2) Some _ nr(2)]
      by (cases n) (fastforce split: store_event.splits option.splits if_splits)+
  qed
qed simp

lemma spec_served:
  "spec_run A evs = Some A' \<Longrightarrow> A prs = Some e \<Longrightarrow> holds body expires n e \<Longrightarrow>
   \<forall>ev \<in> set evs. \<not> readds prs ev \<and> \<not> ends prs expires ev \<Longrightarrow> served prs body expires n evs"
proof (induction evs arbitrary: A e n)
  case (Cons ev evs)
  then obtain B where B: "spec_step A ev = Some B" "spec_run B evs = Some A'"
    by (auto simp: bind_eq_Some_conv)
  have nr: "\<not> readds prs ev" "\<not> ends prs expires ev"
    "\<forall>ev \<in> set evs. \<not> readds prs ev \<and> \<not> ends prs expires ev" using Cons.prems(4) by auto
  obtain e' where e': "B prs = Some e'"
    using spec_step_holds [OF B(1) Cons.prems(2,3) nr(1)] nr(2) by auto
  note st = spec_step_holds [OF B(1) Cons.prems(2,3) nr(1)]
  note IH = Cons.IH [OF B(2) e' _ nr(3)]
  show ?case
  proof (cases ev)
    case (EvTake now q res)
    then have "q = prs \<Longrightarrow> res = (if time_After now expires \<or> n = Some 0 then None else Some body)"
      using B(1) holds_taking [of A prs, OF Cons.prems(2,3)] by (auto split: if_splits)
    then show ?thesis using st IH e' EvTake by (cases res) (auto split: if_splits)
  qed (use st IH e' in auto)
qed simp

section \<open>Histories of the store\<close>

lemma added_holds:
  assumes "store_ok h s" and "store_step (h, s) (EvAdd prs body expires mx None) (h1, s1)"
  shows "store_ok h1 s1"
    and "\<exists>e. abs_store h1 s1 prs = Some e \<and> holds body expires (if 0 < mx then Some (nat mx) else None) e"
proof -
  note st = step_refines [OF assms(2)]
  show "store_ok h1 s1" using st assms(1) by simp
  have "abs_store h1 s1 = (abs_store h s)(prs \<mapsto> spec_new body expires mx)"
    using st assms(1) by (simp split: if_splits)
  then have "abs_store h1 s1 prs = Some (spec_new body expires mx)" by simp
  then show "\<exists>e. abs_store h1 s1 prs = Some e \<and> holds body expires (if 0 < mx then Some (nat mx) else None) e"
    using holds_new by blast
qed

text \<open>A store that serves a paste once: the history of the witnesses below.\<close>

definition demo_empty :: "heap \<times> store" where
  "demo_empty = (empty_heap, \<lparr>s_m = [], s_decoy = [9]\<rparr>)"

definition demo_added :: "heap \<times> store" where
  "demo_added = (\<lparr>h_next = 1, h_cell = (\<lambda>_. [])(0 := [7])\<rparr>,
     \<lparr>s_m = [(pasteKey [1], posted [] [1] Hour 1 (Slice 0 1))], s_decoy = [9]\<rparr>)"

lemma demo_empty_ok: "store_ok (fst demo_empty) (snd demo_empty)"
  by (simp add: demo_empty_def store_ok_def unshared_def)

lemma demo_add: "store_step demo_empty (EvAdd [1] [7] Hour 1 None) demo_added"
  unfolding demo_empty_def demo_added_def
  by (rule step_add [where d = "Slice 0 1" and label = "[]"])
    (simp_all add: sl_new_def empty_heap_def store_add_def posted_def mput_def go_const)

lemma spec_take_at:
  "spec_step A (EvTake now prs res) = Some A' \<Longrightarrow> A prs = Some e \<Longrightarrow>
   res = (if time_After now (se_expires e) then None else se_body e)
   \<and> A' prs = (if res = None then Some e else Some (spec_spend e))"
  by (auto simp: spec_taking_def split: if_splits)

lemma demo_takes: "\<exists>c. store_run demo_added [EvTake Second [1] (Some [7]), EvTake Second [1] None] c"
proof -
  obtain h s where hs: "demo_added = (h, s)" by (cases demo_added)
  note st = step_refines [OF demo_add demo_empty_ok]
  have ok: "store_ok h s" using conjunct1 [OF st] unfolding hs fst_conv snd_conv .
  have "abs_store h s = (abs_store (fst demo_empty) (snd demo_empty))([1] \<mapsto> spec_new [7] Hour 1)"
    using conjunct2 [OF st] unfolding hs fst_conv snd_conv by (simp split: if_splits)
  then have ab: "abs_store h s [1] = Some (spec_new [7] Hour 1)" by simp
  obtain b h' s' where t1: "store_take Second [1] h s = (b, h', s')" using prod_cases3 by blast
  obtain b2 h2 s2 where t2: "store_take Second [1] h' s' = (b2, h2, s2)" using prod_cases3 by blast
  note st1 = step_take [OF t1] and st2 = step_take [OF t2]
  have ex: "\<not> time_After Second Hour" by (simp add: time_After_def go_const)
  note sp1 = spec_take_at [OF refine_take [OF ok t1] ab]
  have r1: "(if b = NilSlice then None else Some (sl_read h' b)) = Some [7]"
    using conjunct1 [OF sp1] ex by (simp add: spec_new_def)
  have ab': "abs_store h' s' [1] = Some (spec_spend (spec_new [7] Hour 1))"
    using conjunct2 [OF sp1] unfolding r1 by simp
  have r2: "(if b2 = NilSlice then None else Some (sl_read h2 b2)) = None"
    using conjunct1 [OF spec_take_at [OF refine_take [OF store_take_ok [OF ok t1] t2] ab']]
    by (simp add: spec_new_def spec_spend_def)
  show ?thesis
    using run_more [OF st1 [unfolded r1] run_more [OF st2 [unfolded r2] run_done]] hs by auto
qed

text \<open>C1: The store implements its contract: in every history of the daemon's calls, from the empty
  store on, with the callers free to write to their own buffers between calls, every call answers
  as the contract (secret to payload, fetches left, expiry) says, and the store's invariant holds
  (at most 256 entries, each under the key of its secret, payload buffers unshared, burned exactly
  when spent).\<close>

theorem store_refines_spec:
  assumes "newStore rs = Inr (s, rs')" and "store_run (h, s) evs (h', s')"
  shows "spec_run Map.empty evs = Some (abs_store h' s') \<and> store_ok h' s'"
proof -
  have "abs_store h s = Map.empty"
    using assms(1) by (auto simp: newStore_def and_then_Inr_iff abs_store_def rand_Read_def)
  then show ?thesis using run_refines [OF assms(2)] newStore_ok [OF assms(1)] by simp
qed

theorem store_refines_spec_witness:
  "\<exists>s h' s'. newStore (replicate 32 9) = Inr (s, [])
     \<and> spec_run Map.empty [EvClear] = Some (abs_store h' s') \<and> store_ok h' s'"
proof -
  let ?s = "\<lparr>s_m = [], s_decoy = replicate 32 9\<rparr>"
  have new: "newStore (replicate 32 9) = Inr (?s, [])"
    by (simp add: newStore_def rand_Read_def and_then_def go_const)
  have "store_step (empty_heap, ?s) EvClear (empty_heap, ?s)"
    by (rule step_clear [where ord = "[]"]) (simp_all add: visits_def store_clear_def)
  then have run: "store_run (empty_heap, ?s) [EvClear] (empty_heap, ?s)"
    by (rule run_more) (rule run_done)
  show ?thesis using new store_refines_spec [OF new run] by blast
qed

text \<open>\<^verbatim>\<open>MaxGets\<close> bounds the fetches: however a history of the store goes on after a paste
  was added with a limit (fetches, deletions, sweeps, other pastes, writes to the returned
  buffers), until the same secret is stored anew at most that many fetches of it succeed, each
  returns exactly its bytes, and none after its expiry.\<close>

lemma max_gets_respected:
  assumes "store_ok h s" and "store_step (h, s) (EvAdd prs body expires mx None) (h1, s1)"
    and "store_run (h1, s1) evs (h2, s2)" and "\<forall>ev \<in> set evs. \<not> readds prs ev"
  shows "(0 < mx \<longrightarrow> length (fetched prs evs) \<le> nat mx)
    \<and> (\<forall>(now, b) \<in> set (fetched prs evs). b = body \<and> \<not> time_After now expires)"
proof -
  note ad = added_holds [OF assms(1,2)]
  obtain e where e: "abs_store h1 s1 prs = Some e"
    "holds body expires (if 0 < mx then Some (nat mx) else None) e" using ad(2) by blast
  have "spec_run (abs_store h1 s1) evs = Some (abs_store h2 s2)"
    using run_refines [OF assms(3)] ad(1) by simp
  from spec_fetched [OF this e assms(4)] show ?thesis by auto
qed

lemma max_gets_respected_witness:
  "\<exists>c. store_run demo_added [EvTake Second [1] (Some [7]), EvTake Second [1] None] c
     \<and> length (fetched [1] [EvTake Second [1] (Some [7]), EvTake Second [1] None]) \<le> 1"
proof -
  obtain h s where hs: "demo_empty = (h, s)" by (cases demo_empty)
  obtain h1 s1 where hs1: "demo_added = (h1, s1)" by (cases demo_added)
  obtain h2 s2 where run: "store_run demo_added [EvTake Second [1] (Some [7]), EvTake Second [1] None] (h2, s2)"
    using demo_takes by (metis surj_pair)
  show ?thesis
    using max_gets_respected [OF demo_empty_ok [unfolded hs fst_conv snd_conv]
        demo_add [unfolded hs hs1] run [unfolded hs1]] run
    by auto
qed

text \<open>C4: A stored paste stays available: as long as it is not deleted, cleared or swept after its
  expiry, every fetch of its secret answers with its bytes exactly while it has not expired and
  fetches are left, whatever else happens to the store, and otherwise with nothing.\<close>

theorem paste_available:
  assumes "store_ok h s" and "store_step (h, s) (EvAdd prs body expires mx None) (h1, s1)"
    and "store_run (h1, s1) evs (h2, s2)"
    and "\<forall>ev \<in> set evs. \<not> readds prs ev \<and> \<not> ends prs expires ev"
  shows "served prs body expires (if 0 < mx then Some (nat mx) else None) evs"
proof -
  note ad = added_holds [OF assms(1,2)]
  obtain e where e: "abs_store h1 s1 prs = Some e"
    "holds body expires (if 0 < mx then Some (nat mx) else None) e" using ad(2) by blast
  have "spec_run (abs_store h1 s1) evs = Some (abs_store h2 s2)"
    using run_refines [OF assms(3)] ad(1) by simp
  from spec_served [OF this e assms(4)] show ?thesis .
qed

theorem paste_available_witness:
  "\<exists>c. store_run demo_added [EvTake Second [1] (Some [7]), EvTake Second [1] None] c
     \<and> served [1] [7] Hour (Some 1) [EvTake Second [1] (Some [7]), EvTake Second [1] None]"
proof -
  obtain h s where hs: "demo_empty = (h, s)" by (cases demo_empty)
  obtain h1 s1 where hs1: "demo_added = (h1, s1)" by (cases demo_added)
  obtain h2 s2 where run: "store_run demo_added [EvTake Second [1] (Some [7]), EvTake Second [1] None] (h2, s2)"
    using demo_takes by (metis surj_pair)
  show ?thesis
    using paste_available [OF demo_empty_ok [unfolded hs fst_conv snd_conv]
        demo_add [unfolded hs hs1] run [unfolded hs1]] run
    by (simp del: served.simps) blast
qed

section \<open>Erasure\<close>

lemma take_erases:
  assumes ok: "store_ok h s" and p: "mget (s_m s) k = Some p" "p_data p \<noteq> NilSlice"
    and tk: "store_take now prs h s = (b, h', s')"
    and gone: "\<forall>q. mget (s_m s') k = Some q \<longrightarrow> p_data q \<noteq> p_data p"
  shows "sl_read h' (p_data p) = replicate (sl_len (p_data p)) 0"
proof (cases "k = pasteKey prs \<and> is_live now p")
  case True
  note tf = take_facts [OF ok p(1) [unfolded conjunct1 [OF True]] conjunct2 [OF True] tk]
  have "p_data (taken_paste p) \<noteq> p_data p" using gone tf(5) True by auto
  then have "take_last p" by (auto simp: taken_paste_def split: if_splits)
  then show ?thesis using tf(7) by simp
next
  case False
  have "mget (s_m s') k = Some p"
  proof (cases "\<exists>q. mget (s_m s) (pasteKey prs) = Some q \<and> is_live now q")
    case True
    then obtain q where q: "mget (s_m s) (pasteKey prs) = Some q" "is_live now q" by auto
    have "k \<noteq> pasteKey prs" using q p(1) False by auto
    then show ?thesis using take_facts(6) [OF ok q tk] p(1) by blast
  next
    case False
    then have "s' = s" using tk store_take_none [where s = s and prs = prs and now = now and h = h] by (auto split: option.splits)
    then show ?thesis using p(1) by simp
  qed
  then show ?thesis using gone by simp
qed

text \<open>C5: The store erases what it drops: whichever call makes a payload leave the store (the last
  fetch \<^verbatim>\<open>MaxGets\<close> allows, a deletion, a clear, a sweep), its bytes in memory are zero
  afterwards.\<close>

theorem dropped_payload_erased:
  assumes "store_ok h s" and "mget (s_m s) k = Some p" and "p_data p \<noteq> NilSlice"
    and "store_step (h, s) ev (h', s')"
    and "\<forall>q. mget (s_m s') k = Some q \<longrightarrow> p_data q \<noteq> p_data p"
  shows "sl_read h' (p_data p) = replicate (sl_len (p_data p)) 0"
  using assms(4)
proof (cases rule: store_step.cases)
  case (step_add body d label prs expires mx)
  have "mget (s_m s') k = Some p"
    using step_add(3) assms(2) by (auto simp: store_add_def split: if_splits)
  then show ?thesis using assms(5) by simp
next
  case (step_take now prs b)
  then show ?thesis using take_erases [OF assms(1,2,3) _ assms(5)] by blast
next
  case (step_del prs b)
  then show ?thesis
    using assms(2,5) by (auto simp: store_del_def burn_def split: option.splits if_splits)
next
  case (step_clear ord)
  then show ?thesis
    using store_drop_erases [OF assms(1) step_clear(2) _ assms(2), of "\<lambda>_. True" h']
    by (auto simp: store_clear_def split: prod.splits)
next
  case (step_sweep ord now)
  have "paste_expired now p"
    using store_sweep_ok [OF assms(1) step_sweep(2,3)] assms(1,2,5)
    by (auto simp: mget_filter store_ok_def split: if_splits)
  then show ?thesis
    using store_drop_erases [OF assms(1) step_sweep(2) _ assms(2), of "paste_expired now" h'] step_sweep(3)
    by (auto simp: store_sweep_def split: prod.splits)
qed (use assms(2,5) in auto)

theorem dropped_payload_erased_witness:
  "\<exists>h' s'. store_step (demo_heap, demo_store) EvClear (h', s')
     \<and> sl_read demo_heap (p_data demo_paste) = [104, 105]
     \<and> sl_read h' (p_data demo_paste) = [0, 0]"
proof -
  obtain h' s' where cl: "store_clear (s_m demo_store) demo_heap demo_store = (h', s')"
    by (cases "store_clear (s_m demo_store) demo_heap demo_store")
  have vis: "visits (s_m demo_store) (s_m demo_store)" by (simp add: visits_def)
  have st: "store_step (demo_heap, demo_store) EvClear (h', s')" by (rule step_clear [OF vis cl])
  have get: "mget (s_m demo_store) (pasteKey [1, 2]) = Some demo_paste"
    by (simp add: demo_store_def mget_def)
  have gone: "\<forall>q. mget (s_m s') (pasteKey [1, 2]) = Some q \<longrightarrow> p_data q \<noteq> p_data demo_paste"
    using store_clear_ok [OF demo_ok vis cl] by simp
  have "p_data demo_paste \<noteq> NilSlice" by (simp add: demo_paste_def)
  from dropped_payload_erased [OF demo_ok get this st gone] st show ?thesis
    by (intro exI [of _ h'] exI [of _ s']) (simp add: demo_paste_def demo_heap_def numeral_2_eq_2)
qed

end
