(* ===== verification/Code.thy ===== *)
theory Code
  imports Go_Strings Rand Wordlist
begin

text \<open>
  \<^verbatim>\<open>code.go\<close>: the word list, the codes drawn for a paste, and the normal form of the code
  a user types. \<^verbatim>\<open>strings.ToLower\<close> and \<^verbatim>\<open>strings.TrimSpace\<close> are written out for
  ASCII input in \<open>Go_Strings\<close>; nothing proved below depends on their Unicode tables.
\<close>

section \<open>The word list\<close>

definition wordCount :: nat where [go_const]: "wordCount = 1295"

definition wordlistRaw :: string where
  "wordlistRaw = concat (map (\<lambda>w. w @ [CHR 0x0A]) wordlist_lines)"

text \<open>The package's \<^verbatim>\<open>init\<close>; a panic is an error.\<close>

fun init_loop :: "string set \<Rightarrow> string list \<Rightarrow> string list \<Rightarrow> string list result" where
  "init_loop seen ws [] = (if length ws \<noteq> wordCount then Inl ErrPanic else Inr ws)"
| "init_loop seen ws (w # fs) =
     (if w \<in> seen then Inl ErrPanic else init_loop (insert w seen) (ws @ [w]) fs)"

definition code_init :: "string \<Rightarrow> string list result" where
  "code_init raw = init_loop {} [] (ascii_Fields raw)"

definition words :: "string list" where
  "words = (case code_init wordlistRaw of Inl _ \<Rightarrow> [] | Inr ws \<Rightarrow> ws)"

section \<open>Drawing a code\<close>

definition newCode :: "bytes \<Rightarrow> (string \<times> bytes) result" where
  "newCode rs =
     and_then (randIndex (length words) rs) (\<lambda>(i, rs).
     and_then (randIndex (length words) rs) (\<lambda>(j, rs).
     and_then (randIndex (length words) rs) (\<lambda>(k, rs).
       Inr (strings_Join [words ! i, words ! j, words ! k] ''-'', rs))))"

definition groupDigits :: "string \<Rightarrow> string" where
  "groupDigits d = take 3 d @ ''-'' @ take 3 (drop 3 d) @ ''-'' @ take 3 (drop 6 d)"

fun digit_loop :: "nat \<Rightarrow> bytes \<Rightarrow> (string \<times> bytes) result" where
  "digit_loop 0 rs = Inr ([], rs)"
| "digit_loop (Suc n) rs =
     and_then (randIndex 10 rs) (\<lambda>(i, rs).
     and_then (digit_loop n rs) (\<lambda>(ds, rs). Inr (char_of (48 + i) # ds, rs)))"

definition newDigitCode :: "bytes \<Rightarrow> (string \<times> bytes) result" where
  "newDigitCode rs = and_then (digit_loop 9 rs) (\<lambda>(ds, rs). Inr (groupDigits ds, rs))"

section \<open>Reading a code\<close>

definition is_digit :: "char \<Rightarrow> bool" where
  "is_digit c \<longleftrightarrow> 48 \<le> (of_char c :: nat) \<and> (of_char c :: nat) \<le> 57"

fun digit_scan :: "string \<Rightarrow> string option" where
  "digit_scan [] = Some []"
| "digit_scan (c # s) =
     (if is_digit c then map_option ((#) c) (digit_scan s)
      else if c = CHR ''-'' then digit_scan s else None)"

definition digitCode :: "string \<Rightarrow> string option" where
  "digitCode code =
     (case digit_scan code of None \<Rightarrow> None
      | Some ds \<Rightarrow> if length ds \<noteq> 9 then None else Some ds)"

fun expand_loop :: "string \<Rightarrow> string list \<Rightarrow> string \<Rightarrow> nat \<Rightarrow> string result" where
  "expand_loop p [] match n =
     (if n = 0 then Inl (UnknownWord p) else if n = 1 then Inr match else Inl (AmbiguousWord p n))"
| "expand_loop p (w # ws) match n =
     (if w = p then Inr w
      else if prefix p w then expand_loop p ws w (n + 1) else expand_loop p ws match n)"

definition expand :: "string \<Rightarrow> string result" where
  "expand p = expand_loop p words [] 0"

fun expand_parts :: "string list \<Rightarrow> string list result" where
  "expand_parts [] = Inr []"
| "expand_parts (p # ps) =
     and_then (expand p) (\<lambda>w. and_then (expand_parts ps) (\<lambda>ws. Inr (w # ws)))"

definition canonical :: "unicode \<Rightarrow> string \<Rightarrow> string result" where
  "canonical uni code =
     (let code = strings_ToLower uni (strings_TrimSpace uni code)
      in case digitCode code of
           Some digits \<Rightarrow> Inr (groupDigits digits)
         | None \<Rightarrow>
             let parts = strings_Split (CHR ''-'') code
             in if length parts \<noteq> 3 then Inl (BadShape code)
                else and_then (expand_parts parts) (\<lambda>ws. Inr (strings_Join ws ''-'')))"

section \<open>The embedded list\<close>

lemma letter_facts:
  assumes "letter c"
  shows "\<not> ascii_space c" "ascii c" "ascii_lower c = c" "\<not> is_digit c" "c \<noteq> CHR ''-''"
  using assms by (auto simp: letter_def ascii_space_def ascii_def ascii_lower_def is_digit_def)

lemma word_form_facts:
  assumes "word_form w"
  shows "w \<noteq> []" "list_all (\<lambda>c. \<not> ascii_space c) w"
  using assms letter_facts by (auto simp: word_form_def list_all_iff)

lemma fields_lines:
  "list_all word_form ws \<Longrightarrow> ascii_Fields (concat (map (\<lambda>w. w @ [CHR 0x0A]) ws)) = ws"
proof (induction ws)
  case Nil
  then show ?case by (simp add: ascii_Fields_def)
next
  case (Cons w ws)
  then have "word_form w" by simp
  then show ?case
    using Cons fields_next [of w] word_form_facts [of w] newline_space by (simp add: ascii_Fields_def)
qed

lemma init_loop_distinct:
  "distinct fs \<Longrightarrow> set fs \<inter> seen = {} \<Longrightarrow> length (ws @ fs) = wordCount \<Longrightarrow>
   init_loop seen ws fs = Inr (ws @ fs)"
  by (induction seen ws fs rule: init_loop.induct) auto

lemma before_irrefl: "\<not> before w w"
  by (induction w) auto

lemma sorted_before_distinct: "sorted_wrt before ws \<Longrightarrow> distinct ws"
  by (induction ws) (auto simp: before_irrefl)

lemma lines_sorted: "sorted_wrt before wordlist_lines"
  by (rule increasing_sorted [OF lines_increasing])

lemma code_init_lines: "code_init wordlistRaw = Inr wordlist_lines"
proof -
  have "ascii_Fields wordlistRaw = wordlist_lines"
    unfolding wordlistRaw_def by (rule fields_lines [OF lines_form])
  moreover have "length wordlist_lines = wordCount" by (simp add: lines_length wordCount_def)
  ultimately show ?thesis
    using init_loop_distinct [OF sorted_before_distinct [OF lines_sorted], of "{}" "[]"]
    by (simp add: code_init_def)
qed

lemma words_lines: "words = wordlist_lines"
  by (simp add: words_def code_init_lines)

lemma words_distinct: "distinct words"
  unfolding words_lines by (rule sorted_before_distinct [OF lines_sorted])

lemma words_form: "w \<in> set words \<Longrightarrow> word_form w"
  using lines_form by (simp add: words_lines list_all_iff)

lemma words_length [simp]: "length words = 1295"
  by (simp add: words_lines lines_length)

lemma sorted_before_prefix:
  "sorted_wrt before ws \<Longrightarrow> v \<in> set ws \<Longrightarrow> w \<in> set ws \<Longrightarrow> prefix v w \<Longrightarrow> v = w"
  by (induction ws) (auto dest: before_not_prefix)

lemma words_prefix_free: "v \<in> set words \<Longrightarrow> w \<in> set words \<Longrightarrow> prefix v w \<Longrightarrow> v = w"
  unfolding words_lines by (rule sorted_before_prefix [OF lines_sorted])

text \<open>The embedded word list passes the checks of \<^verbatim>\<open>init\<close>, so the program starts, and is
  what the comment on it says: 1295 different words, none a prefix of another, each three to five
  lower case letters.\<close>

lemma wordlist_init:
  "code_init wordlistRaw = Inr words \<and> length words = wordCount \<and> distinct words
   \<and> list_all word_form words
   \<and> (\<nexists>v w. v \<in> set words \<and> w \<in> set words \<and> v \<noteq> w \<and> prefix v w)"
proof (intro conjI)
  show "code_init wordlistRaw = Inr words" unfolding words_lines by (rule code_init_lines)
  show "length words = wordCount" by (simp add: wordCount_def)
  show "distinct words" by (rule words_distinct)
  show "list_all word_form words" using words_form by (auto simp: list_all_iff)
  show "\<nexists>v w. v \<in> set words \<and> w \<in> set words \<and> v \<noteq> w \<and> prefix v w"
    using words_prefix_free by blast
qed

section \<open>Expanding a prefix\<close>

lemma expand_loop_other:
  "p \<notin> set ws \<Longrightarrow> expand_loop p ws m n =
     (let ms = filter (prefix p) ws in expand_loop p [] (if ms = [] then m else last ms) (n + length ms))"
  by (induction p ws m n rule: expand_loop.induct) (auto simp: Let_def)

lemma expand_loop_exact: "p \<in> set ws \<Longrightarrow> expand_loop p ws m n = Inr p"
  by (induction p ws m n rule: expand_loop.induct) auto

lemma filter_unique: "distinct ws \<Longrightarrow> p \<in> set ws \<Longrightarrow> \<forall>w \<in> set ws. P w \<longleftrightarrow> w = p \<Longrightarrow> filter P ws = [p]"
proof (induction ws)
  case (Cons a ws)
  then show ?case by (cases "a = p") (auto simp: filter_empty_conv)
qed simp

lemma expand_word:
  assumes "p \<in> set words"
  shows "expand p = Inr p" and "filter (prefix p) words = [p]"
  using assms words_prefix_free
  by (auto simp: expand_def expand_loop_exact intro!: filter_unique words_distinct)

lemma expand_cases:
  "expand p =
     (case filter (prefix p) words of [] \<Rightarrow> Inl (UnknownWord p) | [w] \<Rightarrow> Inr w
      | ws \<Rightarrow> Inl (AmbiguousWord p (length ws)))"
proof (cases "p \<in> set words")
  case True
  then show ?thesis using expand_word [OF True] by simp
next
  case False
  then show ?thesis
    unfolding expand_def expand_loop_other [OF False] by (auto simp: Let_def split: list.splits)
qed

text \<open>C18: \<^verbatim>\<open>expand\<close> resolves exactly the prefixes that one word of the list has, to that
  word; a prefix of no word, or of several, is refused with that error, the number of matching
  words included. In particular a full word always means itself.\<close>

theorem expand_resolves:
  "expand p =
     (case filter (prefix p) words of [] \<Rightarrow> Inl (UnknownWord p) | [w] \<Rightarrow> Inr w
      | ws \<Rightarrow> Inl (AmbiguousWord p (length ws)))
   \<and> (p \<in> set words \<longrightarrow> expand p = Inr p)"
  using expand_cases expand_word(1) by blast

lemma expand_in_words: "expand p = Inr w \<Longrightarrow> w \<in> set words \<and> prefix p w"
proof -
  assume "expand p = Inr w"
  then have "filter (prefix p) words = [w]"
    unfolding expand_cases by (auto split: list.splits)
  then have "w \<in> set (filter (prefix p) words)" by simp
  then show ?thesis by simp
qed

lemma demo_words: "''acid'' \<in> set words" "''zoom'' \<in> set words"
proof -
  have "hd wordlist_1 \<in> set wordlist_1" "last wordlist_10 \<in> set wordlist_10"
    by (rule hd_in_set [OF words_1(4)], rule last_in_set [OF words_10(4)])
  then have "''acid'' \<in> set wordlist_1" "''zoom'' \<in> set wordlist_10"
    by (simp_all only: words_1 words_10)
  then show "''acid'' \<in> set words" "''zoom'' \<in> set words"
    unfolding words_lines wordlist_lines_def by simp_all
qed

theorem expand_resolves_witness: "expand ''acid'' = Inr ''acid''"
  using expand_resolves [of "''acid''"] demo_words by blast

section \<open>Codes and their normal form\<close>

definition word_code :: "string \<Rightarrow> bool" where
  "word_code c \<longleftrightarrow>
     (\<exists>u \<in> set words. \<exists>v \<in> set words. \<exists>w \<in> set words. c = strings_Join [u, v, w] ''-'')"

definition digit_code :: "string \<Rightarrow> bool" where
  "digit_code c \<longleftrightarrow> (\<exists>d. length d = 9 \<and> list_all is_digit d \<and> c = groupDigits d)"

lemma word_form_no_dash: "word_form w \<Longrightarrow> CHR ''-'' \<notin> set w"
  using letter_facts(5) by (auto simp: word_form_def list_all_iff)

lemma split_join_words:
  assumes "word_form u" "word_form v" "word_form w"
  shows "strings_Split (CHR ''-'') (strings_Join [u, v, w] ''-'') = [u, v, w]"
  using assms word_form_no_dash by (simp add: split_append split_no_sep)

lemma join_words_inj:
  assumes "list_all word_form [u, v, w, u', v', w']"
    and "strings_Join [u, v, w] ''-'' = strings_Join [u', v', w'] ''-''"
  shows "u = u' \<and> v = v' \<and> w = w'"
proof -
  have f: "word_form u" "word_form v" "word_form w" "word_form u'" "word_form v'" "word_form w'"
    using assms(1) by simp_all
  have "strings_Split (CHR ''-'') (strings_Join [u, v, w] ''-'')
      = strings_Split (CHR ''-'') (strings_Join [u', v', w'] ''-'')"
    by (simp only: assms(2))
  then have "[u, v, w] = [u', v', w']"
    by (simp only: split_join_words [OF f(1-3)] split_join_words [OF f(4-6)])
  then show ?thesis by simp
qed

text \<open>Characters of a code are left alone by trimming and lowering.\<close>

definition plain :: "char \<Rightarrow> bool" where
  "plain c \<longleftrightarrow> ascii c \<and> \<not> ascii_space c \<and> ascii_lower c = c"

lemma trim_left_plain: "list_all plain s \<Longrightarrow> trim_left s = s"
  by (cases s) (auto simp: trim_left_def plain_def)

lemma plain_ascii: "list_all plain s \<Longrightarrow> list_all ascii s"
  by (auto simp: list_all_iff plain_def)

lemma trim_plain: "list_all plain s \<Longrightarrow> strings_TrimSpace uni s = s"
  by (simp add: strings_TrimSpace_def trim_left_plain plain_ascii)

lemma lower_plain: "list_all plain s \<Longrightarrow> strings_ToLower uni s = s"
  unfolding strings_ToLower_def
  by (simp add: plain_ascii) (simp add: map_idI list_all_iff plain_def)

lemma dash_plain: "plain (CHR ''-'')"
  by (simp add: plain_def ascii_def ascii_space_def ascii_lower_def)

lemma digit_plain: "is_digit c \<Longrightarrow> plain c"
  by (simp add: plain_def ascii_def ascii_space_def ascii_lower_def is_digit_def)

lemma word_form_plain: "word_form w \<Longrightarrow> list_all plain w"
  using letter_facts by (auto simp: word_form_def list_all_iff plain_def)

lemma word_code_plain: "word_code c \<Longrightarrow> list_all plain c"
  using words_form word_form_plain dash_plain by (auto simp: word_code_def)

lemma digit_code_plain: "digit_code c \<Longrightarrow> list_all plain c"
  using digit_plain dash_plain
  by (fastforce simp: digit_code_def groupDigits_def list_all_iff dest: in_set_takeD in_set_dropD)

text \<open>Digit codes.\<close>

lemma digit_scan_append:
  "digit_scan (s @ t) =
     (case digit_scan s of None \<Rightarrow> None | Some d \<Rightarrow> map_option ((@) d) (digit_scan t))"
  by (induction s; cases "digit_scan t") (auto split: option.splits)

lemma digit_scan_digits: "list_all is_digit d \<Longrightarrow> digit_scan d = Some d"
  by (induction d) auto

lemma digit_scan_sound: "digit_scan s = Some d \<Longrightarrow> list_all is_digit d"
  by (induction s arbitrary: d) (auto split: if_splits)

lemma dash_not_digit: "\<not> is_digit (CHR ''-'')"
  by (simp add: is_digit_def)

lemma groupDigits_scan:
  assumes "length d = 9" and "list_all is_digit d"
  shows "digitCode (groupDigits d) = Some d"
proof -
  have "digit_scan (take n (drop m d)) = Some (take n (drop m d))" for n m
    using assms(2) by (intro digit_scan_digits) (auto simp: list_all_iff dest: in_set_takeD in_set_dropD)
  from this [of 3 0] this [of 3 3] this [of 3 6]
  have "digit_scan (groupDigits d) = Some (take 3 d @ take 3 (drop 3 d) @ take 3 (drop 6 d))"
    by (simp add: groupDigits_def digit_scan_append dash_not_digit)
  moreover have "take 3 d @ take 3 (drop 3 d) @ take 3 (drop 6 d) = d"
    using assms(1) take_add [of 3 3 d] take_add [of 6 3 d] by simp
  ultimately show ?thesis using assms(1) by (simp add: digitCode_def)
qed

lemma digitCode_sound: "digitCode s = Some d \<Longrightarrow> length d = 9 \<and> list_all is_digit d"
  by (auto simp: digitCode_def digit_scan_sound split: option.splits if_splits)

lemma word_code_not_digits: "word_code c \<Longrightarrow> digitCode c = None"
proof -
  assume "word_code c"
  then obtain u s where "u \<in> set words" "c = u @ s" by (auto simp: word_code_def)
  then obtain x where "c = x @ s" "word_form x" using words_form by blast
  then obtain a b where "c = a # b" "letter a" by (cases x) (auto simp: word_form_def)
  then show ?thesis using letter_facts [of a] by (simp add: digitCode_def)
qed

lemma expand_parts_words: "list_all (\<lambda>w. w \<in> set words) ws \<Longrightarrow> expand_parts ws = Inr ws"
  by (induction ws) (auto simp: expand_word)

lemma expand_parts_sound:
  "expand_parts ps = Inr ws \<Longrightarrow> length ws = length ps \<and> list_all (\<lambda>w. w \<in> set words) ws"
  by (induction ps arbitrary: ws) (auto simp: and_then_Inr_iff dest!: expand_in_words)

lemma canonical_fixes:
  assumes "word_code c \<or> digit_code c"
  shows "canonical uni c = Inr c"
proof -
  have "list_all plain c" using assms word_code_plain digit_code_plain by blast
  then have n: "strings_ToLower uni (strings_TrimSpace uni c) = c"
    by (simp add: trim_plain lower_plain)
  show ?thesis
  proof (cases "digit_code c")
    case True
    then show ?thesis
      unfolding canonical_def n using groupDigits_scan by (auto simp: digit_code_def)
  next
    case False
    then have wc: "word_code c" using assms by blast
    then obtain u v w where c: "u \<in> set words" "v \<in> set words" "w \<in> set words"
      "c = strings_Join [u, v, w] ''-''"
      by (auto simp: word_code_def)
    have sp: "strings_Split (CHR ''-'') c = [u, v, w]"
      unfolding c(4) using c(1-3) words_form by (intro split_join_words) auto
    have "expand_parts [u, v, w] = Inr [u, v, w]"
      using c by (intro expand_parts_words) simp
    then show ?thesis
      unfolding canonical_def Let_def n word_code_not_digits [OF wc] sp by (simp add: c(4) del: expand_parts.simps)
  qed
qed

lemma canonical_is_code:
  assumes "canonical uni s = Inr c"
  shows "word_code c \<or> digit_code c"
proof -
  let ?n = "strings_ToLower uni (strings_TrimSpace uni s)"
  show ?thesis
  proof (cases "digitCode ?n")
    case (Some d)
    then have "c = groupDigits d" using assms by (simp add: canonical_def Let_def)
    then show ?thesis using digitCode_sound [OF Some] by (auto simp: digit_code_def)
  next
    case None
    then obtain ws where ws: "length (strings_Split (CHR ''-'') ?n) = 3"
      "expand_parts (strings_Split (CHR ''-'') ?n) = Inr ws" "c = strings_Join ws ''-''"
      using assms by (auto simp: canonical_def Let_def and_then_Inr_iff split: if_splits)
    then have "length ws = 3" "list_all (\<lambda>w. w \<in> set words) ws"
      using expand_parts_sound [OF ws(2)] by simp_all
    then obtain u v w where "ws = [u, v, w]" "u \<in> set words" "v \<in> set words" "w \<in> set words"
      by (auto simp: length_Suc_conv numeral_3_eq_3)
    then show ?thesis using ws(3) by (auto simp: word_code_def)
  qed
qed

text \<open>C17: What \<^verbatim>\<open>canonical\<close> accepts it turns into a code as the program prints them (three
  words of the list, or nine digits in groups of three), whatever the input; and such a code it
  leaves as it is. So the PAKE password a client derives from what was typed is always one the
  daemon could have drawn, and \<^verbatim>\<open>canonical\<close> is idempotent.\<close>

theorem canonical_normal_form:
  "(canonical uni s = Inr c \<longrightarrow> word_code c \<or> digit_code c)
   \<and> (word_code c \<or> digit_code c \<longrightarrow> canonical uni c = Inr c)"
  using canonical_fixes canonical_is_code by blast

theorem canonical_normal_form_witness:
  "canonical no_unicode ''acid-zoom-acid'' = Inr ''acid-zoom-acid''"
proof -
  have "word_code ''acid-zoom-acid''"
    unfolding word_code_def using demo_words
    by (intro bexI [of _ "''acid''"] bexI [of _ "''zoom''"]) simp_all
  then show ?thesis using canonical_normal_form by blast
qed

section \<open>Drawn codes\<close>

lemma digit_char:
  assumes "i < 10"
  shows "is_digit (char_of (48 + i))" and "(of_char (char_of (48 + i)) :: nat) = 48 + i"
  using assms by (simp_all add: is_digit_def)

lemma digit_loop_digits: "digit_loop n rs = Inr (ds, rs') \<Longrightarrow> length ds = n \<and> list_all is_digit ds"
  by (induction n arbitrary: rs ds)
    (auto simp: and_then_Inr_iff intro!: digit_char(1) dest: randIndex_less)

lemma newCode_draws:
  "newCode rs = and_then (draws [1295, 1295, 1295] rs)
     (\<lambda>(js, rs'). Inr (strings_Join (map ((!) words) js) ''-'', rs'))"
  by (cases "randIndex 1295 rs")
    (auto simp: newCode_def and_then_def split: sum.splits)

lemma newCode_word_code: "newCode rs = Inr (c, rs') \<Longrightarrow> word_code c"
  unfolding newCode_def
  by (auto simp: and_then_Inr_iff word_code_def dest!: randIndex_less intro!: bexI nth_mem)

lemma newDigitCode_digit_code: "newDigitCode rs = Inr (c, rs') \<Longrightarrow> digit_code c"
  unfolding newDigitCode_def digit_code_def
  by (auto simp: and_then_Inr_iff dest!: digit_loop_digits)

text \<open>A drawn code, of either style, is its own normal form: the client that types it as
  printed derives the password the daemon stored.\<close>

lemma drawn_codes_canonical:
  assumes "newCode rs = Inr (c, rs') \<or> newDigitCode rs = Inr (c, rs')"
  shows "canonical uni c = Inr c"
  using assms canonical_fixes newCode_word_code newDigitCode_digit_code by blast

lemma draw_first:
  assumes "int_bits n = b" and "b = 11" and "1 < n"
  shows "randIndex n (0 # 0 # rs) = Inr (0, rs)"
proof -
  have "int_bytes n = Suc 1" "int_top n = 3" using assms by (auto simp: int_bytes_def int_top_def)
  then have "rand_Int n (0 # 0 # rs) = Inr (0, rs)"
    using assms by (subst rand_Int.simps) (simp add: be_nat_def)
  then show ?thesis using assms(3) by (simp add: randIndex_def)
qed

lemma word_bits: "int_bits 1295 = 11"
  by code_simp

lemma words_first: "words ! 0 = ''acid''"
proof -
  have "words ! 0 = hd wordlist_1"
    unfolding words_lines wordlist_lines_def using words_1(4) by (simp add: hd_conv_nth nth_append)
  then show ?thesis by (simp add: words_1(5))
qed

lemma demo_draw: "newCode [0, 0, 0, 0, 0, 0] = Inr (''acid-acid-acid'', [])"
proof -
  have d: "randIndex 1295 (0 # 0 # rs) = Inr (0, rs)" for rs
    by (rule draw_first [OF word_bits refl]) simp
  show ?thesis unfolding newCode_def words_length d by (simp add: d words_first)
qed

lemma drawn_codes_canonical_witness:
  "newCode [0, 0, 0, 0, 0, 0] = Inr (''acid-acid-acid'', [])
   \<and> canonical no_unicode ''acid-acid-acid'' = Inr ''acid-acid-acid''"
  using demo_draw drawn_codes_canonical [OF disjI1 [OF demo_draw]] by simp

section \<open>How many codes there are\<close>

definition code_at :: "nat list \<Rightarrow> string" where
  "code_at js = strings_Join (map ((!) words) js) ''-''"

definition code_indices :: "nat list set" where
  "code_indices = {js. set js \<subseteq> {..<1295} \<and> length js = 3}"

lemma code_indices_iff: "js \<in> code_indices \<longleftrightarrow> (\<exists>i j k. js = [i, j, k] \<and> i < 1295 \<and> j < 1295 \<and> k < 1295)"
  by (auto simp: code_indices_def numeral_3_eq_3 length_Suc_conv)

lemma code_at_bij: "bij_betw code_at code_indices {c. word_code c}"
  unfolding bij_betw_def
proof (intro conjI inj_onI equalityI subsetI)
  fix js ks assume j: "js \<in> code_indices" and k: "ks \<in> code_indices" and eq: "code_at js = code_at ks"
  obtain a b c where js: "js = [a, b, c]" "a < 1295" "b < 1295" "c < 1295" using j code_indices_iff by auto
  obtain d e f where ks: "ks = [d, e, f]" "d < 1295" "e < 1295" "f < 1295" using k code_indices_iff by auto
  have w: "word_form (words ! i)" if "i < 1295" for i
    using that by (intro words_form nth_mem) simp
  have "words ! a = words ! d \<and> words ! b = words ! e \<and> words ! c = words ! f"
    using js ks w eq by (intro join_words_inj) (simp_all add: code_at_def)
  then show "js = ks" using js ks words_distinct by (simp add: nth_eq_iff_index_eq)
next
  fix c assume "c \<in> code_at ` code_indices"
  then obtain i j k where c: "c = code_at [i, j, k]" "i < 1295" "j < 1295" "k < 1295"
    by (auto simp: code_indices_iff)
  then have "words ! i \<in> set words" "words ! j \<in> set words" "words ! k \<in> set words" by simp_all
  then have "word_code c"
    unfolding word_code_def using c(1)
    by (intro bexI [of _ "words ! i"] bexI [of _ "words ! j"] bexI [of _ "words ! k"])
      (simp_all add: code_at_def)
  then show "c \<in> {c. word_code c}" by simp
next
  fix c assume "c \<in> {c. word_code c}"
  then obtain u v w where "u \<in> set words" "v \<in> set words" "w \<in> set words"
    "c = strings_Join [u, v, w] ''-''" by (auto simp: word_code_def)
  then obtain i j k where "i < 1295" "j < 1295" "k < 1295" "c = code_at [i, j, k]"
    by (auto simp: in_set_conv_nth code_at_def)
  then show "c \<in> code_at ` code_indices" by (auto simp: code_indices_iff)
qed

lemma card_word_codes: "card {c. word_code c} = 1295 ^ 3"
  using bij_betw_same_card [OF code_at_bij] card_lists_length_eq [of "{..<1295::nat}" 3]
  by (simp add: code_indices_def)

lemma card_digits: "card {c. is_digit c} = 10"
proof -
  have "{c. is_digit c} = char_of ` {48..<58::nat}"
  proof (intro equalityI subsetI)
    fix c assume "c \<in> {c. is_digit c}"
    then show "c \<in> char_of ` {48..<58::nat}"
      by (intro image_eqI [of _ _ "of_char c"]) (auto simp: is_digit_def)
  qed (auto simp: is_digit_def)
  moreover have "inj_on char_of {48..<58::nat}"
    by (rule inj_on_inverseI [of _ of_char]) simp
  ultimately show ?thesis by (simp add: card_image)
qed

lemma card_digit_codes: "card {c. digit_code c} = 10 ^ 9"
proof -
  let ?D = "{d. set d \<subseteq> {c. is_digit c} \<and> length d = 9}"
  have "{c. digit_code c} = groupDigits ` ?D"
    by (auto simp: digit_code_def list_all_iff)
  moreover have "inj_on groupDigits ?D"
  proof (rule inj_onI)
    fix d e assume "d \<in> ?D" "e \<in> ?D" "groupDigits d = groupDigits e"
    then have "digitCode (groupDigits d) = Some d" "digitCode (groupDigits d) = Some e"
      using groupDigits_scan [of d] groupDigits_scan [of e] by (auto simp: list_all_iff)
    then show "d = e" by simp
  qed
  moreover have "finite {c. is_digit c}" using card_digits by (intro card_ge_0_finite) simp
  ultimately show ?thesis by (simp add: card_image card_lists_length_eq card_digits)
qed

text \<open>The entropy of a code is what the comments on it promise: the three unbiased draws of
  \<^verbatim>\<open>newCode\<close> and the codes are in bijection, there are \<open>1295 ^ 3\<close> word codes, at least
  \<open>2 ^ 31\<close>, and \<open>10 ^ 9\<close> digit codes, between \<open>2 ^ 29\<close> and \<open>2 ^ 30\<close>.\<close>

lemma code_space:
  "newCode rs = and_then (draws [1295, 1295, 1295] rs) (\<lambda>(js, rs'). Inr (code_at js, rs'))
   \<and> bij_betw code_at code_indices {c. word_code c}
   \<and> 2 ^ 31 \<le> card {c. word_code c} \<and> card {c. word_code c} = 1295 ^ 3
   \<and> 2 ^ 29 \<le> card {c. digit_code c} \<and> card {c. digit_code c} \<le> 2 ^ 30"
  using newCode_draws code_at_bij by (simp add: card_word_codes card_digit_codes code_at_def)

section \<open>Capitals and blanks\<close>

text \<open>A code may be typed in capitals and with blanks around it.\<close>

lemma canonical_case_blind:
  assumes "list_all ascii s" and "list_all ascii_space sp" and "list_all ascii_space sp'"
  shows "canonical uni (sp @ map ascii_upper s @ sp') = canonical uni s"
  unfolding canonical_def normal_upper [OF assms] ..

lemma demo_code: "word_code ''acid-zoom-acid''"
  unfolding word_code_def using demo_words
  by (intro bexI [of _ "''acid''"] bexI [of _ "''zoom''"]) simp_all

lemma canonical_case_blind_witness:
  "canonical no_unicode '' ACID-ZOOM-ACID '' = Inr ''acid-zoom-acid''"
proof -
  have "'' '' @ map ascii_upper ''acid-zoom-acid'' @ '' '' = '' ACID-ZOOM-ACID ''"
    by (simp add: ascii_upper_def char_of_def bit_0)
  moreover have "canonical no_unicode ('' '' @ map ascii_upper ''acid-zoom-acid'' @ '' '')
      = canonical no_unicode ''acid-zoom-acid''"
    by (rule canonical_case_blind) (simp_all add: ascii_def ascii_space_def)
  ultimately show ?thesis using canonical_fixes [OF disjI1 [OF demo_code]] by simp
qed

section \<open>The example of the manual\<close>

text \<open>The code that \<^verbatim>\<open>README.md\<close> shows is not one: two of its words are not in the list.\<close>

lemma no_word_prefix:
  assumes "list_all (\<lambda>w. \<not> prefix p w) wordlist_lines"
  shows "expand p = Inl (UnknownWord p)"
proof -
  have "filter (prefix p) words = []"
    using assms by (simp add: words_lines filter_empty_conv list_all_iff)
  then show ?thesis by (simp add: expand_cases)
qed

lemma no_piano: "list_all (\<lambda>w. \<not> prefix ''piano'' w) wordlist_lines"
  by (simp add: wordlist_lines_def wordlist_defs)

lemma otter_word: "''otter'' \<in> set words"
  unfolding words_lines wordlist_lines_def by (simp add: wordlist_6_def)

text \<open>\<^verbatim>\<open>README.md\<close> shows the code \<^verbatim>\<open>otter-piano-cobalt\<close>, but no such code is
  ever printed: \<^verbatim>\<open>piano\<close> is not in the list, and \<^verbatim>\<open>canonical\<close> refuses it.\<close>

lemma manual_example_refused:
  "canonical uni ''otter-piano-cobalt'' = Inl (UnknownWord ''piano'')"
proof -
  have "list_all plain ''otter-piano-cobalt''"
    by (simp add: plain_def ascii_def ascii_space_def ascii_lower_def)
  then have n: "strings_ToLower uni (strings_TrimSpace uni ''otter-piano-cobalt'') = ''otter-piano-cobalt''"
    by (simp only: trim_plain lower_plain)
  have "digitCode ''otter-piano-cobalt'' = None"
    by (simp add: digitCode_def is_digit_def)
  then show ?thesis
    unfolding canonical_def n
    by (simp add: expand_word(1) [OF otter_word] no_word_prefix [OF no_piano])
qed

end
