(* ===== verification/Pake.thy ===== *)
theory Pake
  imports Params Sha2 Rand
begin

text \<open>
  \<^verbatim>\<open>pake.go\<close>: CPace over ristretto255 and SHA-512. The group, scrypt and the AEAD are
  packages outside the repository: the record \<open>suite\<close> holds what the code calls of them, every
  definition that uses one takes the suite, and \<open>suite_ok\<close> is their documented behaviour.
  Elements are taken up to \<^verbatim>\<open>Element.Equal\<close>.
\<close>

section \<open>What the packages provide\<close>

record ('e, 's) suite =
  scrypt_Key :: "bytes \<Rightarrow> bytes \<Rightarrow> nat \<Rightarrow> nat \<Rightarrow> nat \<Rightarrow> nat \<Rightarrow> bytes result"
  e_Identity :: 'e
  e_SetUniformBytes :: "bytes \<Rightarrow> 'e option"
  e_SetCanonicalBytes :: "bytes \<Rightarrow> 'e option"
  e_Bytes :: "'e \<Rightarrow> bytes"
  e_ScalarMult :: "'s \<Rightarrow> 'e \<Rightarrow> 'e"
  s_SetUniformBytes :: "bytes \<Rightarrow> 's option"
  aead_Seal :: "bytes \<Rightarrow> bytes \<Rightarrow> bytes \<Rightarrow> bytes"
  aead_Open :: "bytes \<Rightarrow> bytes \<Rightarrow> bytes \<Rightarrow> bytes option"

text \<open>
  scrypt yields keys of the length asked for; uniform bytes are accepted at 64 bytes; an element
  has one canonical encoding, of 32 bytes; scalars commute; opening undoes sealing, which adds a
  tag of 16 bytes.
\<close>

definition suite_ok :: "('e, 's) suite \<Rightarrow> bool" where
  "suite_ok S \<longleftrightarrow>
     (\<forall>code salt. \<exists>k. scrypt_Key S code salt 32768 8 1 32 = Inr k \<and> length k = 32)
     \<and> (\<forall>b. length b = 64 \<longrightarrow> e_SetUniformBytes S b \<noteq> None \<and> s_SetUniformBytes S b \<noteq> None)
     \<and> (\<forall>e. length (e_Bytes S e) = 32 \<and> e_SetCanonicalBytes S (e_Bytes S e) = Some e)
     \<and> (\<forall>s t e. e_ScalarMult S s (e_ScalarMult S t e) = e_ScalarMult S t (e_ScalarMult S s e))
     \<and> (\<forall>k n m. aead_Open S k n (aead_Seal S k n m) = Some m
                \<and> length (aead_Seal S k n m) = length m + 16)"

section \<open>Constants\<close>

definition cpaceDSI :: string where "cpaceDSI = ''CPaceRistretto255''"
definition cpaceDSIISK :: string where "cpaceDSIISK = ''CPaceRistretto255_ISK''"
definition cpaceBlock :: nat where [go_const]: "cpaceBlock = 128"
definition scryptN :: nat where [go_const]: "scryptN = 2 ^ 15"
definition scryptR :: nat where [go_const]: "scryptR = 8"
definition scryptP :: nat where [go_const]: "scryptP = 1"
definition scryptSalt :: bytes where "scryptSalt = bytes_of ''tp/pake/v1''"

section \<open>Encodings\<close>

definition derivePRS :: "('e, 's) suite \<Rightarrow> string \<Rightarrow> bytes result" where
  "derivePRS S code = scrypt_Key S (bytes_of code) scryptSalt scryptN scryptR scryptP scryptLen"

text \<open>The LEB128 loop; \<open>n & 0x7f\<close> and \<open>n >>= 7\<close> on a non-negative length.\<close>

function leb_loop :: "nat \<Rightarrow> bytes \<Rightarrow> bytes" where
  "leb_loop n out =
     (let out = out @ [if n < 128 then word_of_nat n else word_of_nat (n mod 128) + 0x80];
          n' = n div 128
      in if n' = 0 then out else leb_loop n' out)"
  by pat_completeness auto
termination by (relation "measure fst") auto

declare leb_loop.simps [simp del]

definition prependLen :: "bytes \<Rightarrow> bytes" where
  "prependLen b = leb_loop (length b) [] @ b"

fun lvCat :: "bytes list \<Rightarrow> bytes" where
  "lvCat [] = []"
| "lvCat (p # parts) = prependLen p @ lvCat parts"

fun lexGreater :: "bytes \<Rightarrow> bytes \<Rightarrow> bool" where
  "lexGreater (x # xs) (y # ys) = (if x \<noteq> y then x > y else lexGreater xs ys)"
| "lexGreater xs ys = (length xs > length ys)"

definition oCat :: "bytes \<Rightarrow> bytes \<Rightarrow> bytes" where
  "oCat a b = (let out = bytes_of ''oc'' in if lexGreater a b then out @ a @ b else out @ b @ a)"

section \<open>The group operations\<close>

definition generatorInput :: "bytes \<Rightarrow> bytes \<Rightarrow> bytes \<Rightarrow> bytes" where
  "generatorInput prs ci sid =
     (let dsi = bytes_of cpaceDSI;
          zpad = nat (max 0 (int cpaceBlock - 1 - int (length (prependLen prs)) - int (length (prependLen dsi))))
      in lvCat [dsi, prs, replicate zpad 0, ci, sid])"

definition calculateGenerator :: "('e, 's) suite \<Rightarrow> bytes \<Rightarrow> bytes \<Rightarrow> bytes \<Rightarrow> 'e result" where
  "calculateGenerator S prs ci sid =
     (case e_SetUniformBytes S (sha512_Sum512 (generatorInput prs ci sid)) of
        None \<Rightarrow> Inl ErrPanic | Some g \<Rightarrow> Inr g)"

definition randomScalar :: "('e, 's) suite \<Rightarrow> bytes \<Rightarrow> ('s \<times> bytes) result" where
  "randomScalar S rs =
     and_then (rand_Read 64 rs) (\<lambda>(b, rs').
       case s_SetUniformBytes S b of None \<Rightarrow> Inl ErrPanic | Some s \<Rightarrow> Inr (s, rs'))"

definition scalarMultVfy :: "('e, 's) suite \<Rightarrow> 's \<Rightarrow> bytes \<Rightarrow> bytes result" where
  "scalarMultVfy S s encoded =
     (if length encoded \<noteq> pointLen then Inl ErrBadPoint
      else case e_SetCanonicalBytes S encoded of
        None \<Rightarrow> Inl ErrBadPoint
      | Some p \<Rightarrow>
          let k = e_ScalarMult S s p
          in if k = e_Identity S then Inl ErrBadPoint else Inr (e_Bytes S k))"

section \<open>Keys and confirmations\<close>

definition sessionInput :: "bytes \<Rightarrow> bytes \<Rightarrow> bytes \<Rightarrow> bytes \<Rightarrow> bytes" where
  "sessionInput sid k ya yb =
     lvCat [bytes_of cpaceDSIISK, sid, k] @ oCat (lvCat [ya, []]) (lvCat [yb, []])"

definition sessionKey :: "bytes \<Rightarrow> bytes \<Rightarrow> bytes \<Rightarrow> bytes \<Rightarrow> bytes" where
  "sessionKey sid k ya yb = sha512_Sum512 (sessionInput sid k ya yb)"

definition confirm :: "bytes \<Rightarrow> string \<Rightarrow> bytes" where
  "confirm sk label = hmac_sha256 sk (bytes_of label)"

definition macEqual :: "bytes \<Rightarrow> bytes \<Rightarrow> bool" where
  "macEqual a b \<longleftrightarrow> a = b"

section \<open>Self-delimiting encodings\<close>

text \<open>
  What the transcripts and the framing rest on: an encoding is self-delimiting on the values
  \<open>ok\<close> when it can be told where it ends in any continuation. Then a concatenation of
  encodings determines its parts.
\<close>

locale self_delimiting =
  fixes enc :: "'a \<Rightarrow> 'b list" and ok :: "'a \<Rightarrow> bool"
  assumes delimited: "ok a \<Longrightarrow> ok b \<Longrightarrow> enc a @ s = enc b @ t \<Longrightarrow> a = b"
begin

lemma split_unique: "ok a \<Longrightarrow> ok b \<Longrightarrow> enc a @ s = enc b @ t \<longleftrightarrow> a = b \<and> s = t"
  using delimited by auto

lemma enc_inj: "ok a \<Longrightarrow> ok b \<Longrightarrow> enc a = enc b \<Longrightarrow> a = b"
  using delimited [of a b "[]" "[]"] by simp

lemma concat_unique:
  "length xs = length ys \<Longrightarrow> list_all ok xs \<Longrightarrow> list_all ok ys \<Longrightarrow>
   concat (map enc xs) @ s = concat (map enc ys) @ t \<Longrightarrow> xs = ys \<and> s = t"
  by (induction xs ys rule: list_induct2) (auto simp: split_unique)

end

lemma leb_loop_append: "leb_loop n (out @ out') = out @ leb_loop n out'"
proof (induction n arbitrary: out' rule: less_induct)
  case (less n)
  then show ?case by (subst (1 2) leb_loop.simps) (auto simp: Let_def)
qed

lemma leb_step:
  "leb_loop n [] =
     (if n < 128 then [word_of_nat n] else (word_of_nat (n mod 128) + 0x80) # leb_loop (n div 128) [])"
proof (cases "n < 128")
  case True
  then show ?thesis by (subst leb_loop.simps) simp
next
  case False
  then have "n div 128 \<noteq> 0" by (simp add: div_eq_0_iff)
  then show ?thesis
    using False leb_loop_append [of "n div 128" "[word_of_nat (n mod 128) + 0x80]" "[]"]
    by (subst leb_loop.simps) (simp add: Let_def)
qed

lemma leb_high:
  "unat (word_of_nat (n mod 128) + 0x80 :: byte) = n mod 128 + 128"
proof -
  have "(word_of_nat (n mod 128) + 0x80 :: byte) = word_of_nat (n mod 128 + 128)" by simp
  moreover have "n mod 128 + 128 < 256" using mod_less_divisor [of 128 n] by linarith
  ultimately show ?thesis by (simp add: unsigned_of_nat take_bit_nat_eq_self del: of_nat_add)
qed

lemma leb_low: "n < 128 \<Longrightarrow> unat (word_of_nat n :: byte) = n"
  by (simp add: unsigned_of_nat take_bit_nat_eq_self)

lemma leb_short: "n < 128 \<Longrightarrow> leb_loop n [] = [word_of_nat n]"
  by (subst leb_step) simp

lemma leb_long:
  "\<not> n < 128 \<Longrightarrow> leb_loop n [] = (word_of_nat (n mod 128) + 0x80) # leb_loop (n div 128) []"
  by (subst leb_step) simp

lemma leb_hd:
  "\<exists>x xs. leb_loop n [] = x # xs \<and> unat x = (if n < 128 then n else n mod 128 + 128)"
  using leb_short [of n] leb_long [of n] leb_low [of n] leb_high [of n] by (cases "n < 128") auto

lemma leb_delimited: "leb_loop m [] @ s = leb_loop n [] @ t \<Longrightarrow> m = n"
proof (induction m arbitrary: n rule: less_induct)
  case (less m)
  have hd: "(if m < 128 then m else m mod 128 + 128) = (if n < 128 then n else n mod 128 + 128)"
  proof -
    obtain x xs where m: "leb_loop m [] = x # xs" "unat x = (if m < 128 then m else m mod 128 + 128)"
      using leb_hd by blast
    obtain y ys where n: "leb_loop n [] = y # ys" "unat y = (if n < 128 then n else n mod 128 + 128)"
      using leb_hd by blast
    have "x = y" using less.prems m(1) n(1) by simp
    then show ?thesis using m(2) n(2) by simp
  qed
  show ?case
  proof (cases "m < 128 \<or> n < 128")
    case True
    then show ?thesis using hd by (auto split: if_splits)
  next
    case False
    then have "leb_loop (m div 128) [] @ s = leb_loop (n div 128) [] @ t"
      using less.prems by (simp add: leb_long)
    moreover have "m div 128 < m" using False by simp
    ultimately have "m div 128 = n div 128" by (intro less.IH)
    moreover have "m mod 128 = n mod 128" using hd False by simp
    ultimately show ?thesis by (metis div_mult_mod_eq)
  qed
qed

interpretation lv: self_delimiting prependLen "\<lambda>_. True"
proof unfold_locales
  fix a s b t assume eq: "prependLen a @ s = prependLen b @ t"
  then have "leb_loop (length a) [] @ a @ s = leb_loop (length b) [] @ b @ t"
    by (simp add: prependLen_def)
  then have "length a = length b" by (rule leb_delimited)
  then show "a = b" using eq by (simp add: prependLen_def)
qed

section \<open>The transcripts\<close>

lemma lvCat_concat: "lvCat ps = concat (map prependLen ps)"
  by (induction ps) auto

lemma lvCat_unique:
  "length ps = length qs \<Longrightarrow> lvCat ps @ s = lvCat qs @ t \<Longrightarrow> ps = qs \<and> s = t"
  unfolding lvCat_concat by (rule lv.concat_unique) (simp_all add: list_all_iff)

lemma lvCat_inj: "lvCat ps = lvCat qs \<Longrightarrow> length ps = length qs \<Longrightarrow> ps = qs"
  using lvCat_unique [of ps qs "[]" "[]"] by simp

lemma lexGreater_asym: "lexGreater a b \<Longrightarrow> \<not> lexGreater b a"
proof (induction a b rule: lexGreater.induct)
  case (1 x xs y ys)
  show ?case
  proof (cases "x = y")
    case False
    then have "y < x" using "1.prems" by simp
    then show ?thesis using False by (simp add: order.asym)
  qed (use 1 in simp)
qed simp_all

lemma lexGreater_total: "\<not> lexGreater a b \<Longrightarrow> \<not> lexGreater b a \<Longrightarrow> a = b"
proof (induction a b rule: lexGreater.induct)
  case (1 x xs y ys)
  have "x = y" using 1(2,3) by (cases x y rule: linorder_cases) (simp_all split: if_splits)
  then show ?case using 1 by simp
qed simp_all

lemma oCat_commute: "oCat a b = oCat b a"
proof (cases "lexGreater a b \<or> lexGreater b a")
  case True
  then show ?thesis
  proof
    assume ab: "lexGreater a b"
    then show ?thesis using lexGreater_asym [OF ab] by (simp only: oCat_def Let_def if_True if_False)
  next
    assume ba: "lexGreater b a"
    then show ?thesis using lexGreater_asym [OF ba] by (simp only: oCat_def Let_def if_True if_False)
  qed
next
  case False
  then have "a = b" using lexGreater_total by simp
  then show ?thesis by simp
qed

lemma oCat_split: "oCat a b = bytes_of ''oc'' @ a @ b \<or> oCat a b = bytes_of ''oc'' @ b @ a"
  unfolding oCat_def Let_def by (cases "lexGreater a b") (simp_all only: if_True if_False simp_thms)

lemma sessionInput_commute: "sessionInput sid k ya yb = sessionInput sid k yb ya"
  by (simp add: sessionInput_def oCat_commute)

lemma sessionInput_unique:
  assumes "sessionInput sid k ya yb = sessionInput sid' k' ya' yb'"
  shows "sid = sid' \<and> k = k' \<and> {ya, yb} = {ya', yb'}"
proof -
  have head: "[bytes_of cpaceDSIISK, sid, k] = [bytes_of cpaceDSIISK, sid', k']"
    and o: "oCat (lvCat [ya, []]) (lvCat [yb, []]) = oCat (lvCat [ya', []]) (lvCat [yb', []])"
    using lvCat_unique [of "[bytes_of cpaceDSIISK, sid, k]" "[bytes_of cpaceDSIISK, sid', k']"] assms
    unfolding sessionInput_def by auto
  have two: "{u, v} = {u', v'}"
    if "lvCat [u, []] @ lvCat [v, []] = lvCat [u', []] @ lvCat [v', []]" for u v u' v'
    using lvCat_inj [of "[u, [], v, []]" "[u', [], v', []]"] that by simp
  define X Y X' Y' where d: "X = lvCat [ya, []]" "Y = lvCat [yb, []]" "X' = lvCat [ya', []]" "Y' = lvCat [yb', []]"
  have "X @ Y = X' @ Y' \<or> X @ Y = Y' @ X' \<or> Y @ X = X' @ Y' \<or> Y @ X = Y' @ X'"
    using oCat_split [of X Y] oCat_split [of X' Y'] o unfolding d [symmetric] by auto
  then have "{ya, yb} = {ya', yb'}"
    unfolding d by (elim disjE) (drule two, simp add: insert_commute)+
  then show ?thesis using head by simp
qed

text \<open>C9: The hash input of the session key determines what it must bind: two transcripts that
  coincide have the same session identifier (the TLS exporter), the same shared point and the same
  two public shares, in either order. The encoding is LEB128 lengths before each field, for fields
  of any length.\<close>

theorem transcript_binding:
  assumes "sessionInput sid k ya yb = sessionInput sid' k' ya' yb'"
  shows "sid = sid' \<and> k = k' \<and> {ya, yb} = {ya', yb'}"
  by (rule sessionInput_unique [OF assms])

theorem transcript_binding_witness:
  "sessionInput [1] [2] [3] [4] = sessionInput [1] [2] [4] [3] \<and> {[3], [4]} = {[4], [3::byte]}"
  using transcript_binding [OF sessionInput_commute [of "[1]" "[2]" "[3]" "[4]"]] sessionInput_commute
  by blast

lemma length_prependLen_short: "length b < 128 \<Longrightarrow> length (prependLen b) = length b + 1"
  by (simp add: prependLen_def leb_short)

text \<open>The generator is derived from an input that determines the secret, the channel and the
  session; and for a secret of the length scrypt yields, the zero padding makes the password part
  fill exactly the first block of SHA-512.\<close>

lemma generator_input:
  "inj (\<lambda>(prs, ci, sid). generatorInput prs ci sid)
   \<and> (\<exists>pad. generatorInput prs ci sid = lvCat [bytes_of cpaceDSI, prs, pad] @ lvCat [ci, sid]
       \<and> (length prs = scryptLen \<longrightarrow> length (lvCat [bytes_of cpaceDSI, prs, pad]) = cpaceBlock))"
proof (intro conjI injI)
  fix x y :: "bytes \<times> bytes \<times> bytes"
  assume eq: "(\<lambda>(prs, ci, sid). generatorInput prs ci sid) x = (\<lambda>(prs, ci, sid). generatorInput prs ci sid) y"
  obtain p c i where x: "x = (p, c, i)" by (cases x)
  obtain q d j where y: "y = (q, d, j)" by (cases y)
  show "x = y"
    using lvCat_inj [OF eq [unfolded x y generatorInput_def Let_def prod.case]] by (simp add: x y)
next
  let ?pad = "replicate (nat (max 0 (int cpaceBlock - 1 - int (length (prependLen prs))
      - int (length (prependLen (bytes_of cpaceDSI)))))) 0"
  have dsi: "length (prependLen (bytes_of cpaceDSI)) = 18"
    by (simp add: length_prependLen_short cpaceDSI_def)
  have "length (lvCat [bytes_of cpaceDSI, prs, ?pad]) = cpaceBlock" if "length prs = scryptLen"
    using that dsi by (simp add: length_prependLen_short go_const)
  then show "\<exists>pad. generatorInput prs ci sid = lvCat [bytes_of cpaceDSI, prs, pad] @ lvCat [ci, sid]
       \<and> (length prs = scryptLen \<longrightarrow> length (lvCat [bytes_of cpaceDSI, prs, pad]) = cpaceBlock)"
    by (intro exI [of _ ?pad]) (simp add: generatorInput_def Let_def)
qed

section \<open>The laws are consistent\<close>

text \<open>A small commutative group action that satisfies them, for the witnesses.\<close>

definition toy_suite :: "(byte, byte) suite" where
  "toy_suite =
     \<lparr>scrypt_Key = (\<lambda>code salt n r p k. Inr (take k (code @ replicate k 0))),
      e_Identity = 0,
      e_SetUniformBytes = (\<lambda>b. if length b = 64 then Some 1 else None),
      e_SetCanonicalBytes = (\<lambda>b. if length b = 32 \<and> tl b = replicate 31 0 then Some (hd b) else None),
      e_Bytes = (\<lambda>e. e # replicate 31 0),
      e_ScalarMult = (*),
      s_SetUniformBytes = (\<lambda>b. if length b = 64 then Some (2 * hd b + 1) else None),
      aead_Seal = (\<lambda>k n m. m @ take 16 (k @ replicate 16 0)),
      aead_Open = (\<lambda>k n c. if drop (length c - 16) c = take 16 (k @ replicate 16 0)
                           then Some (take (length c - 16) c) else None)\<rparr>"

lemma toy_suite_ok: "suite_ok toy_suite"
  by (auto simp: suite_ok_def toy_suite_def mult.left_commute)

end
