(* ===== verification/Wire.thy ===== *)
theory Wire
  imports Pake Go_Slice
begin

text \<open>
  \<^verbatim>\<open>wire.go\<close>: the framing of the data plane, one side of the PAKE, and the sealing of a
  payload. A connection is its unread input, its written output and the room the network has
  left for it (a write beyond it fails, as on a broken connection or past the deadline).
\<close>

section \<open>Constants and channel\<close>

definition wireVersion :: nat where [go_const]: "wireVersion = 1"
definition alpnProto :: string where "alpnProto = ''tp/1''"
definition helloLen :: nat where [go_const]: "helloLen = 1 + pointLen"
definition maxFrame :: nat where [go_const]: "maxFrame = maxPasteSize + 64 * 1024"
definition maxOfferLen :: nat where [go_const]: "maxOfferLen = 2 + maxCandidates * (pointLen + macLen)"

definition channelID :: "string \<Rightarrow> bytes" where
  "channelID serverHostID = lvCat [bytes_of ''tp/v1'', bytes_of serverHostID]"

record conn =
  c_in :: bytes
  c_out :: bytes
  c_room :: nat

definition conn_Write :: "bytes \<Rightarrow> conn \<Rightarrow> go_error option \<times> conn" where
  "conn_Write b c =
     (if length b \<le> c_room c then (None, c\<lparr>c_out := c_out c @ b, c_room := c_room c - length b\<rparr>)
      else (Some ErrWrite, c\<lparr>c_out := c_out c @ take (c_room c) b, c_room := 0\<rparr>))"

definition io_ReadFull :: "nat \<Rightarrow> conn \<Rightarrow> bytes result \<times> conn" where
  "io_ReadFull n c =
     (if n \<le> length (c_in c) then (Inr (take n (c_in c)), c\<lparr>c_in := drop n (c_in c)\<rparr>)
      else (Inl (if c_in c = [] then ErrEOF else ErrUnexpectedEOF), c\<lparr>c_in := []\<rparr>))"

section \<open>Frames\<close>

definition writeFrame :: "bytes \<Rightarrow> conn \<Rightarrow> go_error option \<times> conn" where
  "writeFrame b c =
     (if length b > maxFrame then (Some ErrProtocol, c)
      else case conn_Write (be_bytes 4 (length b)) c of
        (Some e, c) \<Rightarrow> (Some e, c)
      | (None, c) \<Rightarrow> conn_Write b c)"

definition readFrame :: "nat \<Rightarrow> conn \<Rightarrow> bytes result \<times> conn" where
  "readFrame limit c =
     (case io_ReadFull 4 c of
        (Inl e, c) \<Rightarrow> (Inl e, c)
      | (Inr hdr, c) \<Rightarrow>
          let n = be_nat hdr
          in if n > limit then (Inl ErrProtocol, c) else io_ReadFull n c)"

section \<open>One side of the PAKE\<close>

record 's pakeSide =
  ps_scalar :: 's
  ps_share :: bytes
  ps_sk :: bytes

definition newPakeSide ::
  "('e, 's) suite \<Rightarrow> bytes \<Rightarrow> bytes \<Rightarrow> bytes \<Rightarrow> bytes \<Rightarrow> ('s pakeSide \<times> bytes) result" where
  "newPakeSide S prs ci sid rs =
     and_then (calculateGenerator S prs ci sid) (\<lambda>g.
     and_then (randomScalar S rs) (\<lambda>(y, rs').
       Inr (\<lparr>ps_scalar = y, ps_share = e_Bytes S (e_ScalarMult S y g), ps_sk = []\<rparr>, rs')))"

definition pake_finish :: "('e, 's) suite \<Rightarrow> 's pakeSide \<Rightarrow> bytes \<Rightarrow> bytes \<Rightarrow> 's pakeSide result" where
  "pake_finish S p peerShare sid =
     and_then (scalarMultVfy S (ps_scalar p) peerShare) (\<lambda>k.
       Inr (p\<lparr>ps_sk := sessionKey sid k (ps_share p) peerShare\<rparr>))"

definition serverTag :: "'s pakeSide \<Rightarrow> bytes" where
  "serverTag p = confirm (ps_sk p) ''tp/confirm/server''"

definition clientTag :: "'s pakeSide \<Rightarrow> bytes" where
  "clientTag p = confirm (ps_sk p) ''tp/confirm/client''"

text \<open>\<^verbatim>\<open>chacha20poly1305.New\<close> accepts keys of 32 bytes; the nonce has 12.\<close>

definition pake_aead :: "'s pakeSide \<Rightarrow> bytes result" where
  "pake_aead p =
     (let key = confirm (ps_sk p) ''tp/payload/v1''
      in if length key = 32 then Inr key else Inl (ErrMsg ''chacha20poly1305: bad key length''))"

definition pake_seal ::
  "('e, 's) suite \<Rightarrow> 's pakeSide \<Rightarrow> slice \<Rightarrow> heap \<Rightarrow> slice result \<times> heap" where
  "pake_seal S p body h =
     (case pake_aead p of
        Inl e \<Rightarrow> (Inl e, h)
      | Inr key \<Rightarrow>
          case sl_overwrite body (aead_Seal S key (replicate 12 0) (sl_read h body)) h of
            (sealed, h) \<Rightarrow> (Inr sealed, h))"

definition pake_open :: "('e, 's) suite \<Rightarrow> 's pakeSide \<Rightarrow> bytes \<Rightarrow> bytes result" where
  "pake_open S p sealed =
     and_then (pake_aead p) (\<lambda>key.
       case aead_Open S key (replicate 12 0) sealed of
         None \<Rightarrow> Inl (ErrMsg ''chacha20poly1305: message authentication failed'')
       | Some body \<Rightarrow> Inr body)"

section \<open>Framing\<close>

definition frame :: "bytes \<Rightarrow> bytes" where
  "frame b = be_bytes 4 (length b) @ b"

lemma be_nat_be_bytes: "n < 256 ^ k \<Longrightarrow> be_nat (be_bytes k n) = n"
proof (induction k arbitrary: n)
  case 0
  then show ?case by simp
next
  case (Suc k)
  then have "n div 256 < 256 ^ k" by (simp add: less_mult_imp_div_less)
  then have "be_nat (be_bytes k (n div 256)) = n div 256" by (rule Suc.IH)
  moreover have "unat (word_of_nat n :: byte) = n mod 256"
    by (simp add: unsigned_of_nat take_bit_eq_mod)
  ultimately show ?case by (simp add: be_nat_snoc)
qed

lemma frame_delimited:
  assumes "length a < 256 ^ 4" "length b < 256 ^ 4" "frame a @ s = frame b @ t"
  shows "a = b"
proof -
  have "be_bytes 4 (length a) @ (a @ s) = be_bytes 4 (length b) @ (b @ t)"
    using assms(3) by (simp only: frame_def append_assoc)
  then have h: "be_bytes 4 (length a) = be_bytes 4 (length b)" and r: "a @ s = b @ t"
    by (simp_all only: append_eq_append_conv length_be_bytes simp_thms)
  have "length a = be_nat (be_bytes 4 (length a))" by (rule be_nat_be_bytes [OF assms(1), symmetric])
  also have "\<dots> = length b" unfolding h by (rule be_nat_be_bytes [OF assms(2)])
  finally show ?thesis using r by (simp only: append_eq_append_conv simp_thms)
qed

interpretation fr: self_delimiting frame "\<lambda>b. length b < 256 ^ 4"
  by unfold_locales (rule frame_delimited)

lemma maxFrame_less: "n \<le> maxFrame \<Longrightarrow> n < 256 ^ 4"
  by (simp add: go_const)

lemma writeFrame_ok:
  "length b \<le> maxFrame \<Longrightarrow> length b + 4 \<le> c_room c \<Longrightarrow>
   writeFrame b c = (None, c\<lparr>c_out := c_out c @ frame b, c_room := c_room c - (length b + 4)\<rparr>)"
  by (simp add: writeFrame_def conn_Write_def frame_def)

lemma writeFrame_None:
  "writeFrame b c = (None, c') \<Longrightarrow>
   length b \<le> maxFrame \<and> length b + 4 \<le> c_room c
   \<and> c' = c\<lparr>c_out := c_out c @ frame b, c_room := c_room c - (length b + 4)\<rparr>"
  by (auto simp: writeFrame_def conn_Write_def frame_def split: if_splits)

lemma readFrame_frame:
  assumes "c_in c = frame b @ rest" and "length b \<le> limit" and "length b < 256 ^ 4"
  shows "readFrame limit c = (Inr b, c\<lparr>c_in := rest\<rparr>)"
  using assms by (simp add: readFrame_def io_ReadFull_def frame_def be_nat_be_bytes)

lemma be_bytes_be_nat: "length bs = k \<Longrightarrow> be_bytes k (be_nat bs) = bs"
proof (rule be_nat_inj)
  assume "length bs = k"
  then show "be_nat (be_bytes k (be_nat bs)) = be_nat bs"
    using be_nat_less [of bs] by (intro be_nat_be_bytes) simp
qed simp

lemma readFrame_sound:
  assumes "readFrame limit c = (Inr b, c')"
  shows "c_in c = frame b @ c_in c' \<and> length b \<le> limit \<and> c' = c\<lparr>c_in := c_in c'\<rparr>"
proof -
  have l: "4 \<le> length (c_in c)"
    using assms by (auto simp: readFrame_def io_ReadFull_def split: if_splits)
  let ?n = "be_nat (take 4 (c_in c))" and ?r = "drop 4 (c_in c)"
  have n: "?n \<le> limit" "?n \<le> length ?r" "b = take ?n ?r" "c' = c\<lparr>c_in := drop ?n ?r\<rparr>"
    using assms l by (auto simp: readFrame_def io_ReadFull_def Let_def split: if_splits)
  have "be_bytes 4 ?n = take 4 (c_in c)" using l by (intro be_bytes_be_nat) simp
  then have f: "frame b = take 4 (c_in c) @ take ?n ?r" using n by (simp add: frame_def)
  have "c_in c = take 4 (c_in c) @ take ?n ?r @ drop ?n ?r"
    by (simp only: append_take_drop_id)
  then have "c_in c = frame b @ c_in c'" using n(4) f by simp
  then show ?thesis using n by simp
qed

text \<open>C10: Framing is lossless both ways. What \<^verbatim>\<open>writeFrame\<close> puts on a connection without an
  error is exactly what \<^verbatim>\<open>readFrame\<close> with any limit not below its length takes off it again,
  whatever follows it; and whatever \<^verbatim>\<open>readFrame\<close> accepts is a frame within the limit.\<close>

theorem frame_roundtrip:
  "(writeFrame b c = (None, c') \<longrightarrow>
      (\<exists>fr. c_out c' = c_out c @ fr
         \<and> (\<forall>d rest limit. c_in d = fr @ rest \<and> length b \<le> limit \<longrightarrow>
              readFrame limit d = (Inr b, d\<lparr>c_in := rest\<rparr>))))
   \<and> (readFrame limit d = (Inr b, d') \<longrightarrow> c_in d = frame b @ c_in d' \<and> length b \<le> limit)"
proof (intro conjI impI)
  assume "writeFrame b c = (None, c')"
  from writeFrame_None [OF this] have b: "length b \<le> maxFrame" and c': "c_out c' = c_out c @ frame b"
    by simp_all
  show "\<exists>fr. c_out c' = c_out c @ fr
         \<and> (\<forall>d rest limit. c_in d = fr @ rest \<and> length b \<le> limit \<longrightarrow>
              readFrame limit d = (Inr b, d\<lparr>c_in := rest\<rparr>))"
    using c' readFrame_frame maxFrame_less [OF b] by blast
qed (use readFrame_sound in blast)+

theorem frame_roundtrip_witness:
  "readFrame 8 \<lparr>c_in = frame [1, 2] @ [3], c_out = [], c_room = 0\<rparr>
     = (Inr [1, 2], \<lparr>c_in = [3], c_out = [], c_room = 0\<rparr>)"
proof -
  let ?c = "\<lparr>c_in = [], c_out = [], c_room = 6\<rparr>"
  have w: "writeFrame [1, 2] ?c = (None, ?c\<lparr>c_out := frame [1, 2], c_room := 0\<rparr>)"
    using writeFrame_ok [of "[1, 2]" ?c] by (simp add: go_const)
  have f: "length (frame [1, 2]) = 6" by (simp add: frame_def)
  show ?thesis
    using frame_roundtrip [of "[1, 2]" ?c "?c\<lparr>c_out := frame [1, 2], c_room := 0\<rparr>" 0 ?c ?c] w
    by auto
qed

section \<open>Agreement\<close>

lemma suite_canonical: "suite_ok S \<Longrightarrow> e_SetCanonicalBytes S (e_Bytes S e) = Some e"
  and suite_points: "suite_ok S \<Longrightarrow> length (e_Bytes S e) = 32"
  and suite_commute: "suite_ok S \<Longrightarrow>
    e_ScalarMult S s (e_ScalarMult S t e) = e_ScalarMult S t (e_ScalarMult S s e)"
  and suite_aead: "suite_ok S \<Longrightarrow> aead_Open S k n (aead_Seal S k n m) = Some m"
  and suite_overhead: "suite_ok S \<Longrightarrow> length (aead_Seal S k n m) = length m + 16"
  and suite_element: "suite_ok S \<Longrightarrow> length b = 64 \<Longrightarrow> \<exists>e. e_SetUniformBytes S b = Some e"
  and suite_scalar: "suite_ok S \<Longrightarrow> length b = 64 \<Longrightarrow> \<exists>s. s_SetUniformBytes S b = Some s"
  and suite_scrypt: "suite_ok S \<Longrightarrow> \<exists>k. scrypt_Key S code salt 32768 8 1 32 = Inr k \<and> length k = 32"
  by (auto simp: suite_ok_def)

lemma scalarMultVfy_bytes:
  "suite_ok S \<Longrightarrow> scalarMultVfy S s (e_Bytes S p) =
     (if e_ScalarMult S s p = e_Identity S then Inl ErrBadPoint else Inr (e_Bytes S (e_ScalarMult S s p)))"
  by (simp add: scalarMultVfy_def suite_points suite_canonical pointLen_def Let_def)

text \<open>A side is its scalar and its share of the common generator.\<close>

lemma newPakeSide_share:
  assumes "newPakeSide S prs ci sid rs = Inr (p, rs')"
  shows "\<exists>g. calculateGenerator S prs ci sid = Inr g
    \<and> ps_share p = e_Bytes S (e_ScalarMult S (ps_scalar p) g)"
  using assms by (auto simp: newPakeSide_def and_then_Inr_iff)

lemma finish_agrees:
  assumes ok: "suite_ok S" and a: "newPakeSide S prs ci sid rs = Inr (a, rs')"
    and b: "newPakeSide S prs ci sid rt = Inr (b, rt')"
  shows "case pake_finish S a (ps_share b) sid of
       Inl e \<Rightarrow> e = ErrBadPoint \<and> pake_finish S b (ps_share a) sid = Inl ErrBadPoint
     | Inr a' \<Rightarrow> \<exists>b'. pake_finish S b (ps_share a) sid = Inr b' \<and> ps_sk b' = ps_sk a'
         \<and> length (ps_sk a') = 64"
proof -
  obtain g where g: "calculateGenerator S prs ci sid = Inr g"
    and sa: "ps_share a = e_Bytes S (e_ScalarMult S (ps_scalar a) g)"
    using newPakeSide_share [OF a] by blast
  have sb: "ps_share b = e_Bytes S (e_ScalarMult S (ps_scalar b) g)"
    using newPakeSide_share [OF b] g by auto
  have c: "e_ScalarMult S (ps_scalar b) (e_ScalarMult S (ps_scalar a) g)
      = e_ScalarMult S (ps_scalar a) (e_ScalarMult S (ps_scalar b) g)"
    by (rule suite_commute [OF ok])
  show ?thesis
    unfolding pake_finish_def
    by (simp add: sa sb scalarMultVfy_bytes [OF ok] c sessionKey_def)
      (subst sessionInput_commute, simp)
qed

text \<open>C3: The PAKE agrees: two sides made from the same secret, channel and session, whatever
  their random scalars, either both refuse the other's share with \<^verbatim>\<open>errBadPoint\<close> (the shared
  point is the identity) or both finish with the same session key, and so with the same
  confirmation tags and payload key.\<close>

theorem pake_agreement:
  assumes "suite_ok S" and "newPakeSide S prs ci sid rs = Inr (a, rs')"
    and "newPakeSide S prs ci sid rt = Inr (b, rt')"
  shows "case pake_finish S a (ps_share b) sid of
       Inl e \<Rightarrow> e = ErrBadPoint \<and> pake_finish S b (ps_share a) sid = Inl ErrBadPoint
     | Inr a' \<Rightarrow> \<exists>b'. pake_finish S b (ps_share a) sid = Inr b' \<and> ps_sk b' = ps_sk a'
         \<and> serverTag b' = serverTag a' \<and> clientTag b' = clientTag a' \<and> pake_aead b' = pake_aead a'"
  using finish_agrees [OF assms]
  by (auto simp: serverTag_def clientTag_def pake_aead_def split: sum.splits)

lemma toy_side:
  "newPakeSide toy_suite prs ci sid (replicate 64 x)
     = Inr (\<lparr>ps_scalar = 2 * x + 1, ps_share = (2 * x + 1) # replicate 31 0, ps_sk = []\<rparr>, [])"
  by (simp add: newPakeSide_def calculateGenerator_def randomScalar_def rand_Read_def toy_suite_def)

lemma toy_finish:
  "pake_finish toy_suite \<lparr>ps_scalar = 1, ps_share = ya, ps_sk = []\<rparr> (1 # replicate 31 0) sid
     = Inr \<lparr>ps_scalar = 1, ps_share = ya, ps_sk = sessionKey sid (1 # replicate 31 0) ya (1 # replicate 31 0)\<rparr>"
  by (simp add: pake_finish_def scalarMultVfy_def toy_suite_def Let_def pointLen_def)

theorem pake_agreement_witness:
  "\<exists>a b a' b'. newPakeSide toy_suite [7] [] [1] (replicate 64 0) = Inr (a, [])
     \<and> newPakeSide toy_suite [7] [] [1] (replicate 64 0) = Inr (b, [])
     \<and> pake_finish toy_suite a (ps_share b) [1] = Inr a'
     \<and> pake_finish toy_suite b (ps_share a) [1] = Inr b' \<and> serverTag a' = serverTag b'"
proof -
  note side = toy_side [of "[7]" "[]" "[1]" 0, simplified]
  show ?thesis
    using pake_agreement [OF toy_suite_ok side side] side toy_finish by simp
qed

section \<open>Sealing\<close>

lemma pake_aead_key [simp]: "pake_aead p = Inr (confirm (ps_sk p) ''tp/payload/v1'')"
  by (simp add: pake_aead_def confirm_def)

lemma seal_in_place:
  assumes ok: "suite_ok S" and "body \<noteq> NilSlice" and len: "sl_ok h body"
    and cap: "sl_cap h body = sl_len body + aeadOverhead"
  shows "pake_seal S p body h =
    (Inr (Slice (sl_addr body) (sl_len body + 16)),
     h\<lparr>h_cell := (h_cell h)(sl_addr body :=
        aead_Seal S (confirm (ps_sk p) ''tp/payload/v1'') (replicate 12 0) (sl_read h body))\<rparr>)"
proof -
  obtain a n where b: "body = Slice a n" using assms(2) by (cases body) auto
  then have "length (sl_read h body) = n" "length (h_cell h a) = n + 16"
    using length_sl_read [OF len] cap by (simp_all add: aeadOverhead_def)
  then show ?thesis
    using suite_overhead [OF ok] by (simp add: pake_seal_def sl_overwrite_def poke_def b)
qed

lemma open_sealed:
  assumes "suite_ok S" and "ps_sk b = ps_sk a"
  shows "pake_open S b (aead_Seal S (confirm (ps_sk a) ''tp/payload/v1'') (replicate 12 0) m) = Inr m"
  using assms by (simp add: pake_open_def suite_aead)

text \<open>C11: A payload sealed by one side is opened by the side with the same session key; and sealing
  writes only the buffer it was given: sealing a buffer that \<^verbatim>\<open>take\<close> made (with room
  for the tag) reuses its array, allocates nothing, and leaves every other array alone.\<close>

theorem seal_opens:
  assumes "suite_ok S" and "body \<noteq> NilSlice" and "sl_ok h body"
    and "sl_cap h body = sl_len body + aeadOverhead" and "ps_sk b = ps_sk a"
  shows "case pake_seal S a body h of (r, h') \<Rightarrow>
     (\<exists>sealed. r = Inr sealed \<and> sl_addr sealed = sl_addr body \<and> sl_len sealed = sl_len body + aeadOverhead
        \<and> pake_open S b (sl_read h' sealed) = Inr (sl_read h body))
     \<and> h_next h' = h_next h
     \<and> (\<forall>x. x \<noteq> sl_addr body \<longrightarrow> h_cell h' x = h_cell h x)"
proof -
  have l: "length (aead_Seal S (confirm (ps_sk a) ''tp/payload/v1'') (replicate 12 0) (sl_read h body))
      = sl_len body + 16"
    using suite_overhead [OF assms(1)] length_sl_read [OF assms(3)] by simp
  show ?thesis
    unfolding seal_in_place [OF assms(1-4)]
    using open_sealed [OF assms(1,5)] l by (simp add: aeadOverhead_def)
qed

theorem seal_opens_witness:
  "\<exists>sealed h'. pake_seal toy_suite \<lparr>ps_scalar = 1, ps_share = [], ps_sk = [5]\<rparr> (Slice 0 2)
        \<lparr>h_next = 1, h_cell = (\<lambda>_. [])(0 := [104, 105] @ replicate 16 0)\<rparr> = (Inr sealed, h')
     \<and> pake_open toy_suite \<lparr>ps_scalar = 3, ps_share = [], ps_sk = [5]\<rparr> (sl_read h' sealed) = Inr [104, 105]"
proof -
  let ?h = "\<lparr>h_next = 1, h_cell = (\<lambda>_. [])(0 := [104, 105] @ replicate 16 0)\<rparr>"
  let ?a = "\<lparr>ps_scalar = 1::byte, ps_share = [], ps_sk = [5]\<rparr>"
  let ?b = "\<lparr>ps_scalar = 3::byte, ps_share = [], ps_sk = [5]\<rparr>"
  have "sl_ok ?h (Slice 0 2)" "sl_cap ?h (Slice 0 2) = sl_len (Slice 0 2) + aeadOverhead"
    "sl_read ?h (Slice 0 2) = [104, 105]"
    by (simp_all add: aeadOverhead_def numeral_2_eq_2)
  then show ?thesis
    using seal_opens [OF toy_suite_ok, of "Slice 0 2" ?h ?b ?a]
    by (cases "pake_seal toy_suite ?a (Slice 0 2) ?h") auto
qed

end
