(* ===== verification/Pins.thy ===== *)
theory Pins
  imports Go_Map Go_Strings Encoding Sha2
begin

text \<open>
  \<^verbatim>\<open>pins.go\<close>: the cache of host keys, a text file of lines \<open>host SPKI hostname\<close>, and
  \<^verbatim>\<open>hostID\<close> of \<^verbatim>\<open>identity.go\<close>. The file is its content, or \<open>None\<close> when there is
  none; \<open>disk\<close> says which of the operating system's calls fail.
\<close>

section \<open>Identifiers\<close>

definition hostIDLen :: nat where [go_const]: "hostIDLen = 12"

definition hostID :: "bytes \<Rightarrow> string" where
  "hostID spki = take hostIDLen (crockford_Encode (sha256_Sum256 spki))"

definition spkiHash :: "bytes \<Rightarrow> string" where
  "spkiHash spki = base64_RawStd_Encode (sha256_Sum256 spki)"

section \<open>The file\<close>

record pin =
  pin_SPKI :: string
  pin_Hostname :: string

record disk =
  d_path :: bool
  d_open :: bool
  d_temp :: bool
  d_room :: nat

definition read_line :: "unicode \<Rightarrow> string \<Rightarrow> (string, pin) gomap \<Rightarrow> (string, pin) gomap" where
  "read_line uni line pins =
     (let fields = strings_Fields uni line
      in if length fields < 2 then pins
         else mput (fields ! 0)
           \<lparr>pin_SPKI = fields ! 1, pin_Hostname = (if length fields > 2 then fields ! 2 else [])\<rparr> pins)"

fun read_lines :: "unicode \<Rightarrow> string list \<Rightarrow> (string, pin) gomap \<times> nat \<Rightarrow> (string, pin) gomap \<times> nat" where
  "read_lines uni [] acc = acc"
| "read_lines uni (line # ls) (pins, n) = read_lines uni ls (read_line uni line pins, n + 1)"

definition readPins :: "unicode \<Rightarrow> disk \<Rightarrow> string option \<Rightarrow> (string, pin) gomap \<times> nat" where
  "readPins uni d file =
     (if \<not> d_path d then ([], 0)
      else case file of None \<Rightarrow> ([], 0) | Some b \<Rightarrow> read_lines uni (strings_Lines b) ([], 0))"

text \<open>\<^verbatim>\<open>fmt.Fprintf(w, "%s %s %s\n", ...)\<close>.\<close>

definition pin_line :: "string \<Rightarrow> pin \<Rightarrow> string" where
  "pin_line hid p = hid @ '' '' @ pin_SPKI p @ '' '' @ pin_Hostname p @ [CHR 0x0A]"

text \<open>\<open>ord\<close> is the order in which the loop visits the map. The rename is atomic.\<close>

definition writePins ::
  "disk \<Rightarrow> (string \<times> pin) list \<Rightarrow> string option \<Rightarrow> go_error option \<times> string option" where
  "writePins d ord file =
     (let b = concat (map (\<lambda>(hid, p). pin_line hid p) ord)
      in if \<not> d_temp d then (Some ErrOpen, file)
         else if d_room d < length b then (Some ErrWrite, file)
         else (None, Some b))"

definition savePin ::
  "unicode \<Rightarrow> disk \<Rightarrow> string \<Rightarrow> pin \<Rightarrow> (string \<times> pin) list \<Rightarrow> string option
    \<Rightarrow> go_error option \<times> string option" where
  "savePin uni d hid p ord file =
     (case readPins uni d file of (pins, lines) \<Rightarrow>
        if mget pins hid = Some p then (None, file)
        else if \<not> d_path d then (Some ErrOpen, file)
        else
          let pins = mput hid p pins
          in if lines \<ge> 2 * length pins then writePins d ord file
             else if \<not> d_open d then (Some ErrOpen, file)
             else
               let old = (case file of None \<Rightarrow> [] | Some b \<Rightarrow> b); l = pin_line hid p
               in if d_room d < length l then (Some ErrWrite, Some (old @ take (d_room d) l))
                  else (None, Some (old @ l)))"

section \<open>Reading\<close>

definition blankless :: "string \<Rightarrow> bool" where
  "blankless s \<longleftrightarrow> list_all (\<lambda>c. ascii c \<and> \<not> ascii_space c) s"

text \<open>A host ID and a pin that survive the line format.\<close>

definition clean_pin :: "string \<Rightarrow> pin \<Rightarrow> bool" where
  "clean_pin hid p \<longleftrightarrow>
     hid \<noteq> [] \<and> blankless hid \<and> pin_SPKI p \<noteq> [] \<and> blankless (pin_SPKI p) \<and> blankless (pin_Hostname p)"

lemma blankless_fields: "blankless s \<Longrightarrow> list_all (\<lambda>c. \<not> ascii_space c) s"
  by (auto simp: blankless_def list_all_iff)

lemma blankless_newline: "blankless s \<Longrightarrow> CHR 0x0A \<notin> set s"
  using newline_space by (auto simp: blankless_def list_all_iff)

lemma pin_line_ascii: "clean_pin hid p \<Longrightarrow> list_all ascii (pin_line hid p)"
  by (auto simp: clean_pin_def blankless_def pin_line_def list_all_iff ascii_def)

lemma fields_last:
  "list_all (\<lambda>c. \<not> ascii_space c) w \<Longrightarrow> fields_loop [] (w @ [CHR 0x0A]) = (if w = [] then [] else [w])"
  using fields_next [of w "CHR 0x0A" "[]"] newline_space by auto

lemma pin_line_fields:
  assumes "clean_pin hid p"
  shows "strings_Fields uni (pin_line hid p) =
    hid # pin_SPKI p # (if pin_Hostname p = [] then [] else [pin_Hostname p])"
proof -
  have c: "hid \<noteq> []" "pin_SPKI p \<noteq> []" "list_all (\<lambda>c. \<not> ascii_space c) hid"
    "list_all (\<lambda>c. \<not> ascii_space c) (pin_SPKI p)" "list_all (\<lambda>c. \<not> ascii_space c) (pin_Hostname p)"
    using assms by (auto simp: clean_pin_def blankless_fields)
  then have "ascii_Fields (pin_line hid p) =
      hid # pin_SPKI p # (if pin_Hostname p = [] then [] else [pin_Hostname p])"
    using fields_last [of "pin_Hostname p"]
    by (simp add: ascii_Fields_def pin_line_def fields_next blank_space)
  then show ?thesis using pin_line_ascii [OF assms] by (simp add: strings_Fields_def)
qed

lemma read_pin_line: "clean_pin hid p \<Longrightarrow> read_line uni (pin_line hid p) pins = mput hid p pins"
  by (cases p) (simp add: read_line_def pin_line_fields)

lemma pin_line_lines:
  assumes "clean_pin hid p"
  shows "strings_Lines (pin_line hid p @ s) = pin_line hid p # strings_Lines s"
proof -
  let ?l = "hid @ '' '' @ pin_SPKI p @ '' '' @ pin_Hostname p"
  have "CHR 0x0A \<notin> set ?l"
    using assms by (auto simp: clean_pin_def dest: blankless_newline)
  from lines_line [OF this, of s] show ?thesis by (simp add: pin_line_def)
qed

lemma read_lines_append:
  "read_lines uni (ls @ ms) acc = read_lines uni ms (read_lines uni ls acc)"
  by (induction uni ls acc rule: read_lines.induct) auto

lemma read_lines_count: "snd (read_lines uni ls acc) = snd acc + length ls"
  by (induction uni ls acc rule: read_lines.induct) auto

text \<open>Lines of clean pins read back as updates.\<close>

definition put_all :: "(string \<times> pin) list \<Rightarrow> (string, pin) gomap \<Rightarrow> (string, pin) gomap" where
  "put_all ord m = foldl (\<lambda>m (k, v). mput k v m) m ord"

lemma read_pin_lines:
  "\<forall>(k, p) \<in> set ord. clean_pin k p \<Longrightarrow>
   read_lines uni (strings_Lines (concat (map (\<lambda>(k, p). pin_line k p) ord))) (m, n)
     = (put_all ord m, n + length ord)"
proof (induction ord arbitrary: m n)
  case Nil
  then show ?case by (simp add: strings_Lines_def put_all_def)
next
  case (Cons e ord)
  obtain k p where e: "e = (k, p)" by (cases e)
  have "clean_pin k p" using Cons.prems e by simp
  then show ?case
    using Cons.IH [of "mput k p m" "n + 1"] Cons.prems
    by (simp add: e pin_line_lines read_pin_line put_all_def)
qed

lemma mget_put_all:
  "distinct (map fst ord) \<Longrightarrow>
   mget (put_all ord m) k = (case mget ord k of None \<Rightarrow> mget m k | Some v \<Rightarrow> Some v)"
proof (induction ord arbitrary: m)
  case Nil
  then show ?case by (simp add: put_all_def)
next
  case (Cons e ord)
  obtain k' v where e: "e = (k', v)" by (cases e)
  have "put_all (e # ord) m = put_all ord (mput k' v m)" by (simp add: e put_all_def)
  moreover have "mget ord k' = None" using Cons.prems e by (auto simp: mget_None_iff)
  moreover have "mget (e # ord) k = (if k = k' then Some v else mget ord k)"
    by (simp add: mget_def e)
  ultimately show ?case using Cons.IH [of "mput k' v m"] Cons.prems by (auto split: option.splits)
qed

lemma length_put_all:
  "distinct (map fst ord) \<Longrightarrow> \<forall>k \<in> fst ` set ord. mget m k = None \<Longrightarrow>
   length (put_all ord m) = length m + length ord"
proof (induction ord arbitrary: m)
  case Nil
  then show ?case by (simp add: put_all_def)
next
  case (Cons e ord)
  obtain k v where e: "e = (k, v)" by (cases e)
  have "put_all (e # ord) m = put_all ord (mput k v m)" by (simp add: e put_all_def)
  moreover have "\<forall>k' \<in> fst ` set ord. mget (mput k v m) k' = None"
    using Cons.prems e by auto
  ultimately show ?case using Cons.IH [of "mput k v m"] Cons.prems e by (auto simp: length_mput)
qed

lemma visits_facts:
  assumes "mwf m" and "visits ord m"
  shows "distinct (map fst ord)" and "mget ord k = mget m k" and "length ord = length m"
    and "set ord = set m"
proof -
  have ms: "mset (map fst ord) = mset (map fst m)" using assms(2) by (simp add: visits_def)
  then show d: "distinct (map fst ord)"
    using assms(1) by (metis mset_eq_imp_distinct_iff mwf_def)
  show s: "set ord = set m" using assms(2) by (metis set_mset_mset visits_def)
  then have "mget ord k = Some v \<longleftrightarrow> mget m k = Some v" for v
    using d assms(1) by (metis mem_iff_mget mwf_def)
  then show "mget ord k = mget m k" by (metis option.exhaust)
  show "length ord = length m" using assms(2) by (metis size_mset visits_def)
qed

text \<open>What is read from an ASCII file is clean.\<close>

lemma ascii_fields_blankless:
  assumes "list_all ascii s" and "f \<in> set (strings_Fields uni s)"
  shows "f \<noteq> [] \<and> blankless f"
proof -
  have "f \<in> set (fields_loop [] s)" using assms by (simp add: strings_Fields_def ascii_Fields_def)
  from fields_loop_clean [OF _ this] assms(1) show ?thesis
    by (auto simp: blankless_def list_all_iff)
qed

lemma clean_mput:
  "\<forall>(k, p) \<in> set m. clean_pin k p \<Longrightarrow> mwf m \<Longrightarrow> clean_pin h q \<Longrightarrow>
   \<forall>(k, p) \<in> set (mput h q m). clean_pin k p"
  unfolding split_beta by (rule ball_mput) simp_all

lemma read_line_clean:
  assumes "list_all ascii line" and "\<forall>(k, p) \<in> set m. clean_pin k p" and "mwf m"
  shows "\<forall>(k, p) \<in> set (read_line uni line m). clean_pin k p"
proof -
  let ?f = "strings_Fields uni line"
  have f: "?f ! i \<noteq> [] \<and> blankless (?f ! i)" if "i < length ?f" for i
    using ascii_fields_blankless [OF assms(1) nth_mem [OF that]] .
  show ?thesis
  proof (cases "length ?f < 2")
    case True
    then have "read_line uni line m = m" by (simp add: read_line_def)
    then show ?thesis using assms(2) by simp
  next
    case False
    define p where "p = \<lparr>pin_SPKI = ?f ! 1, pin_Hostname = (if 2 < length ?f then ?f ! 2 else [])\<rparr>"
    have "read_line uni line m = mput (?f ! 0) p m" using False by (simp add: read_line_def p_def Let_def)
    moreover have "?f \<noteq> []" "blankless []" using False by (auto simp: blankless_def)
    then have "clean_pin (?f ! 0) p" using False f [of 0] f [of 1] f [of 2] by (simp add: clean_pin_def p_def)
    ultimately show ?thesis using clean_mput [OF assms(2,3)] by simp
  qed
qed

lemma read_line_mwf: "mwf m \<Longrightarrow> mwf (read_line uni line m)"
  by (simp add: read_line_def Let_def)

lemma read_lines_clean:
  "\<forall>l \<in> set ls. list_all ascii l \<Longrightarrow> \<forall>(k, p) \<in> set m. clean_pin k p \<Longrightarrow> mwf m \<Longrightarrow>
   (\<forall>(k, p) \<in> set (fst (read_lines uni ls (m, n))). clean_pin k p) \<and> mwf (fst (read_lines uni ls (m, n)))"
proof (induction ls arbitrary: m n)
  case (Cons l ls)
  then show ?case using read_line_clean [of l m uni] read_line_mwf [of m uni l] by simp
qed simp

text \<open>A file as the program leaves it: ASCII, whole lines.\<close>

definition pins_file :: "string option \<Rightarrow> bool" where
  "pins_file file \<longleftrightarrow>
     (case file of None \<Rightarrow> True | Some b \<Rightarrow> list_all ascii b \<and> (b = [] \<or> last b = CHR 0x0A))"

lemma readPins_clean:
  assumes "pins_file file" and "readPins uni d file = (pins, lines)"
  shows "\<forall>(k, p) \<in> set pins. clean_pin k p" and "mwf pins"
proof -
  have "(\<forall>(k, p) \<in> set pins. clean_pin k p) \<and> mwf pins"
  proof (cases "\<exists>b. file = Some b \<and> d_path d")
    case True
    then obtain b where b: "file = Some b" "d_path d" by blast
    have "\<forall>l \<in> set (strings_Lines b). list_all ascii l"
      using assms(1) b lines_loop_set [of _ "[]" b]
      by (fastforce simp: strings_Lines_def pins_file_def list_all_iff)
    then show ?thesis
      using read_lines_clean [of "strings_Lines b" "[]" uni 0] assms(2) b by (simp add: readPins_def)
  next
    case False
    then have "pins = []" using assms(2) by (auto simp: readPins_def split: option.splits if_splits)
    then show ?thesis by simp
  qed
  then show "\<forall>(k, p) \<in> set pins. clean_pin k p" and "mwf pins" by simp_all
qed

section \<open>Saving\<close>

lemma readPins_append:
  assumes "pins_file file" and "readPins uni d file = (pins, lines)" and "d_path d" and "clean_pin hid p"
  shows "readPins uni d (Some ((case file of None \<Rightarrow> [] | Some b \<Rightarrow> b) @ pin_line hid p))
    = (mput hid p pins, lines + 1)"
proof -
  let ?old = "case file of None \<Rightarrow> [] | Some b \<Rightarrow> b"
  have "strings_Lines (?old @ pin_line hid p) = strings_Lines ?old @ [pin_line hid p]"
    using lines_append [of ?old "pin_line hid p"] assms(1) pin_line_lines [OF assms(4), of "[]"]
    by (auto simp: pins_file_def strings_Lines_def split: option.splits)
  moreover have "read_lines uni (strings_Lines ?old) ([], 0) = (pins, lines)"
    using assms(2,3) by (auto simp: readPins_def strings_Lines_def split: option.splits)
  ultimately show ?thesis
    using assms(3) by (simp add: readPins_def read_lines_append read_pin_line [OF assms(4)])
qed

lemma pins_file_append:
  "pins_file file \<Longrightarrow> clean_pin hid p \<Longrightarrow>
   pins_file (Some ((case file of None \<Rightarrow> [] | Some b \<Rightarrow> b) @ pin_line hid p))"
  using pin_line_ascii [of hid p] by (auto simp: pins_file_def pin_line_def split: option.splits)

lemma pins_file_write:
  assumes "\<forall>(k, p) \<in> set ord. clean_pin k p"
  shows "pins_file (Some (concat (map (\<lambda>(k, p). pin_line k p) ord)))"
proof -
  have "list_all ascii (concat (map (\<lambda>(k, p). pin_line k p) ord))"
    using assms pin_line_ascii by (fastforce simp: list_all_iff)
  moreover have "concat (map (\<lambda>(k, p). pin_line k p) ord) = []
      \<or> last (concat (map (\<lambda>(k, p). pin_line k p) ord)) = CHR 0x0A"
  proof (cases ord rule: rev_cases)
    case (snoc ord' e)
    then show ?thesis by (cases e) (simp add: pin_line_def)
  qed simp
  ultimately show ?thesis by (simp add: pins_file_def)
qed

lemma savePin_written:
  assumes pf: "pins_file file" and c: "clean_pin hid p"
    and rd: "readPins uni d file = (pins, lines)" and v: "visits ord (mput hid p pins)"
    and sv: "savePin uni d hid p ord file = (None, file')" and new: "mget pins hid \<noteq> Some p"
  shows "pins_file file'"
    and "mget (fst (readPins uni d file')) k = mget (mput hid p pins) k"
    and "snd (readPins uni d file') \<le> 2 * length (fst (readPins uni d file'))"
proof -
  note cl = readPins_clean [OF pf rd]
  have path: "d_path d" using sv rd new by (auto simp: savePin_def split: if_splits)
  have wf: "mwf (mput hid p pins)" using cl(2) by simp
  have "pins_file file' \<and> mget (fst (readPins uni d file')) k = mget (mput hid p pins) k
    \<and> snd (readPins uni d file') \<le> 2 * length (fst (readPins uni d file'))"
  proof (cases "lines \<ge> 2 * length (mput hid p pins)")
    case True
    let ?b = "concat (map (\<lambda>(k, p). pin_line k p) ord)"
    have f': "file' = Some ?b"
      using sv rd new path True by (auto simp: savePin_def writePins_def Let_def split: if_splits)
    note vf = visits_facts [OF wf v]
    have co: "\<forall>(k, p) \<in> set ord. clean_pin k p"
      using clean_mput [OF cl c] vf(4) by simp
    have r: "readPins uni d file' = (put_all ord [], length ord)"
      using read_pin_lines [OF co, of uni "[]" 0] path by (simp add: readPins_def f')
    have "mget (put_all ord []) k = mget (mput hid p pins) k"
      using mget_put_all [OF vf(1), of "[]" k] vf(2) [of k] by (simp split: option.splits)
    moreover have "length (put_all ord []) = length ord"
      using length_put_all [OF vf(1), of "[]"] by simp
    ultimately show ?thesis using r f' pins_file_write [OF co] by simp
  next
    case False
    have f': "file' = Some ((case file of None \<Rightarrow> [] | Some b \<Rightarrow> b) @ pin_line hid p)"
      using sv rd new path False by (auto simp: savePin_def Let_def split: if_splits)
    show ?thesis
      using readPins_append [OF pf rd path c] pins_file_append [OF pf c] False f' by simp
  qed
  then show "pins_file file'"
    and "mget (fst (readPins uni d file')) k = mget (mput hid p pins) k"
    and "snd (readPins uni d file') \<le> 2 * length (fst (readPins uni d file'))" by simp_all
qed

text \<open>C19: The pin cache is a map kept in a text file. Saving a pin whose fields have no blanks in
  them, to a file as the program leaves it, whether it appends a line or compacts the file, makes
  the next read return the new pin for its host and the old ones for all others, leaves a file as
  the program leaves it, and unless it wrote nothing, one of at most twice as many lines as hosts:
  stale history cannot pile up.\<close>

theorem savePin_roundtrip:
  assumes "pins_file file" and "clean_pin hid p" and "readPins uni d file = (pins, lines)"
    and "visits ord (mput hid p pins)" and "savePin uni d hid p ord file = (None, file')"
  shows "pins_file file'
    \<and> (\<forall>k. mget (fst (readPins uni d file')) k = (if k = hid then Some p else mget pins k))
    \<and> (file' = file \<or> snd (readPins uni d file') \<le> 2 * length (fst (readPins uni d file')))"
proof (cases "mget pins hid = Some p")
  case True
  then have "file' = file" using assms(3,5) by (simp add: savePin_def)
  then show ?thesis using assms(1,3) True by simp
next
  case False
  show ?thesis
    using savePin_written [OF assms False] by simp
qed

definition good_disk :: disk where
  "good_disk = \<lparr>d_path = True, d_open = True, d_temp = True, d_room = 1000\<rparr>"

definition demo_pin :: pin where
  "demo_pin = \<lparr>pin_SPKI = ''aaaa'', pin_Hostname = ''laptop''\<rparr>"

lemma demo_pin_clean: "clean_pin ''HOST1'' demo_pin"
  by (simp add: clean_pin_def blankless_def demo_pin_def ascii_def ascii_space_def)

lemma demo_save: "savePin uni good_disk ''HOST1'' demo_pin [(''HOST1'', demo_pin)] None
    = (None, Some (pin_line ''HOST1'' demo_pin))"
  by (simp add: savePin_def readPins_def good_disk_def mput_def pin_line_def demo_pin_def)

theorem savePin_roundtrip_witness:
  "mget (fst (readPins no_unicode good_disk (Some (pin_line ''HOST1'' demo_pin)))) ''HOST1'' = Some demo_pin"
proof -
  have "readPins no_unicode good_disk None = ([], 0)" by (simp add: readPins_def)
  moreover have "visits [(''HOST1'', demo_pin)] (mput ''HOST1'' demo_pin [])"
    by (simp add: visits_def mput_def)
  ultimately show ?thesis
    using savePin_roundtrip [OF _ demo_pin_clean _ _ demo_save] by (simp add: pins_file_def)
qed

section \<open>Host names from the network\<close>

text \<open>C20: A host name with a line break in it forges a pin. The host name a fetch pins comes from
  the mDNS \<^verbatim>\<open>host=\<close> record, which any machine on the network can send, and is written to the
  line format as it is: a successful fetch from one host then also stores a key of the sender's
  choice for any other host ID.\<close>

theorem hostname_forges_pin:
  assumes "pins_file file" and "clean_pin hid \<lparr>pin_SPKI = spki, pin_Hostname = name\<rparr>"
    and "clean_pin victim \<lparr>pin_SPKI = key, pin_Hostname = []\<rparr>"
    and "readPins uni d file = (pins, lines)"
    and "d_path d" and "d_open d"
    and "p = \<lparr>pin_SPKI = spki, pin_Hostname = name @ [CHR 0x0A] @ victim @ '' '' @ key\<rparr>"
    and "mget pins hid \<noteq> Some p" and "lines < 2 * length (mput hid p pins)"
    and "length (pin_line hid p) \<le> d_room d"
  shows "case savePin uni d hid p ord file of (err, file') \<Rightarrow>
    err = None \<and> mget (fst (readPins uni d file')) victim = Some \<lparr>pin_SPKI = key, pin_Hostname = []\<rparr>"
proof -
  let ?old = "case file of None \<Rightarrow> [] | Some b \<Rightarrow> b"
  let ?p1 = "\<lparr>pin_SPKI = spki, pin_Hostname = name\<rparr>"
  let ?p2 = "\<lparr>pin_SPKI = key, pin_Hostname = []\<rparr>"
  let ?l2 = "victim @ '' '' @ key @ [CHR 0x0A]"
  have ln: "pin_line hid p = pin_line hid ?p1 @ ?l2"
    by (simp add: pin_line_def assms(7))
  have sv: "savePin uni d hid p ord file = (None, Some (?old @ pin_line hid p))"
    using assms(4-6,8-10) by (simp add: savePin_def Let_def)
  have b2: "victim \<noteq> []" "key \<noteq> []" "blankless victim" "blankless key"
    using assms(3) by (simp_all add: clean_pin_def)
  have "CHR 0x0A \<notin> set (victim @ '' '' @ key)"
    using b2 by (auto dest: blankless_newline)
  from lines_line [OF this, of "[]"] have l2: "strings_Lines ?l2 = [?l2]"
    by (simp add: strings_Lines_def)
  have "ascii_Fields ?l2 = [victim, key]"
    using b2 fields_last [of key]
    by (simp add: ascii_Fields_def fields_next blankless_fields blank_space)
  moreover have "list_all ascii ?l2" using b2 by (auto simp: blankless_def list_all_iff ascii_def)
  ultimately have r2: "read_line uni ?l2 m = mput victim ?p2 m" for m
    by (simp add: read_line_def strings_Fields_def)
  have "strings_Lines (?old @ pin_line hid p) = strings_Lines ?old @ [pin_line hid ?p1, ?l2]"
    using lines_append [of ?old "pin_line hid p"] assms(1) pin_line_lines [OF assms(2), of ?l2] l2 ln
    by (auto simp: pins_file_def split: option.splits)
  then have "readPins uni d (Some (?old @ pin_line hid p))
      = read_lines uni [pin_line hid ?p1, ?l2] (read_lines uni (strings_Lines ?old) ([], 0))"
    using assms(5) by (simp add: readPins_def read_lines_append)
  then show ?thesis
    unfolding sv
    by (cases "read_lines uni (strings_Lines ?old) ([], 0)") (simp add: r2 [simplified])
qed

theorem hostname_forges_pin_witness:
  "\<exists>file. savePin no_unicode good_disk ''HOST1''
       \<lparr>pin_SPKI = ''aaaa'', pin_Hostname = ''x'' @ [CHR 0x0A] @ ''HOST2'' @ '' '' @ ''evil''\<rparr> [] None
       = (None, file)
     \<and> mget (fst (readPins no_unicode good_disk file)) ''HOST2'' = Some \<lparr>pin_SPKI = ''evil'', pin_Hostname = []\<rparr>"
proof -
  let ?p = "\<lparr>pin_SPKI = ''aaaa'', pin_Hostname = ''x'' @ [CHR 0x0A] @ ''HOST2'' @ '' '' @ ''evil''\<rparr>"
  have c: "clean_pin ''HOST1'' \<lparr>pin_SPKI = ''aaaa'', pin_Hostname = ''x''\<rparr>"
    "clean_pin ''HOST2'' \<lparr>pin_SPKI = ''evil'', pin_Hostname = []\<rparr>"
    by (simp_all add: clean_pin_def blankless_def ascii_def ascii_space_def)
  have rd: "readPins no_unicode good_disk None = ([], 0)" by (simp add: readPins_def)
  have "pins_file None" by (simp add: pins_file_def)
  from hostname_forges_pin [OF this c rd _ _ refl, of "[]"] show ?thesis
    by (cases "savePin no_unicode good_disk ''HOST1'' ?p [] None")
      (simp add: good_disk_def mput_def pin_line_def)
qed

end
