(* ===== verification/Go_Parse.thy ===== *)
theory Go_Parse
  imports Go_Float
begin

text \<open>
  Numbers and durations as text: \<^verbatim>\<open>strconv.Itoa\<close> and \<^verbatim>\<open>strconv.Atoi\<close>,
  \<^verbatim>\<open>Duration.String\<close> and \<^verbatim>\<open>time.ParseDuration\<close> of the standard library, which
  carry the options of a post from the command to the daemon. The parser's arithmetic is the
  library's: \<^verbatim>\<open>uint64\<close> with its overflow checks and its one unchecked sum, and float64 for
  a fraction.
\<close>

section \<open>Decimal numbers\<close>

definition decimal :: "char \<Rightarrow> bool" where
  "decimal c \<longleftrightarrow> 48 \<le> (of_char c :: nat) \<and> (of_char c :: nat) \<le> 57"

definition dec_val :: "char \<Rightarrow> nat" where
  "dec_val c = of_char c - 48"

definition dec_char :: "nat \<Rightarrow> char" where
  "dec_char n = char_of (48 + n)"

fun nat_digits :: "nat \<Rightarrow> string" where
  "nat_digits n = (if n < 10 then [dec_char n] else nat_digits (n div 10) @ [dec_char (n mod 10)])"

declare nat_digits.simps [simp del]

definition strconv_Itoa :: "int \<Rightarrow> string" where
  "strconv_Itoa n = (if n < 0 then CHR ''-'' # nat_digits (nat (- n)) else nat_digits (nat n))"

definition digits_from :: "nat \<Rightarrow> string \<Rightarrow> nat" where
  "digits_from x ds = foldl (\<lambda>x c. x * 10 + dec_val c) x ds"

fun sign_split :: "string \<Rightarrow> bool \<times> string" where
  "sign_split [] = (False, [])"
| "sign_split (c # s) =
     (if c = CHR ''-'' then (True, s) else if c = CHR ''+'' then (False, s) else (False, c # s))"

definition strconv_Atoi :: "string \<Rightarrow> int option" where
  "strconv_Atoi s =
     (case sign_split s of (neg, ds) \<Rightarrow>
        if ds = [] \<or> \<not> list_all decimal ds then None
        else let v = (if neg then - int (digits_from 0 ds) else int (digits_from 0 ds))
             in if min_int64 \<le> v \<and> v \<le> max_int64 then Some v else None)"

section \<open>Durations\<close>

fun fmt_frac :: "nat \<Rightarrow> nat \<Rightarrow> bool \<Rightarrow> string \<Rightarrow> string \<times> nat" where
  "fmt_frac 0 v print acc = (if print then CHR ''.'' # acc else acc, v)"
| "fmt_frac (Suc i) v print acc =
     (let print = (print \<or> v mod 10 \<noteq> 0)
      in fmt_frac i (v div 10) print (if print then dec_char (v mod 10) # acc else acc))"

definition fmt_unit :: "nat \<Rightarrow> nat \<Rightarrow> string \<Rightarrow> string" where
  "fmt_unit u prec name = (case fmt_frac prec u False [] of (fr, v) \<Rightarrow> nat_digits v @ fr @ name)"

definition duration_text :: "nat \<Rightarrow> string" where
  "duration_text u =
     (if u = 0 then ''0s''
      else if u < 1000 then fmt_unit u 0 ''ns''
      else if u < 1000000 then fmt_unit u 3 [CHR 0xC2, CHR 0xB5, CHR ''s'']
      else if u < 1000000000 then fmt_unit u 6 ''ms''
      else case fmt_frac 9 u False [] of (fr, sec) \<Rightarrow>
        let m = sec div 60; h = m div 60
        in (if 0 < m then (if 0 < h then nat_digits h @ ''h'' else []) @ nat_digits (m mod 60) @ ''m'' else [])
             @ nat_digits (sec mod 60) @ fr @ ''s'')"

definition duration_String :: "duration \<Rightarrow> string" where
  "duration_String d =
     (if d < 0 then CHR ''-'' # duration_text (nat (- d)) else duration_text (nat d))"

fun leadingInt :: "nat \<Rightarrow> string \<Rightarrow> (nat \<times> string) option" where
  "leadingInt x [] = Some (x, [])"
| "leadingInt x (c # s) =
     (if \<not> decimal c then Some (x, c # s)
      else if x > 2 ^ 63 div 10 then None
      else let x = x * 10 + dec_val c in if x > 2 ^ 63 then None else leadingInt x s)"

fun leadingFraction :: "nat \<Rightarrow> rat \<Rightarrow> bool \<Rightarrow> string \<Rightarrow> nat \<times> rat \<times> string" where
  "leadingFraction x scale overflow [] = (x, scale, [])"
| "leadingFraction x scale overflow (c # s) =
     (if \<not> decimal c then (x, scale, c # s)
      else if overflow \<or> x > (2 ^ 63 - 1) div 10 then leadingFraction x scale True s
      else let y = x * 10 + dec_val c
           in if y > 2 ^ 63 then leadingFraction x scale True s
              else leadingFraction y (fl (scale * 10)) False s)"

definition dur_unit :: "string \<Rightarrow> nat option" where
  "dur_unit u =
     (if u = ''ns'' then Some 1
      else if u = ''us'' \<or> u = [CHR 0xC2, CHR 0xB5, CHR ''s''] \<or> u = [CHR 0xCE, CHR 0xBC, CHR ''s''] then Some 1000
      else if u = ''ms'' then Some 1000000
      else if u = ''s'' then Some 1000000000
      else if u = ''m'' then Some 60000000000
      else if u = ''h'' then Some 3600000000000
      else None)"

definition number_char :: "char \<Rightarrow> bool" where
  "number_char c \<longleftrightarrow> c = CHR ''.'' \<or> decimal c"

definition dur_fraction :: "string \<Rightarrow> bool \<times> nat \<times> rat \<times> string" where
  "dur_fraction s =
     (case s of
        [] \<Rightarrow> (False, 0, 1, [])
      | c # t \<Rightarrow>
          if c = CHR ''.''
          then (case leadingFraction 0 1 False t of (f, scale, r) \<Rightarrow> (length t \<noteq> length r, f, scale, r))
          else (False, 0, 1, s))"

text \<open>One number with its unit.\<close>

definition dur_segment :: "string \<Rightarrow> (nat \<times> string) option" where
  "dur_segment s =
     (if s = [] \<or> \<not> number_char (hd s) then None
      else case leadingInt 0 s of
        None \<Rightarrow> None
      | Some (v, s1) \<Rightarrow>
     (case dur_fraction s1 of (post, f, scale, s2) \<Rightarrow>
          if length s = length s1 \<and> \<not> post then None
          else let u = takeWhile (\<lambda>c. \<not> number_char c) s2; s3 = dropWhile (\<lambda>c. \<not> number_char c) s2
               in if u = [] then None
                  else case dur_unit u of
                    None \<Rightarrow> None
                  | Some unit \<Rightarrow>
                      if v > 2 ^ 63 div unit then None
                      else let w = v * unit + (if f > 0 then nat \<lfloor>fl (fl (of_nat f) * fl (of_nat unit / scale))\<rfloor> else 0)
                           in if f > 0 \<and> w > 2 ^ 63 then None else Some (w, s3)))"

lemma dur_segment_shorter:
  assumes "dur_segment s = Some (w, r)"
  shows "length r < length s"
proof -
  have li: "length r \<le> length s" if "leadingInt x s = Some (v, r)" for x v r s
    using that by (induction x s rule: leadingInt.induct) (auto simp: Let_def split: if_splits)
  have lf: "length (snd (snd (leadingFraction x sc ov s))) \<le> length s" for x sc ov s
    by (induction x sc ov s rule: leadingFraction.induct) (auto simp: Let_def)
  have fr: "length (snd (snd (snd (dur_fraction s)))) \<le> length s" for s
  proof (cases s)
    case (Cons c t)
    obtain f sc r where "leadingFraction 0 1 False t = (f, sc, r)" by (metis prod_cases3)
    then show ?thesis using lf [of 0 1 False t] Cons by (simp add: dur_fraction_def)
  qed (simp add: dur_fraction_def)
  obtain v s1 post f sc s2 where s1: "leadingInt 0 s = Some (v, s1)" and s2: "dur_fraction s1 = (post, f, sc, s2)"
    and u: "takeWhile (\<lambda>c. \<not> number_char c) s2 \<noteq> []" and r: "r = dropWhile (\<lambda>c. \<not> number_char c) s2"
    using assms by (auto simp: dur_segment_def Let_def split: if_splits option.splits prod.splits)
  have "length (takeWhile (\<lambda>c. \<not> number_char c) s2) + length r = length s2"
    unfolding r by (metis length_append takeWhile_dropWhile_id)
  then have "length r < length s2" using u by (cases "takeWhile (\<lambda>c. \<not> number_char c) s2") auto
  then show ?thesis using li [OF s1] fr [of s1] s2 by simp
qed

function dur_loop :: "nat \<Rightarrow> string \<Rightarrow> nat option" where
  "dur_loop d s =
     (if s = [] then Some d
      else case dur_segment s of
        None \<Rightarrow> None
      | Some (v, r) \<Rightarrow> let d = (d + v) mod 2 ^ 64 in if d > 2 ^ 63 then None else dur_loop d r)"
  by pat_completeness auto
termination by (relation "measure (\<lambda>(d, s). length s)") (auto dest: dur_segment_shorter)

declare dur_loop.simps [simp del]

definition time_ParseDuration :: "string \<Rightarrow> duration option" where
  "time_ParseDuration s =
     (case sign_split s of (neg, s) \<Rightarrow>
        if s = ''0'' then Some 0
        else if s = [] then None
        else case dur_loop 0 s of
          None \<Rightarrow> None
        | Some d \<Rightarrow> if neg then Some (- int d) else if d > 2 ^ 63 - 1 then None else Some (int d))"

section \<open>Decimal numbers, there and back\<close>

lemma dec_char_facts: "n < 10 \<Longrightarrow> decimal (dec_char n)" "n < 10 \<Longrightarrow> dec_val (dec_char n) = n"
  by (simp_all add: decimal_def dec_char_def dec_val_def)

lemma dec_val_le: "decimal c \<Longrightarrow> dec_val c \<le> 9"
  unfolding decimal_def dec_val_def by linarith

lemma digits_from_append: "digits_from x (ds @ es) = digits_from (digits_from x ds) es"
  by (simp add: digits_from_def)

lemma digits_from_Cons [simp]: "digits_from x (c # ds) = digits_from (x * 10 + dec_val c) ds"
  by (simp add: digits_from_def)

lemma digits_from_Nil [simp]: "digits_from x [] = x"
  by (simp add: digits_from_def)

lemma digits_from_ge: "x \<le> digits_from x ds"
proof (induction ds arbitrary: x)
  case (Cons c ds)
  have "x \<le> x * 10 + dec_val c" by simp
  also have "\<dots> \<le> digits_from (x * 10 + dec_val c) ds" by (rule Cons.IH)
  finally show ?case by simp
qed simp

lemma nat_digits_decimal: "list_all decimal (nat_digits n) \<and> nat_digits n \<noteq> [] \<and> digits_from 0 (nat_digits n) = n"
proof (induction n rule: nat_digits.induct)
  case (1 n)
  show ?case
  proof (cases "n < 10")
    case True
    then show ?thesis by (simp add: nat_digits.simps [of n] dec_char_facts)
  next
    case False
    then show ?thesis
      using 1 by (simp add: nat_digits.simps [of n] dec_char_facts digits_from_append)
  qed
qed

lemma nat_digits_hd: "decimal (hd (nat_digits n @ r))"
  using nat_digits_decimal [of n] by (cases "nat_digits n") auto

lemma sign_split_digits: "sign_split (nat_digits n @ r) = (False, nat_digits n @ r)"
  using nat_digits_hd [of n r] nat_digits_decimal [of n] by (cases "nat_digits n") (auto simp: decimal_def)

lemma Atoi_Itoa: "min_int64 \<le> n \<Longrightarrow> n \<le> max_int64 \<Longrightarrow> strconv_Atoi (strconv_Itoa n) = Some n"
  using nat_digits_decimal [of "nat n"] nat_digits_decimal [of "nat (- n)"] sign_split_digits [of "nat n" "[]"]
  by (auto simp: strconv_Atoi_def strconv_Itoa_def)

definition ends_number :: "string \<Rightarrow> bool" where
  "ends_number r \<longleftrightarrow> r = [] \<or> \<not> decimal (hd r)"

lemma leadingInt_digits:
  "list_all decimal ds \<Longrightarrow> digits_from x ds \<le> 2 ^ 63 \<Longrightarrow> ends_number r \<Longrightarrow>
   leadingInt x (ds @ r) = Some (digits_from x ds, r)"
proof (induction ds arbitrary: x)
  case Nil
  then show ?case by (cases r) (auto simp: ends_number_def)
next
  case (Cons c ds)
  have "x * 10 + dec_val c \<le> 2 ^ 63"
    using digits_from_ge [of "x * 10 + dec_val c" ds] Cons.prems(2) by simp
  then show ?case using Cons by (simp add: Let_def)
qed

lemma digits_from_less: "list_all decimal ds \<Longrightarrow> digits_from x ds < (x + 1) * 10 ^ length ds"
proof (induction ds arbitrary: x)
  case (Cons c ds)
  have "dec_val c \<le> 9" using Cons.prems dec_val_le by simp
  have "digits_from (x * 10 + dec_val c) ds < (x * 10 + dec_val c + 1) * 10 ^ length ds"
    using Cons by simp
  also have "\<dots> \<le> ((x + 1) * 10) * 10 ^ length ds"
    using \<open>dec_val c \<le> 9\<close> by (intro mult_right_mono) simp_all
  finally show ?case by (simp add: algebra_simps)
qed simp

lemma leadingFraction_digits:
  "list_all decimal ds \<Longrightarrow> j + length ds \<le> 9 \<Longrightarrow> x < 10 ^ j \<Longrightarrow> ends_number r \<Longrightarrow>
   leadingFraction x (10 ^ j) False (ds @ r) = (digits_from x ds, 10 ^ (j + length ds), r)"
proof (induction ds arbitrary: x j)
  case Nil
  then show ?case by (cases r) (auto simp: ends_number_def)
next
  case (Cons c ds)
  have "dec_val c \<le> 9" using Cons.prems dec_val_le by simp
  then have y: "x * 10 + dec_val c < 10 ^ Suc j" using Cons.prems(3) by simp
  have "(10::nat) ^ Suc j \<le> 10 ^ 9" using Cons.prems(2) by (intro power_increasing) simp_all
  then have b: "x * 10 + dec_val c \<le> 2 ^ 63" "x \<le> (2 ^ 63 - 1) div 10" using y by simp_all
  have "fl (10 ^ j * 10) = fl (of_int (10 ^ Suc j))" by (simp add: mult.commute)
  also have "\<dots> = of_int (10 ^ Suc j)"
  proof (rule fl_int)
    have "(10::int) ^ Suc j \<le> 10 ^ 9" using Cons.prems(2) by (intro power_increasing) simp_all
    then show "\<bar>(10::int) ^ Suc j\<bar> < 2 ^ 53" by simp
  qed
  finally have sc: "fl (10 ^ j * 10) = 10 * 10 ^ j" by simp
  show ?case
    using Cons.IH [OF _ _ y Cons.prems(4)] Cons.prems b by (simp add: Let_def sc)
qed

section \<open>Durations, there and back\<close>

definition frac_ok :: "nat \<Rightarrow> nat \<Rightarrow> string \<Rightarrow> bool" where
  "frac_ok prec f fr \<longleftrightarrow>
     (if f = 0 then fr = []
      else \<exists>ds. fr = CHR ''.'' # ds \<and> ds \<noteq> [] \<and> list_all decimal ds \<and> length ds \<le> prec
         \<and> digits_from 0 ds * 10 ^ (prec - length ds) = f)"

lemma fmt_frac_printing:
  "fmt_frac i v True acc = (fr, v') \<Longrightarrow>
   v' = v div 10 ^ i \<and> (\<exists>ds. fr = CHR ''.'' # ds @ acc \<and> length ds = i \<and> list_all decimal ds
     \<and> digits_from 0 ds = v mod 10 ^ i)"
proof (induction i arbitrary: v acc)
  case (Suc i)
  from Suc.prems have "fmt_frac i (v div 10) True (dec_char (v mod 10) # acc) = (fr, v')" by simp
  from Suc.IH [OF this] obtain ds where ds: "v' = v div 10 div 10 ^ i"
    "fr = CHR ''.'' # ds @ dec_char (v mod 10) # acc" "length ds = i" "list_all decimal ds"
    "digits_from 0 ds = v div 10 mod 10 ^ i" by auto
  have "v mod 10 ^ Suc i = (v div 10 mod 10 ^ i) * 10 + v mod 10"
    using mod_mult2_eq [of v 10 "10 ^ i"] by simp
  then show ?case
    using ds by (intro conjI exI [of _ "ds @ [dec_char (v mod 10)]"])
      (simp_all add: div_mult2_eq digits_from_append dec_char_facts)
qed simp

lemma fmt_frac_ok:
  "fmt_frac i v False [] = (fr, v') \<Longrightarrow> v' = v div 10 ^ i \<and> frac_ok i (v mod 10 ^ i) fr"
proof (induction i arbitrary: v)
  case 0
  then show ?case by (auto simp: frac_ok_def)
next
  case (Suc i)
  have m: "v mod 10 ^ Suc i = (v div 10 mod 10 ^ i) * 10 + v mod 10"
    using mod_mult2_eq [of v 10 "10 ^ i"] by simp
  show ?case
  proof (cases "v mod 10 = 0")
    case True
    then have "fmt_frac i (v div 10) False [] = (fr, v')" using Suc.prems by simp
    note IH = Suc.IH [OF this]
    have "frac_ok (Suc i) (v div 10 mod 10 ^ i * 10) fr"
      using IH by (auto simp: frac_ok_def Suc_diff_le split: if_splits)
    then show ?thesis using IH m True by (simp add: div_mult2_eq)
  next
    case False
    then have "fmt_frac i (v div 10) True [dec_char (v mod 10)] = (fr, v')" using Suc.prems by simp
    from fmt_frac_printing [OF this] obtain ds where ds: "v' = v div 10 div 10 ^ i"
      "fr = CHR ''.'' # ds @ [dec_char (v mod 10)]" "length ds = i" "list_all decimal ds"
      "digits_from 0 ds = v div 10 mod 10 ^ i" by auto
    have "frac_ok (Suc i) (v mod 10 ^ Suc i) fr"
      unfolding frac_ok_def m using ds False
      by (auto simp: digits_from_append dec_char_facts intro!: exI [of _ "ds @ [dec_char (v mod 10)]"])
    then show ?thesis using ds(1) by (simp add: div_mult2_eq)
  qed
qed

lemma fl_nat: "n < 2 ^ 53 \<Longrightarrow> fl (of_nat n) = of_nat n"
  using fl_int [of "int n"] by simp

definition name_ok :: "string \<Rightarrow> bool" where
  "name_ok u \<longleftrightarrow> u \<noteq> [] \<and> list_all (\<lambda>c. \<not> number_char c) u"

lemma name_ends: "name_ok u \<Longrightarrow> ends_number (u @ r) \<and> hd (u @ r) \<noteq> CHR ''.''"
  by (cases u) (auto simp: name_ok_def ends_number_def number_char_def)

lemma dur_fraction_parse:
  assumes fr: "frac_ok prec f fr" and f: "f < 10 ^ prec" and p: "prec \<le> 9" and u: "name_ok u"
  shows "\<exists>x sc. dur_fraction (fr @ u @ r) = (fr \<noteq> [], x, sc, u @ r)
    \<and> (x = 0 \<longleftrightarrow> f = 0) \<and> (0 < x \<longrightarrow> nat \<lfloor>fl (fl (of_nat x) * fl (of_nat (10 ^ prec) / sc))\<rfloor> = f)"
proof (cases "f = 0")
  case True
  then show ?thesis
    using fr name_ends [OF u, of r] u by (cases u) (auto simp: frac_ok_def dur_fraction_def name_ok_def)
next
  case False
  then obtain ds where ds: "fr = CHR ''.'' # ds" "ds \<noteq> []" "list_all decimal ds" "length ds \<le> prec"
    "digits_from 0 ds * 10 ^ (prec - length ds) = f" using fr by (auto simp: frac_ok_def)
  let ?x = "digits_from 0 ds"
  have lf: "leadingFraction 0 1 False (ds @ u @ r) = (?x, 10 ^ length ds, u @ r)"
    using leadingFraction_digits [OF ds(3), of 0 0] ds(4) p name_ends [OF u] by simp
  have small: "(10::nat) ^ k \<le> 10 ^ 9" if "k \<le> 9" for k using that by (intro power_increasing) simp_all
  have f9: "f < 2 ^ 53" using f small [OF p] by simp
  have "?x < 10 ^ length ds" using digits_from_less [OF ds(3), of 0] by simp
  then have x: "fl (of_nat ?x) = of_nat ?x" using small [of "length ds"] ds(4) p by (intro fl_nat) simp
  have "(10::rat) ^ prec = 10 ^ (prec - length ds) * 10 ^ length ds"
    using ds(4) by (simp flip: power_add)
  then have "(of_nat (10 ^ prec) / 10 ^ length ds :: rat) = of_nat (10 ^ (prec - length ds))" by simp
  moreover have "(10::nat) ^ (prec - length ds) < 2 ^ 53"
    by (rule le_less_trans [OF small [OF le_trans [OF diff_le_self p]]]) simp
  then have "fl (of_nat (10 ^ (prec - length ds))) = of_nat (10 ^ (prec - length ds))" by (rule fl_nat)
  moreover have "of_nat ?x * of_nat (10 ^ (prec - length ds)) = (of_nat f :: rat)"
    unfolding ds(5) [symmetric] by simp
  ultimately have "fl (fl (of_nat ?x) * fl (of_nat (10 ^ prec) / 10 ^ length ds)) = of_nat f"
    using fl_nat [OF f9] x by simp
  moreover have "0 < ?x" using ds(5) False by (cases "?x = 0") auto
  ultimately show ?thesis using lf ds(1,2) False by (auto simp: dur_fraction_def)
qed

lemma dur_segment_parse:
  assumes fr: "frac_ok prec f fr" and f: "f < 10 ^ prec" and p: "prec \<le> 9" and u: "name_ok u"
    and unit: "dur_unit u = Some unit" "0 < unit" "f = 0 \<or> unit = 10 ^ prec"
    and r: "r = [] \<or> number_char (hd r)" and b: "n * unit + f \<le> 2 ^ 63"
  shows "dur_segment (nat_digits n @ fr @ u @ r) = Some (n * unit + f, r)"
proof -
  let ?s = "nat_digits n @ fr @ u @ r"
  have "n * 1 \<le> n * unit" using unit(2) by (intro mult_le_mono) simp_all
  also have "\<dots> \<le> 2 ^ 63" using b by simp
  finally have n: "n \<le> 2 ^ 63" by simp
  have e: "ends_number (fr @ u @ r)"
    using fr name_ends [OF u] by (auto simp: frac_ok_def ends_number_def decimal_def split: if_splits)
  have li: "leadingInt 0 ?s = Some (n, fr @ u @ r)"
    using leadingInt_digits [OF _ _ e, of "nat_digits n" 0] nat_digits_decimal n by simp
  obtain x sc where x: "dur_fraction (fr @ u @ r) = (fr \<noteq> [], x, sc, u @ r)" "x = 0 \<longleftrightarrow> f = 0"
    "0 < x \<longrightarrow> nat \<lfloor>fl (fl (of_nat x) * fl (of_nat (10 ^ prec) / sc))\<rfloor> = f"
    using dur_fraction_parse [OF fr f p u] by blast
  have hd: "?s \<noteq> []" "number_char (hd ?s)"
    using nat_digits_hd [of n "fr @ u @ r"] nat_digits_decimal [of n] by (auto simp: number_char_def)
  have u2: "takeWhile (\<lambda>c. \<not> number_char c) (u @ r) = u" "dropWhile (\<lambda>c. \<not> number_char c) (u @ r) = r" "u \<noteq> []"
    using u r by (auto simp: name_ok_def list_all_iff takeWhile_append2 dropWhile_append3
      takeWhile_append dropWhile_append takeWhile_eq_Nil_iff dropWhile_eq_self_iff)
  have v: "\<not> n > 2 ^ 63 div unit" using b unit(2) by (simp add: less_eq_div_iff_mult_less_eq not_less)
  have ln: "length ?s \<noteq> length (fr @ u @ r)" using nat_digits_decimal [of n] by simp
  have w: "(if x > 0 then nat \<lfloor>fl (fl (of_nat x) * fl (of_nat unit / sc))\<rfloor> else 0) = f"
    using x(2,3) unit(3) by auto
  show ?thesis
    unfolding dur_segment_def li x(1) option.case prod.case u2 Let_def unit(1) w
    using hd ln v b u2(3) by simp
qed

lemma dur_loop_step:
  assumes "dur_segment s = Some (w, r)" and "s \<noteq> []" and "d + w \<le> 2 ^ 63"
  shows "dur_loop d s = dur_loop (d + w) r"
proof -
  have "(d + w) mod 2 ^ 64 = d + w" using assms(3) by simp
  then show ?thesis by (subst dur_loop.simps) (use assms in \<open>simp add: Let_def\<close>)
qed

lemma dur_loop_parse:
  assumes "frac_ok prec f fr" and "f < 10 ^ prec" and "prec \<le> 9" and "name_ok u"
    and "dur_unit u = Some unit" and "0 < unit" and "f = 0 \<or> unit = 10 ^ prec"
    and "r = [] \<or> number_char (hd r)" and "d + (n * unit + f) \<le> 2 ^ 63"
  shows "dur_loop d (nat_digits n @ fr @ u @ r) = dur_loop (d + (n * unit + f)) r"
proof (rule dur_loop_step)
  show "dur_segment (nat_digits n @ fr @ u @ r) = Some (n * unit + f, r)"
    using assms(9) by (intro dur_segment_parse [OF assms(1-8)]) simp
  show "nat_digits n @ fr @ u @ r \<noteq> []" using nat_digits_decimal [of n] by simp
qed (rule assms(9))

lemma nat_digits_0: "nat_digits 0 = ''0''"
  by (simp add: nat_digits.simps dec_char_def char_of_def bit_0)

lemma dur_loop_Nil [simp]: "dur_loop d [] = Some d"
  by (subst dur_loop.simps) simp

lemma fmt_unit_parse:
  assumes "name_ok u" and "dur_unit u = Some (10 ^ prec)" and "prec \<le> 9" and "v \<le> 2 ^ 63"
  shows "dur_loop 0 (fmt_unit v prec u) = Some v"
proof -
  obtain fr v' where ff: "fmt_frac prec v False [] = (fr, v')" by (cases "fmt_frac prec v False []")
  note f = fmt_frac_ok [OF ff]
  have v: "v div 10 ^ prec * 10 ^ prec + v mod 10 ^ prec = v" by (rule div_mult_mod_eq)
  have "dur_loop 0 (nat_digits (v div 10 ^ prec) @ fr @ u @ [])
      = dur_loop (0 + (v div 10 ^ prec * 10 ^ prec + v mod 10 ^ prec)) []"
    using f assms v by (intro dur_loop_parse [where prec = prec and f = "v mod 10 ^ prec"]) simp_all
  then show ?thesis using f v by (simp add: fmt_unit_def ff)
qed

lemma units:
  "name_ok ''h''" "dur_unit ''h'' = Some 3600000000000" "name_ok ''m''" "dur_unit ''m'' = Some 60000000000"
  "name_ok ''s''" "dur_unit ''s'' = Some (10 ^ 9)" "name_ok ''ms''" "dur_unit ''ms'' = Some (10 ^ 6)"
  "name_ok [CHR 0xC2, CHR 0xB5, CHR ''s'']" "dur_unit [CHR 0xC2, CHR 0xB5, CHR ''s''] = Some (10 ^ 3)"
  "name_ok ''ns''" "dur_unit ''ns'' = Some (10 ^ 0)"
  by (simp_all add: name_ok_def dur_unit_def number_char_def decimal_def)

lemma dur_loop_whole:
  assumes "name_ok u" and "dur_unit u = Some unit" and "0 < unit" and "decimal (hd r)" and "d + n * unit \<le> 2 ^ 63"
  shows "dur_loop d (nat_digits n @ u @ r) = dur_loop (d + n * unit) r"
  using dur_loop_parse [of 0 0 "[]" u unit r d n] assms by (simp add: frac_ok_def number_char_def)

lemma seconds_parse:
  assumes "fmt_frac 9 v False [] = (fr, sec)" and "d + (sec mod 60 * 10 ^ 9 + v mod 10 ^ 9) \<le> 2 ^ 63"
  shows "dur_loop d (nat_digits (sec mod 60) @ fr @ ''s'') = Some (d + (sec mod 60 * 10 ^ 9 + v mod 10 ^ 9))"
  using dur_loop_parse [of 9 "v mod 10 ^ 9" fr "''s''" "10 ^ 9" "[]" d "sec mod 60"] fmt_frac_ok [OF assms(1)]
    units(5,6) assms(2) by simp

lemma duration_text_parse:
  assumes "u \<le> 2 ^ 63"
  shows "dur_loop 0 (duration_text u) = Some u"
proof -
  consider "u = 0" | "0 < u" "u < 1000000000" | "1000000000 \<le> u" by linarith
  then show ?thesis
  proof cases
    case 1
    have "dur_loop 0 (nat_digits 0 @ [] @ ''s'' @ []) = dur_loop (0 + (0 * 10 ^ 9 + 0)) []"
      using units(5,6) by (intro dur_loop_parse [where prec = 9]) (simp_all add: frac_ok_def)
    then show ?thesis using 1 nat_digits_0 by (simp add: duration_text_def)
  next
    case 2
    then show ?thesis
      using fmt_unit_parse [OF units(11,12), of u] fmt_unit_parse [OF units(9,10), of u]
        fmt_unit_parse [OF units(7,8), of u] assms by (simp add: duration_text_def)
  next
    case 3
    obtain fr sec where ff: "fmt_frac 9 u False [] = (fr, sec)" by (cases "fmt_frac 9 u False []")
    have sec: "sec = u div 10 ^ 9" using fmt_frac_ok [OF ff] by simp
    let ?m = "sec div 60" and ?s = "nat_digits (sec mod 60) @ fr @ ''s''"
    have total: "?m * 60000000000 + (sec mod 60 * 10 ^ 9 + u mod 10 ^ 9) = u"
    proof -
      have "sec * 1000000000 + u mod 1000000000 = u" unfolding sec using div_mult_mod_eq [of u "10 ^ 9"] by simp
      moreover have "?m * 60 + sec mod 60 = sec" by (rule div_mult_mod_eq)
      ultimately have "?m * 60000000000 + (sec mod 60 * 1000000000 + u mod 1000000000) = u" by linarith
      then show ?thesis by simp
    qed
    have hours: "?m div 60 * 3600000000000 + ?m mod 60 * 60000000000 = ?m * 60000000000"
    proof -
      have "?m div 60 * 60 + ?m mod 60 = ?m" by (rule div_mult_mod_eq)
      then show ?thesis by linarith
    qed
    have s: "dur_loop d ?s = Some u" if "d = ?m * 60000000000" for d
      using seconds_parse [OF ff, of d] total assms that by simp
    have hd: "decimal (hd (nat_digits k @ r))" for k r by (rule nat_digits_hd)
    have m: "dur_loop d (nat_digits (?m mod 60) @ ''m'' @ ?s) = Some u" if "d = ?m div 60 * 3600000000000" for d
      using dur_loop_whole [OF units(3,4) _ hd, of d "?m mod 60" "sec mod 60" "fr @ ''s''"] s hours total assms that
      by simp
    have h: "dur_loop 0 (nat_digits (?m div 60) @ ''h'' @ nat_digits (?m mod 60) @ ''m'' @ ?s) = Some u"
      using dur_loop_whole [OF units(1,2) _ hd, of 0 "?m div 60" "?m mod 60" "''m'' @ ?s"] m hours total assms by simp
    show ?thesis
      using s [of 0] m [of 0] h 3
      by (cases "?m = 0"; cases "?m div 60 = 0") (simp_all add: duration_text_def ff Let_def)
  qed
qed

lemma duration_text_shape: "\<exists>n r. duration_text u = nat_digits n @ r \<and> r \<noteq> []"
proof -
  have z: "\<exists>n r. ''0s'' = nat_digits n @ r \<and> r \<noteq> []" using nat_digits_0 by (intro exI [of _ 0] exI [of _ "''s''"]) simp
  have f: "\<exists>n r. fmt_unit v prec u = nat_digits n @ r \<and> r \<noteq> []" if "u \<noteq> []" for v prec u
    using that by (auto simp: fmt_unit_def split: prod.splits)
  show ?thesis
    using z f by (auto simp: duration_text_def Let_def split: prod.splits)
qed

lemma ParseDuration_String:
  assumes "min_int64 \<le> d" and "d \<le> max_int64"
  shows "time_ParseDuration (duration_String d) = Some d"
proof -
  obtain n r where t: "duration_text (nat \<bar>d\<bar>) = nat_digits n @ r" "r \<noteq> []" using duration_text_shape by blast
  have sp: "sign_split (duration_String d) = (d < 0, duration_text (nat \<bar>d\<bar>))"
    using sign_split_digits [of n r] t(1) by (cases "d < 0") (simp_all add: duration_String_def)
  have z: "duration_text k \<noteq> ''0'' \<and> duration_text k \<noteq> []" for k
  proof -
    obtain n r where "duration_text k = nat_digits n @ r" "r \<noteq> []" using duration_text_shape by blast
    then show ?thesis using nat_digits_decimal [of n] by (cases "nat_digits n") auto
  qed
  have "nat \<bar>d\<bar> \<le> 2 ^ 63" using assms by (simp add: go_const)
  then show ?thesis
    using duration_text_parse [of "nat \<bar>d\<bar>"] assms(2)
    by (cases "d < 0") (simp_all add: time_ParseDuration_def sp z go_const nat_le_iff not_less)
qed

end
