(* ===== verification/Go_Net.thy ===== *)
theory Go_Net
  imports Go_Parse Go_Strings
begin

text \<open>
  The package \<^verbatim>\<open>net\<close>, as far as the code uses it: host and port strings, and IP
  addresses, which are byte sequences of length 4 or 16. The parser of IPv6 literals is the
  parameter \<open>ip6\<close> of \<^verbatim>\<open>net.ParseIP\<close>; that of IPv4 is written out.
\<close>

section \<open>Hosts and ports\<close>

fun index_byte :: "char \<Rightarrow> string \<Rightarrow> nat option" where
  "index_byte c [] = None"
| "index_byte c (x # s) = (if x = c then Some 0 else map_option Suc (index_byte c s))"

definition last_index_byte :: "char \<Rightarrow> string \<Rightarrow> nat option" where
  "last_index_byte c s = map_option (\<lambda>k. length s - 1 - k) (index_byte c (rev s))"

definition SplitHostPort :: "string \<Rightarrow> (string \<times> string) option" where
  "SplitHostPort hp =
     (case last_index_byte CHR '':'' hp of
        None \<Rightarrow> None
      | Some i \<Rightarrow>
          let checked = (\<lambda>host j k.
                if index_byte CHR ''['' (drop j hp) \<noteq> None \<or> index_byte CHR '']'' (drop k hp) \<noteq> None then None
                else Some (host, drop (i + 1) hp))
          in if hp ! 0 = CHR ''[''
             then (case index_byte CHR '']'' hp of
                     None \<Rightarrow> None
                   | Some e \<Rightarrow> if e + 1 = i then checked (take (e - 1) (drop 1 hp)) 1 (e + 1) else None)
             else let host = take i hp
                  in if index_byte CHR '':'' host \<noteq> None then None else checked host 0 0)"

definition JoinHostPort :: "string \<Rightarrow> string \<Rightarrow> string" where
  "JoinHostPort host port =
     (if index_byte CHR '':'' host \<noteq> None then ''['' @ host @ '']:'' @ port else host @ '':'' @ port)"

section \<open>Addresses\<close>

definition v4_in_v6 :: bytes where
  "v4_in_v6 = replicate 10 0 @ [0xff, 0xff]"

definition ip_To4 :: "bytes \<Rightarrow> bytes option" where
  "ip_To4 a =
     (if length a = 4 then Some a
      else if length a = 16 \<and> take 12 a = v4_in_v6 then Some (drop 12 a) else None)"

definition ip_IsLoopback :: "bytes \<Rightarrow> bool" where
  "ip_IsLoopback a =
     (case ip_To4 a of Some b \<Rightarrow> b ! 0 = 127 | None \<Rightarrow> a = replicate 15 0 @ [1])"

definition ip_IsLinkLocalUnicast :: "bytes \<Rightarrow> bool" where
  "ip_IsLinkLocalUnicast a =
     (case ip_To4 a of
        Some b \<Rightarrow> b ! 0 = 169 \<and> b ! 1 = 254
      | None \<Rightarrow> length a = 16 \<and> a ! 0 = 0xfe \<and> unat (a ! 1) div 64 = 2)"

text \<open>\<^verbatim>\<open>IP.String\<close> of an IPv4 address.\<close>

definition ip4_String :: "bytes \<Rightarrow> string" where
  "ip4_String a =
     nat_digits (unat (a ! 0)) @ ''.'' @ nat_digits (unat (a ! 1)) @ ''.''
       @ nat_digits (unat (a ! 2)) @ ''.'' @ nat_digits (unat (a ! 3))"

text \<open>A field of a dotted address: no empty field, no leading zero, at most 255.\<close>

definition ip4_field :: "string \<Rightarrow> byte option" where
  "ip4_field f =
     (if f = [] \<or> \<not> list_all decimal f \<or> (1 < length f \<and> hd f = CHR ''0'') \<or> digits_from 0 f > 255 then None
      else Some (word_of_nat (digits_from 0 f)))"

definition parse_ip4 :: "string \<Rightarrow> bytes option" where
  "parse_ip4 s =
     (case map ip4_field (strings_Split CHR ''.'' s) of
        [Some a, Some b, Some c, Some d] \<Rightarrow> Some [a, b, c, d] | _ \<Rightarrow> None)"

text \<open>The result of \<^verbatim>\<open>net.ParseIP\<close> has 16 bytes.\<close>

definition ParseIP :: "(string \<Rightarrow> bytes option) \<Rightarrow> string \<Rightarrow> bytes option" where
  "ParseIP ip6 s =
     (case find (\<lambda>c. c = CHR ''.'' \<or> c = CHR '':'') s of
        None \<Rightarrow> None
      | Some c \<Rightarrow> if c = CHR ''.'' then map_option (\<lambda>a. v4_in_v6 @ a) (parse_ip4 s) else ip6 s)"

section \<open>Laws\<close>

lemma index_byte_None [simp]: "index_byte c s = None \<longleftrightarrow> c \<notin> set s"
  by (induction c s rule: index_byte.induct) auto

lemma index_byte_append: "c \<notin> set a \<Longrightarrow> index_byte c (a @ c # b) = Some (length a)"
  by (induction a) auto

lemma last_index_append: "c \<notin> set b \<Longrightarrow> last_index_byte c (a @ c # b) = Some (length a)"
  using index_byte_append [of c "rev b" "rev a"] by (simp add: last_index_byte_def)

lemma last_index_None [simp]: "last_index_byte c s = None \<longleftrightarrow> c \<notin> set s"
  by (simp add: last_index_byte_def)

definition plain_host :: "string \<Rightarrow> bool" where
  "plain_host h \<longleftrightarrow> CHR ''['' \<notin> set h \<and> CHR '']'' \<notin> set h"

definition plain_port :: "string \<Rightarrow> bool" where
  "plain_port p \<longleftrightarrow> CHR '':'' \<notin> set p \<and> CHR ''['' \<notin> set p \<and> CHR '']'' \<notin> set p"

lemma Split_Join:
  assumes h: "plain_host h" and p: "plain_port p"
  shows "SplitHostPort (JoinHostPort h p) = Some (h, p)"
proof (cases "CHR '':'' \<in> set h")
  case True
  let ?hp = "''['' @ h @ '']:'' @ p"
  have i: "last_index_byte CHR '':'' ?hp = Some (length h + 2)"
    using last_index_append [of "CHR '':''" p "''['' @ h @ '']''"] p by (simp add: plain_port_def)
  have e: "index_byte CHR '']'' ?hp = Some (length h + 1)"
    using index_byte_append [of "CHR '']''" "''['' @ h" "'':'' @ p"] h by (simp add: plain_host_def)
  show ?thesis
    using True h p by (simp add: JoinHostPort_def SplitHostPort_def i e [simplified] i [simplified] plain_host_def plain_port_def)
next
  case False
  let ?hp = "h @ '':'' @ p"
  have i: "last_index_byte CHR '':'' ?hp = Some (length h)"
    using last_index_append [of "CHR '':''" p h] p by (simp add: plain_port_def)
  have "?hp ! 0 \<noteq> CHR ''[''" using h by (cases h) (auto simp: plain_host_def)
  then show ?thesis
    using False h p i by (simp add: JoinHostPort_def SplitHostPort_def plain_host_def plain_port_def)
qed

lemma nat_digits_mem: "c \<in> set (nat_digits n) \<Longrightarrow> decimal c"
  using nat_digits_decimal [of n] by (simp add: list_all_iff)

lemma not_decimal [simp]: "\<not> decimal CHR ''.''" "\<not> decimal CHR '':''" "\<not> decimal CHR ''[''" "\<not> decimal CHR '']''"
  by (simp_all add: decimal_def)

lemma nat_digits_no_sep:
  "CHR ''.'' \<notin> set (nat_digits n)" "CHR '':'' \<notin> set (nat_digits n)"
  "CHR ''['' \<notin> set (nat_digits n)" "CHR '']'' \<notin> set (nat_digits n)"
  using nat_digits_mem not_decimal by blast+

lemma nat_digits_lead: "0 < n \<Longrightarrow> hd (nat_digits n) \<noteq> CHR ''0''"
proof (induction n rule: nat_digits.induct)
  case (1 n)
  show ?case
  proof (cases "n < 10")
    case True
    then have "dec_val (hd (nat_digits n)) = n" by (simp add: nat_digits.simps [of n] dec_char_facts)
    then show ?thesis using 1 by (auto simp: dec_val_def)
  next
    case False
    then have "hd (nat_digits n) = hd (nat_digits (n div 10))"
      using nat_digits_decimal [of "n div 10"] by (simp add: nat_digits.simps [of n])
    then show ?thesis using 1 False by simp
  qed
qed

lemma nat_digits_single: "1 < length (nat_digits n) \<Longrightarrow> 10 \<le> n"
  by (rule ccontr) (simp add: nat_digits.simps [of n])

lemma ip4_field_digits: "ip4_field (nat_digits (unat a)) = Some a"
proof -
  have "unat a < 2 ^ LENGTH(8)" by (rule unsigned_less)
  then have "unat a \<le> 255" by simp
  moreover have "hd (nat_digits (unat a)) \<noteq> CHR ''0''" if "1 < length (nat_digits (unat a))"
    using nat_digits_lead nat_digits_single [OF that] by simp
  ultimately show ?thesis
    using nat_digits_decimal [of "unat a"] by (auto simp: ip4_field_def)
qed

lemma ip4_parts: "length a = 4 \<Longrightarrow> a = [a ! 0, a ! 1, a ! 2, a ! 3]"
  by (auto simp: numeral_eq_Suc length_Suc_conv)

lemma parse_ip4_String:
  assumes "length a = 4"
  shows "parse_ip4 (ip4_String a) = Some a"
  using ip4_parts [OF assms]
  by (simp add: parse_ip4_def ip4_String_def split_append split_no_sep nat_digits_no_sep ip4_field_digits)

lemma find_append_first: "\<forall>x \<in> set a. \<not> P x \<Longrightarrow> P c \<Longrightarrow> find P (a @ c # b) = Some c"
  by (induction a) auto

lemma ParseIP_String:
  assumes "length a = 4"
  shows "ParseIP ip6 (ip4_String a) = Some (v4_in_v6 @ a)"
proof -
  have "find (\<lambda>c. c = CHR ''.'' \<or> c = CHR '':'') (ip4_String a) = Some CHR ''.''"
    unfolding ip4_String_def append_Cons append_Nil
    by (rule find_append_first) (use nat_digits_no_sep [of "unat (a ! 0)"] in auto)
  then show ?thesis using parse_ip4_String [OF assms] by (simp add: ParseIP_def)
qed

lemma ip4_String_set: "c \<in> set (ip4_String a) \<Longrightarrow> decimal c \<or> c = CHR ''.''"
  unfolding ip4_String_def set_append using nat_digits_mem by auto

lemma ip4_String_sep: "\<not> decimal c \<Longrightarrow> c \<noteq> CHR ''.'' \<Longrightarrow> c \<notin> set (ip4_String a)"
  using ip4_String_set by blast

lemma ip4_no_colon: "CHR '':'' \<notin> set (ip4_String a)"
  by (rule ip4_String_sep) simp_all

lemma ip4_String_plain: "plain_host (ip4_String a)"
  unfolding plain_host_def by (intro conjI ip4_String_sep) simp_all

lemma ip4_String_inj:
  assumes "length a = 4" and "length b = 4" and "ip4_String a = ip4_String b"
  shows "a = b"
  using parse_ip4_String [OF assms(1)] parse_ip4_String [OF assms(2)] unfolding assms(3) by simp

lemma plain_digits: "plain_port (nat_digits n)"
  unfolding plain_port_def using nat_digits_no_sep by blast

lemma mapped_To4: "length a = 4 \<Longrightarrow> ip_To4 (v4_in_v6 @ a) = Some a"
  by (simp add: ip_To4_def v4_in_v6_def)

end
