(* ===== verification/Fetch.thy ===== *)
theory Fetch
  imports Wire Pins Go_Net
begin

text \<open>
  \<^verbatim>\<open>fetch.go\<close>: the client. \<open>exchange\<close> is one PAKE exchange over a connection whose input
  is all that the peer sends; \<open>fetchFrom\<close> wraps it with the pin check and the pin cache; the
  fan-out over the candidates is a step relation, one step per channel or semaphore operation,
  in which goroutines interleave freely. TLS is a service: \<open>tls_state\<close> is what its handshake
  reports.
\<close>

section \<open>Constants and candidates\<close>

definition minFanOut :: nat where [go_const]: "minFanOut = 8"
definition maxFanOut :: nat where [go_const]: "maxFanOut = 64"
definition dialTimeout :: duration where [go_const]: "dialTimeout = 2 * Second"

definition fanOut :: "nat \<Rightarrow> nat" where
  "fanOut candidates = min maxFanOut (max minFanOut (candidates div 4))"

record candidate =
  cd_hostID :: string
  cd_hostname :: string
  cd_addr :: string
  cd_pin :: "pin option"

definition rank :: "candidate \<Rightarrow> nat" where
  "rank c = (if cd_pin c \<noteq> None then 0 else 1)"

definition fetch_order :: "candidate list \<Rightarrow> candidate list" where
  "fetch_order cands = sort_key rank cands"

definition checkPin :: "candidate \<Rightarrow> bytes \<Rightarrow> go_error option" where
  "checkPin c spki =
     (case cd_pin c of
        None \<Rightarrow> None
      | Some p \<Rightarrow>
          if hostID spki \<noteq> cd_hostID c then Some ErrNoMatch
          else let got = spkiHash spki
               in if got \<noteq> pin_SPKI p then Some (PinMismatch (cd_hostID c) got (pin_SPKI p)) else None)"

section \<open>One exchange\<close>

text \<open>An entry of the offer replaces the session key when its confirmation verifies.\<close>

definition match_entry ::
  "('e, 's) suite \<Rightarrow> 's pakeSide \<Rightarrow> bytes \<Rightarrow> bytes \<Rightarrow> bytes \<Rightarrow> bytes option \<Rightarrow> bytes option" where
  "match_entry S side sid share tag sk =
     (case scalarMultVfy S (ps_scalar side) share of
        Inl e \<Rightarrow> sk
      | Inr k \<Rightarrow>
          let sk' = sessionKey sid k (ps_share side) share
          in if macEqual tag (confirm sk' ''tp/confirm/server'') then Some sk' else sk)"

fun match_loop ::
  "('e, 's) suite \<Rightarrow> 's pakeSide \<Rightarrow> bytes \<Rightarrow> bytes \<Rightarrow> nat \<Rightarrow> nat \<Rightarrow> bytes option \<Rightarrow> bytes option" where
  "match_loop S side sid offer 0 i sk = sk"
| "match_loop S side sid offer (Suc m) i sk =
     (let off = 2 + i * (pointLen + macLen);
          share = take pointLen (drop off offer);
          tag = take macLen (drop (off + pointLen) offer)
      in match_loop S side sid offer m (i + 1) (match_entry S side sid share tag sk))"

definition matchOffer :: "('e, 's) suite \<Rightarrow> 's pakeSide \<Rightarrow> bytes \<Rightarrow> bytes \<Rightarrow> 's pakeSide result" where
  "matchOffer S side sid offer =
     (if length offer < 2 then Inl ErrProtocol
      else let n = unat (offer ! 0) * 256 + unat (offer ! 1)
           in if length offer \<noteq> 2 + n * (pointLen + macLen) then Inl ErrProtocol
              else case match_loop S side sid offer n 0 None of
                None \<Rightarrow> Inl ErrNoMatch
              | Some sk \<Rightarrow> Inr (side\<lparr>ps_sk := sk\<rparr>))"

record tls_state =
  tls_handshake :: "go_error option"
  tls_proto :: string
  tls_peer :: "bytes option"
  tls_binding :: "bytes result"
  tls_deadline :: "go_error option"
  tls_deadline2 :: "go_error option"

definition exchange ::
  "('e, 's) suite \<Rightarrow> tls_state \<Rightarrow> bytes \<Rightarrow> string \<Rightarrow> bytes \<Rightarrow> conn \<Rightarrow> bytes result \<times> conn" where
  "exchange S tls prs serverID rs c =
     (case tls_binding tls of
        Inl e \<Rightarrow> (Inl e, c)
      | Inr sid \<Rightarrow>
     (case newPakeSide S prs (channelID serverID) sid rs of
        Inl e \<Rightarrow> (Inl e, c)
      | Inr (side, rs') \<Rightarrow>
     (case writeFrame (word_of_nat wireVersion # ps_share side) c of
        (Some e, c) \<Rightarrow> (Inl e, c)
      | (None, c) \<Rightarrow>
     (case readFrame maxOfferLen c of
        (Inl e, c) \<Rightarrow> (Inl e, c)
      | (Inr offer, c) \<Rightarrow>
     (case matchOffer S side sid offer of
        Inl e \<Rightarrow> (Inl e, c)
      | Inr side \<Rightarrow>
     (case writeFrame (clientTag side) c of
        (Some e, c) \<Rightarrow> (Inl e, c)
      | (None, c) \<Rightarrow>
     (case tls_deadline2 tls of
        Some e \<Rightarrow> (Inl e, c)
      | None \<Rightarrow>
     (case readFrame maxFrame c of
        (Inl e, c) \<Rightarrow> (Inl e, c)
      | (Inr sealed, c) \<Rightarrow> (pake_open S side sealed, c)))))))))"

text \<open>\<^verbatim>\<open>VerifyConnection\<close> of the client's TLS configuration: it sees the peer's first
  certificate, if there is one.\<close>

definition verifyConnection :: "candidate \<Rightarrow> bytes option \<Rightarrow> go_error option" where
  "verifyConnection c peer =
     (case peer of None \<Rightarrow> Some ErrProtocol | Some leaf \<Rightarrow> checkPin c leaf)"

definition isLoopback :: "(string \<Rightarrow> bytes option) \<Rightarrow> string \<Rightarrow> bool" where
  "isLoopback ip6 addr =
     (case SplitHostPort addr of
        None \<Rightarrow> False
      | Some (host, _) \<Rightarrow>
          (case ParseIP ip6 host of None \<Rightarrow> False | Some ip \<Rightarrow> ip_IsLoopback ip))"

text \<open>
  The handshake fails for reasons of its own (\<open>tls_handshake\<close>) or because of
  \<open>verifyConnection\<close>. The result has the pin to save, if any: a pin cache that cannot be written
  is only reported.
\<close>

definition fetchFrom ::
  "('e, 's) suite \<Rightarrow> (string \<Rightarrow> bytes option) \<Rightarrow> tls_state \<Rightarrow> bytes \<Rightarrow> candidate \<Rightarrow> bytes \<Rightarrow> conn result
    \<Rightarrow> bytes result \<times> (string \<times> pin) option" where
  "fetchFrom S ip6 tls prs c rs dial =
     (case dial of
        Inl e \<Rightarrow> (Inl e, None)
      | Inr conn \<Rightarrow>
     (case tls_handshake tls of
        Some e \<Rightarrow> (Inl e, None)
      | None \<Rightarrow>
     (case verifyConnection c (tls_peer tls) of
        Some e \<Rightarrow> (Inl e, None)
      | None \<Rightarrow>
     (case tls_deadline tls of
        Some e \<Rightarrow> (Inl e, None)
      | None \<Rightarrow>
          if tls_proto tls \<noteq> alpnProto then (Inl ErrProtocol, None)
          else case tls_peer tls of
            None \<Rightarrow> (Inl ErrProtocol, None)
          | Some leaf \<Rightarrow>
              (case fst (exchange S tls prs (hostID leaf) rs conn) of
                 Inl e \<Rightarrow> (Inl e, None)
               | Inr body \<Rightarrow>
                   (Inr body, if isLoopback ip6 (cd_addr c) then None
                      else Some (hostID leaf, \<lparr>pin_SPKI = spkiHash leaf, pin_Hostname = cd_hostname c\<rparr>)))))))"

text \<open>The outcomes of a fetch: candidate \<open>i\<close> is the \<open>i\<close>th in the order of the goroutines'
  start, and meets what the network holds for it.\<close>

record attempt =
  at_dial :: "conn result"
  at_tls :: tls_state
  at_rand :: bytes

definition fetch_out ::
  "('e, 's) suite \<Rightarrow> (string \<Rightarrow> bytes option) \<Rightarrow> (nat \<Rightarrow> attempt) \<Rightarrow> bytes \<Rightarrow> candidate list \<Rightarrow> nat
    \<Rightarrow> bytes result" where
  "fetch_out S ip6 net prs cands i =
     fst (fetchFrom S ip6 (at_tls (net i)) prs (fetch_order cands ! i) (at_rand (net i)) (at_dial (net i)))"

section \<open>The fan-out\<close>

definition is_pin_error :: "go_error \<Rightarrow> bool" where
  "is_pin_error e \<longleftrightarrow> (\<exists>h g w. e = PinMismatch h g w)"

lemma is_pin_error_code [code]: "is_pin_error e = (case e of PinMismatch h g w \<Rightarrow> True | _ \<Rightarrow> False)"
  by (cases e) (auto simp: is_pin_error_def)

text \<open>
  A goroutine per candidate waits for the semaphore, runs, and delivers its result to the channel;
  the main one receives. \<open>f_pinErr\<close> is its variable, \<open>f_answer\<close> what \<^verbatim>\<open>fetch\<close> has
  returned, which cancels the context; \<open>f_done\<close> is the caller's context, which a timeout or a
  signal ends at any time; \<open>f_read\<close> records what was received. Under a cancelled context a
  waiting goroutine may give up, and a running one may fail in its dial or handshake instead of
  reporting its outcome.
\<close>

type_synonym delivery = "nat \<times> bytes result"

record fan =
  f_waiting :: "nat set"
  f_running :: "nat set"
  f_chan :: "delivery list"
  f_read :: "delivery list"
  f_pinErr :: "go_error option"
  f_answer :: "bytes result option"
  f_done :: bool

definition fan_start :: "nat \<Rightarrow> fan" where
  "fan_start n = \<lparr>f_waiting = {..<n}, f_running = {}, f_chan = [], f_read = [], f_pinErr = None,
     f_answer = None, f_done = False\<rparr>"

definition fan_cancelled :: "fan \<Rightarrow> bool" where
  "fan_cancelled s \<longleftrightarrow> f_done s \<or> f_answer s \<noteq> None"

definition broken_off :: "bytes result \<Rightarrow> bool" where
  "broken_off r = (case r of Inl e \<Rightarrow> \<not> is_pin_error e | Inr body \<Rightarrow> False)"

inductive fan_step :: "(nat \<Rightarrow> bytes result) \<Rightarrow> nat \<Rightarrow> fan \<Rightarrow> fan \<Rightarrow> bool"
  for out :: "nat \<Rightarrow> bytes result" and n :: nat where
  fan_acquire: "i \<in> f_waiting s \<Longrightarrow> card (f_running s) < fanOut n \<Longrightarrow>
    fan_step out n s (s\<lparr>f_waiting := f_waiting s - {i}, f_running := insert i (f_running s)\<rparr>)"
| fan_abandon: "i \<in> f_waiting s \<Longrightarrow> fan_cancelled s \<Longrightarrow>
    fan_step out n s (s\<lparr>f_waiting := f_waiting s - {i}\<rparr>)"
| fan_deliver: "i \<in> f_running s \<Longrightarrow> r = out i \<or> fan_cancelled s \<and> broken_off r \<Longrightarrow>
    fan_step out n s (s\<lparr>f_running := f_running s - {i}, f_chan := f_chan s @ [(i, r)]\<rparr>)"
| fan_success: "f_chan s = (i, Inr body) # ch \<Longrightarrow> f_answer s = None \<Longrightarrow>
    fan_step out n s (s\<lparr>f_chan := ch, f_read := f_read s @ [(i, Inr body)], f_answer := Some (Inr body)\<rparr>)"
| fan_failure: "f_chan s = (i, Inl e) # ch \<Longrightarrow> f_answer s = None \<Longrightarrow>
    fan_step out n s (s\<lparr>f_chan := ch, f_read := f_read s @ [(i, Inl e)],
      f_pinErr := (if is_pin_error e then Some e else f_pinErr s)\<rparr>)"
| fan_close: "f_waiting s = {} \<Longrightarrow> f_running s = {} \<Longrightarrow> f_chan s = [] \<Longrightarrow> f_answer s = None \<Longrightarrow>
    fan_step out n s (s\<lparr>f_answer :=
      Some (Inl (case f_pinErr s of Some e \<Rightarrow> e | None \<Rightarrow> ErrNoMatch))\<rparr>)"
| fan_timeout: "\<not> f_done s \<Longrightarrow> fan_step out n s (s\<lparr>f_done := True\<rparr>)"

inductive fan_reach :: "(nat \<Rightarrow> bytes result) \<Rightarrow> nat \<Rightarrow> fan \<Rightarrow> bool" for out n where
  fan_init: "fan_reach out n (fan_start n)"
| fan_next: "fan_reach out n s \<Longrightarrow> fan_step out n s s' \<Longrightarrow> fan_reach out n s'"

section \<open>The fan-out is bounded, fair and ends\<close>

text \<open>The main goroutine remembers a pin mismatch if and only if it received one.\<close>

definition pin_seen :: "delivery list \<Rightarrow> go_error option \<Rightarrow> bool" where
  "pin_seen rs pe \<longleftrightarrow>
     (case pe of
        None \<Rightarrow> \<forall>(i, r) \<in> set rs. \<forall>e. r = Inl e \<longrightarrow> \<not> is_pin_error e
      | Some e \<Rightarrow> is_pin_error e \<and> (\<exists>i. (i, Inl e) \<in> set rs))"

text \<open>The candidates that have delivered, in the order of their results.\<close>

definition fan_seen :: "fan \<Rightarrow> nat list" where
  "fan_seen s = map fst (f_read s @ f_chan s)"

text \<open>Each candidate is in one place, and none is lost until the context is cancelled.\<close>

definition fan_parts :: "nat \<Rightarrow> fan \<Rightarrow> bool" where
  "fan_parts n s \<longleftrightarrow>
     finite (f_waiting s) \<and> finite (f_running s) \<and> card (f_running s) \<le> fanOut n
     \<and> f_waiting s \<inter> f_running s = {} \<and> distinct (fan_seen s)
     \<and> (f_waiting s \<union> f_running s) \<inter> set (fan_seen s) = {}
     \<and> f_waiting s \<union> f_running s \<union> set (fan_seen s) \<subseteq> {..<n}
     \<and> (\<not> fan_cancelled s \<longrightarrow> f_waiting s \<union> f_running s \<union> set (fan_seen s) = {..<n})"

text \<open>What was delivered is the candidate's outcome, or the error of a cancelled attempt.\<close>

definition fan_honest :: "(nat \<Rightarrow> bytes result) \<Rightarrow> fan \<Rightarrow> bool" where
  "fan_honest out s \<longleftrightarrow>
     (\<forall>(i, r) \<in> set (f_read s @ f_chan s). r = out i \<or> fan_cancelled s \<and> broken_off r)"

definition fan_memory :: "fan \<Rightarrow> bool" where
  "fan_memory s \<longleftrightarrow>
     (f_answer s = None \<longrightarrow> (\<forall>(i, r) \<in> set (f_read s). \<exists>e. r = Inl e) \<and> pin_seen (f_read s) (f_pinErr s))"

definition fan_ok :: "(nat \<Rightarrow> bytes result) \<Rightarrow> nat \<Rightarrow> fan \<Rightarrow> bool" where
  "fan_ok out n s \<longleftrightarrow> fan_parts n s \<and> fan_honest out s \<and> fan_memory s"

text \<open>What an answer promises: a body is one that a candidate delivered, a pin mismatch is that of
  a candidate, any other error is \<^verbatim>\<open>errNoMatch\<close>; and if the caller's context did not end
  (\<open>ended\<close>), an error means that all candidates failed and no mismatch among them is hidden.\<close>

definition answer_ok :: "(nat \<Rightarrow> bytes result) \<Rightarrow> nat \<Rightarrow> bool \<Rightarrow> bytes result \<Rightarrow> bool" where
  "answer_ok out n ended r \<longleftrightarrow>
     (case r of
        Inr body \<Rightarrow> \<exists>i < n. out i = Inr body
      | Inl e \<Rightarrow>
          (if is_pin_error e then \<exists>i < n. out i = Inl e else e = ErrNoMatch)
          \<and> (\<not> ended \<longrightarrow> (\<forall>i < n. \<exists>e'. out i = Inl e')
               \<and> ((\<exists>i < n. \<exists>e'. out i = Inl e' \<and> is_pin_error e') \<longrightarrow> is_pin_error e)))"

lemma fan_start_ok: "fan_ok out n (fan_start n)"
  by (simp add: fan_ok_def fan_start_def pin_seen_def fan_parts_def fan_honest_def fan_memory_def fan_seen_def)

lemma pin_seen_snoc:
  "pin_seen rs pe \<Longrightarrow> pin_seen (rs @ [(i, Inl e)]) (if is_pin_error e then Some e else pe)"
  by (auto simp: pin_seen_def split: option.splits)

lemma card_insert_bound: "card S < k \<Longrightarrow> card (insert i S) \<le> k"
  by (metis Suc_leI card_insert_le_m1 card_insert_le le_trans zero_less_Suc card.insert_remove
      card_Diff1_le Suc_le_mono card_insert_disjoint finite_insert card.infinite diff_Suc_1 not_less0)

lemma fan_step_parts:
  assumes "fan_step out n s s'" and "fan_parts n s"
  shows "fan_parts n s'"
  using assms
proof (cases rule: fan_step.cases)
  case (fan_acquire i)
  then have "fan_seen s' = fan_seen s" "fan_cancelled s' = fan_cancelled s"
    by (simp_all add: fan_seen_def fan_cancelled_def)
  then show ?thesis using assms(2) fan_acquire card_insert_bound [of "f_running s" "fanOut n" i]
    by (auto simp: fan_parts_def)
next
  case (fan_abandon i)
  then have "fan_seen s' = fan_seen s" "fan_cancelled s'"
    by (simp_all add: fan_seen_def fan_cancelled_def)
  then show ?thesis using assms(2) fan_abandon by (auto simp: fan_parts_def)
next
  case (fan_deliver i r)
  have c: "card (f_running s - {i}) \<le> card (f_running s)" by (rule card_Diff1_le)
  have "fan_seen s' = fan_seen s @ [i]" "fan_cancelled s' = fan_cancelled s"
    using fan_deliver by (simp_all add: fan_seen_def fan_cancelled_def)
  then show ?thesis using assms(2) fan_deliver c by (auto simp: fan_parts_def)
next
  case (fan_success i body ch)
  then have "fan_seen s' = fan_seen s" "fan_cancelled s'"
    by (simp_all add: fan_seen_def fan_cancelled_def)
  then show ?thesis using assms(2) fan_success by (simp add: fan_parts_def)
next
  case (fan_failure i e ch)
  then have "fan_seen s' = fan_seen s" "fan_cancelled s' = fan_cancelled s"
    by (simp_all add: fan_seen_def fan_cancelled_def)
  then show ?thesis using assms(2) fan_failure by (simp add: fan_parts_def)
next
  case fan_close
  then have "fan_seen s' = fan_seen s" "fan_cancelled s'"
    by (simp_all add: fan_seen_def fan_cancelled_def)
  then show ?thesis using assms(2) fan_close by (simp add: fan_parts_def)
next
  case fan_timeout
  then have "fan_seen s' = fan_seen s" "fan_cancelled s'"
    by (simp_all add: fan_seen_def fan_cancelled_def)
  then show ?thesis using assms(2) fan_timeout by (simp add: fan_parts_def)
qed

lemma fan_step_honest:
  "fan_step out n s s' \<Longrightarrow> fan_honest out s \<Longrightarrow> fan_honest out s'"
  by (cases rule: fan_step.cases) (auto simp: fan_honest_def fan_cancelled_def)

lemma fan_step_memory:
  assumes "fan_step out n s s'" and "fan_memory s"
  shows "fan_memory s'"
  using assms
proof (cases rule: fan_step.cases)
  case (fan_failure i e ch)
  then show ?thesis
    using assms(2) pin_seen_snoc [of "f_read s" "f_pinErr s" i e] by (auto simp: fan_memory_def)
qed (auto simp: fan_memory_def)

lemma fan_step_ok: "fan_step out n s s' \<Longrightarrow> fan_ok out n s \<Longrightarrow> fan_ok out n s'"
  using fan_step_parts fan_step_honest fan_step_memory unfolding fan_ok_def by blast

lemma fan_reach_ok: "fan_reach out n s \<Longrightarrow> fan_ok out n s"
  by (induction rule: fan_reach.induct) (auto intro: fan_start_ok fan_step_ok)

lemma fan_honestD:
  "fan_honest out s \<Longrightarrow> (i, r) \<in> set (f_read s @ f_chan s) \<Longrightarrow> out i = r \<or> fan_cancelled s \<and> broken_off r"
  unfolding fan_honest_def by (drule bspec) auto

lemma delivered_out:
  assumes "fan_ok out n s" and "(i, r) \<in> set (f_read s @ f_chan s)" and "\<not> broken_off r"
  shows "i < n \<and> out i = r"
proof -
  have "i \<in> set (fan_seen s)" using assms(2) by (force simp: fan_seen_def)
  then show ?thesis using assms fan_honestD [OF _ assms(2), of out] by (auto simp: fan_ok_def fan_parts_def)
qed

lemma all_read:
  assumes ok: "fan_ok out n s" and go: "\<not> fan_cancelled s"
    and "f_waiting s = {}" and "f_running s = {}" and "f_chan s = []" and "i < n"
  shows "\<exists>e. out i = Inl e \<and> (i, Inl e) \<in> set (f_read s)"
proof -
  have "i \<in> set (fan_seen s)" using assms by (auto simp: fan_ok_def fan_parts_def)
  then obtain r where r: "(i, r) \<in> set (f_read s)" using assms(5) by (auto simp: fan_seen_def)
  then have "out i = r" using ok go fan_honestD [of out s i r] by (simp add: fan_ok_def)
  moreover obtain e where "r = Inl e"
    using r ok go by (auto simp: fan_ok_def fan_memory_def fan_cancelled_def)
  ultimately show ?thesis using r by auto
qed

lemma close_answer:
  assumes ok: "fan_ok out n s" and none: "f_answer s = None"
    and idle: "f_waiting s = {}" "f_running s = {}" "f_chan s = []"
  shows "answer_ok out n (f_done s) (Inl (case f_pinErr s of Some e \<Rightarrow> e | None \<Rightarrow> ErrNoMatch))"
proof -
  have ps: "pin_seen (f_read s) (f_pinErr s)" using ok none by (simp add: fan_ok_def fan_memory_def)
  have all: "\<exists>e. out i = Inl e \<and> (i, Inl e) \<in> set (f_read s)" if "\<not> f_done s" "i < n" for i
    using all_read [OF ok _ idle that(2)] that none by (simp add: fan_cancelled_def)
  show ?thesis
  proof (cases "f_pinErr s")
    case None
    have "\<not> is_pin_error ErrNoMatch" by (simp add: is_pin_error_def)
    moreover have "\<not> is_pin_error e'" if "\<not> f_done s" "i < n" "out i = Inl e'" for i e'
      using all [OF that(1,2)] that(3) ps None by (fastforce simp: pin_seen_def)
    ultimately show ?thesis using None all by (fastforce simp: answer_ok_def)
  next
    case (Some e)
    then obtain i where i: "is_pin_error e" "(i, Inl e) \<in> set (f_read s)"
      using ps by (auto simp: pin_seen_def)
    then have "i < n \<and> out i = Inl e" by (intro delivered_out [OF ok]) (auto simp: broken_off_def)
    then show ?thesis using Some i(1) all by (fastforce simp: answer_ok_def)
  qed
qed

lemma fan_step_answer:
  assumes "fan_step out n s s'" and ok: "fan_ok out n s" and "f_answer s' = Some r" and "f_answer s = None"
  shows "answer_ok out n (f_done s') r"
  using assms(1)
proof (cases rule: fan_step.cases)
  case (fan_success i body ch)
  have "i < n \<and> out i = Inr body"
    using fan_success by (intro delivered_out [OF ok]) (simp_all add: broken_off_def)
  then show ?thesis using fan_success assms(3) by (auto simp: answer_ok_def)
next
  case fan_close
  then show ?thesis using close_answer [OF ok] assms(3) by simp
qed (use assms in auto)

lemma fan_step_keeps_answer:
  "fan_step out n s s' \<Longrightarrow> f_answer s = Some r \<Longrightarrow> f_answer s' = Some r \<and> (f_done s \<longrightarrow> f_done s')"
  by (cases rule: fan_step.cases) auto

lemma answer_ok_cut: "answer_ok out n c r \<Longrightarrow> (c \<longrightarrow> c') \<Longrightarrow> answer_ok out n c' r"
  by (auto simp: answer_ok_def split: sum.splits)

lemma fan_reach_answer: "fan_reach out n s \<Longrightarrow> f_answer s = Some r \<Longrightarrow> answer_ok out n (f_done s) r"
proof (induction arbitrary: r rule: fan_reach.induct)
  case fan_init
  then show ?case by (simp add: fan_start_def)
next
  case (fan_next s s')
  show ?case
  proof (cases "f_answer s")
    case None
    then show ?thesis
      using fan_step_answer [OF fan_next.hyps(2) fan_reach_ok [OF fan_next.hyps(1)]] fan_next.prems by blast
  next
    case (Some r')
    then show ?thesis
      using fan_next.IH [of r'] fan_step_keeps_answer [OF fan_next.hyps(2), of r'] fan_next.prems
      by (auto intro: answer_ok_cut)
  qed
qed

definition fan_work :: "fan \<Rightarrow> nat" where
  "fan_work s = 3 * card (f_waiting s) + 2 * card (f_running s) + length (f_chan s)
     + (if f_answer s = None then 1 else 0) + (if f_done s then 0 else 1)"

lemma fan_step_work:
  assumes "fan_step out n s s'" and "fan_ok out n s"
  shows "fan_work s' < fan_work s"
  using assms(1)
proof (cases rule: fan_step.cases)
  case (fan_acquire i)
  have f: "finite (f_waiting s)" "finite (f_running s)" "i \<notin> f_running s"
    using assms(2) fan_acquire by (auto simp: fan_ok_def fan_parts_def)
  have "card (f_waiting s) = Suc (card (f_waiting s - {i}))"
    using f fan_acquire by (metis card_Suc_Diff1)
  then show ?thesis using f fan_acquire by (simp add: fan_work_def)
next
  case (fan_abandon i)
  have "card (f_waiting s) = Suc (card (f_waiting s - {i}))"
    using assms(2) fan_abandon by (metis card_Suc_Diff1 fan_ok_def fan_parts_def)
  then show ?thesis using fan_abandon by (simp add: fan_work_def)
next
  case (fan_deliver i r)
  have "card (f_running s) = Suc (card (f_running s - {i}))"
    using assms(2) fan_deliver by (metis card_Suc_Diff1 fan_ok_def fan_parts_def)
  then show ?thesis using fan_deliver by (simp add: fan_work_def)
qed (simp_all add: fan_work_def)

lemma fan_progress:
  assumes "fan_ok out n s" and "f_answer s = None"
  shows "\<exists>s'. fan_step out n s s'"
proof -
  consider (chan) i r ch where "f_chan s = (i, r) # ch" | (run) i where "i \<in> f_running s"
    | (wait) i where "i \<in> f_waiting s" "f_running s = {}"
    | (none) "f_chan s = []" "f_running s = {}" "f_waiting s = {}"
    by (cases "f_chan s") auto
  then show ?thesis
  proof cases
    case (chan i r ch)
    then show ?thesis
      using fan_success [of s i _ ch out n] fan_failure [of s i _ ch out n] assms(2)
      by (cases r) blast+
  next
    case run
    then show ?thesis using fan_deliver [OF _ disjI1 [OF refl]] by blast
  next
    case wait
    have "0 < fanOut n" by (simp add: fanOut_def go_const)
    then show ?thesis using wait fan_acquire [of i s n] by auto
  next
    case none
    then show ?thesis using fan_close [of s] assms(2) by blast
  qed
qed

text \<open>C6: \<^verbatim>\<open>fetch\<close> always answers, and rightly, however its goroutines interleave and
  whenever its caller's context ends. At most \<^verbatim>\<open>fanOut\<close> candidates are tried at once; every
  step uses up work and a step is possible until there is an answer, so every execution ends with
  one; a body is one that a candidate delivered; a pin mismatch is that of a candidate, and every
  other error is \<^verbatim>\<open>errNoMatch\<close>; and unless the context ended, an error means that every
  candidate failed and that none of them showed a mismatch which the answer hides.\<close>

theorem fetch_answers:
  assumes "fan_reach out n s"
  shows "card (f_running s) \<le> fanOut n
    \<and> (\<forall>s'. fan_step out n s s' \<longrightarrow> fan_work s' < fan_work s)
    \<and> (f_answer s = None \<longrightarrow> (\<exists>s'. fan_step out n s s'))
    \<and> (\<forall>r. f_answer s = Some r \<longrightarrow> answer_ok out n (f_done s) r)"
  using fan_reach_ok [OF assms] fan_reach_answer [OF assms] fan_step_work fan_progress
  by (auto simp: fan_ok_def fan_parts_def)

theorem fetch_answers_witness:
  "card (f_running (fan_start 3)) \<le> fanOut 3 \<and> (\<exists>s'. fan_step (\<lambda>_. Inl ErrNoMatch) 3 (fan_start 3) s')"
  using fetch_answers [OF fan_init [of "\<lambda>_. Inl ErrNoMatch" 3]] by (simp add: fan_start_def)

text \<open>A timeout is not told apart from a code that nobody has: when the context ends before the
  only candidate was tried, which would have delivered the paste, \<^verbatim>\<open>fetch\<close> answers that there
  is no paste for the code.\<close>

lemma timeout_answers_no_match:
  "\<exists>s. fan_reach (\<lambda>_. Inr body) 1 s \<and> f_answer s = Some (Inl ErrNoMatch)"
proof -
  let ?out = "\<lambda>_::nat. Inr body :: bytes result"
  let ?s1 = "(fan_start 1)\<lparr>f_done := True\<rparr>"
  let ?s2 = "?s1\<lparr>f_waiting := f_waiting ?s1 - {0}\<rparr>"
  have 1: "fan_reach ?out 1 ?s1"
    by (rule fan_next [OF fan_init fan_timeout]) (simp add: fan_start_def)
  have 2: "fan_reach ?out 1 ?s2"
    by (rule fan_next [OF 1 fan_abandon]) (simp_all add: fan_start_def fan_cancelled_def)
  let ?s3 = "?s2\<lparr>f_answer := Some (Inl (case f_pinErr ?s2 of Some e \<Rightarrow> e | None \<Rightarrow> ErrNoMatch))\<rparr>"
  have "fan_reach ?out 1 ?s3"
    by (rule fan_next [OF 2 fan_close]) (auto simp: fan_start_def)
  moreover have "f_answer ?s3 = Some (Inl ErrNoMatch)" by (simp add: fan_start_def)
  ultimately show ?thesis by blast
qed

text \<open>Goroutines take the semaphore in any order, so those of the candidates tried last can hold
  all of it.\<close>

lemma fan_fill:
  "k < n \<Longrightarrow> k \<le> fanOut n \<Longrightarrow>
   fan_reach out n ((fan_start n)\<lparr>f_waiting := {..<n} - {n - k..<n}, f_running := {n - k..<n}\<rparr>)"
proof (induction k)
  case 0
  then show ?case using fan_init [of out n] by (simp add: fan_start_def)
next
  case (Suc k)
  let ?s = "(fan_start n)\<lparr>f_waiting := {..<n} - {n - k..<n}, f_running := {n - k..<n}\<rparr>"
  let ?i = "n - Suc k"
  have r: "fan_reach out n ?s" using Suc by simp
  have sets: "{..<n} - {n - k..<n} - {?i} = {..<n} - {?i..<n}" "insert ?i {n - k..<n} = {?i..<n}"
    using Suc.prems by auto
  have "fan_step out n ?s (?s\<lparr>f_waiting := f_waiting ?s - {?i}, f_running := insert ?i (f_running ?s)\<rparr>)"
    using Suc.prems by (intro fan_acquire) (auto simp: card_Diff_subset)
  from fan_next [OF r this] show ?case by (simp add: sets)
qed

text \<open>The order in which \<^verbatim>\<open>fetch\<close> sorts its candidates, pinned hosts first, decides
  nothing: with more candidates than slots a schedule exists in which candidates from the end of
  the order hold every slot of the semaphore while all those before them, pinned or not, wait.\<close>

lemma pinned_first_not_enforced:
  assumes "fanOut n < n"
  shows "\<exists>s. fan_reach out n s \<and> card (f_running s) = fanOut n
    \<and> f_waiting s = {..<n - fanOut n} \<and> f_running s = {n - fanOut n..<n}"
proof -
  let ?s = "(fan_start n)\<lparr>f_waiting := {..<n} - {n - fanOut n..<n}, f_running := {n - fanOut n..<n}\<rparr>"
  have "fan_reach out n ?s" using assms by (intro fan_fill) simp_all
  moreover have "f_waiting ?s = {..<n - fanOut n}" using assms by auto
  ultimately show ?thesis using assms by (intro exI [of _ ?s]) auto
qed

lemma pinned_first_not_enforced_witness:
  "\<exists>s. fan_reach (\<lambda>_. Inl ErrNoMatch) 9 s \<and> f_waiting s = {0} \<and> card (f_running s) = 8"
proof -
  have f: "fanOut 9 = 8" by (simp add: fanOut_def go_const)
  then show ?thesis
    using pinned_first_not_enforced [of 9 "\<lambda>_. Inl ErrNoMatch"] by (auto simp: lessThan_Suc)
qed

section \<open>Pinned hosts\<close>

lemma checkPin_None:
  "checkPin c spki = None \<Longrightarrow> cd_pin c = Some p \<Longrightarrow> hostID spki = cd_hostID c \<and> spkiHash spki = pin_SPKI p"
  by (auto simp: checkPin_def Let_def split: if_splits)

lemma spkiHash_eq: "spkiHash a = spkiHash b \<Longrightarrow> sha256_Sum256 a = sha256_Sum256 b"
  unfolding spkiHash_def by (rule base64_inj) simp_all

text \<open>C7: A pinned host is authenticated by its key. A fetch from a candidate with a pin taken
  from the key \<open>old\<close> succeeds only over a connection whose key has the same SHA-256 as \<open>old\<close>
  and the candidate's host ID; another key under the right host ID is reported as a pin mismatch
  and anything else as no match, before any byte of the exchange.\<close>

theorem pinned_fetch:
  assumes "cd_pin c = Some p" and "pin_SPKI p = spkiHash old"
    and "tls_handshake tls = None" and "tls_peer tls = Some leaf" and "dial = Inr conn"
  shows "case fetchFrom S ip6 tls prs c rs dial of
      (Inr body, _) \<Rightarrow> sha256_Sum256 leaf = sha256_Sum256 old \<and> hostID leaf = cd_hostID c
    | (Inl e, save) \<Rightarrow> save = None
        \<and> (hostID leaf \<noteq> cd_hostID c \<longrightarrow> e = ErrNoMatch)
        \<and> (hostID leaf = cd_hostID c \<and> sha256_Sum256 leaf \<noteq> sha256_Sum256 old \<longrightarrow>
             e = PinMismatch (cd_hostID c) (spkiHash leaf) (spkiHash old))"
proof (cases "hostID leaf = cd_hostID c \<and> spkiHash leaf = spkiHash old")
  case True
  have same: "sha256_Sum256 leaf = sha256_Sum256 old" using True spkiHash_eq by blast
  have "save = None" if "fetchFrom S ip6 tls prs c rs dial = (Inl e, save)" for e save
    using that assms(3-5) by (simp add: fetchFrom_def verifyConnection_def split: option.splits sum.splits if_splits)
  then show ?thesis
    using True same by (cases "fetchFrom S ip6 tls prs c rs dial") (simp split: sum.split)
next
  case False
  then have "checkPin c leaf = Some (if hostID leaf \<noteq> cd_hostID c then ErrNoMatch
      else PinMismatch (cd_hostID c) (spkiHash leaf) (spkiHash old))"
    using assms(1,2) by (auto simp: checkPin_def)
  moreover have "spkiHash leaf = spkiHash old" if "sha256_Sum256 leaf = sha256_Sum256 old"
    using that by (simp add: spkiHash_def)
  ultimately show ?thesis using assms(3-5) False by (auto simp: fetchFrom_def verifyConnection_def)
qed

definition demo_tls :: tls_state where
  "demo_tls = \<lparr>tls_handshake = None, tls_proto = alpnProto, tls_peer = Some [1, 2, 3], tls_binding = Inr [1],
     tls_deadline = None, tls_deadline2 = None\<rparr>"

definition demo_candidate :: candidate where
  "demo_candidate = \<lparr>cd_hostID = ''SPOOFED12345'', cd_hostname = ''x'', cd_addr = ''10.0.0.1:7391'',
     cd_pin = Some \<lparr>pin_SPKI = spkiHash [1, 2, 3], pin_Hostname = ''x''\<rparr>\<rparr>"

theorem pinned_fetch_witness:
  "case fetchFrom toy_suite (\<lambda>_. None) demo_tls [7] demo_candidate [] (Inr \<lparr>c_in = [], c_out = [], c_room = 0\<rparr>)
   of (Inr body, _) \<Rightarrow> hostID [1, 2, 3] = ''SPOOFED12345'' | (Inl e, save) \<Rightarrow> save = None"
proof -
  let ?r = "fetchFrom toy_suite (\<lambda>_. None) demo_tls [7] demo_candidate [] (Inr \<lparr>c_in = [], c_out = [], c_room = 0\<rparr>)"
  have a: "cd_pin demo_candidate = Some \<lparr>pin_SPKI = spkiHash [1, 2, 3], pin_Hostname = ''x''\<rparr>"
    "tls_handshake demo_tls = None" "tls_peer demo_tls = Some [1, 2, 3]"
    by (simp_all add: demo_candidate_def demo_tls_def)
  have h: "cd_hostID demo_candidate = ''SPOOFED12345''" by (simp add: demo_candidate_def)
  show ?thesis
    using pinned_fetch [OF a(1) _ a(2,3) refl, of "[1, 2, 3]" toy_suite "\<lambda>_. None" "[7]" "[]"
        "\<lparr>c_in = [], c_out = [], c_room = 0\<rparr>"]
    unfolding h by (cases ?r) (auto split: sum.splits)
qed

text \<open>Only a paste fetched from another machine is pinned, and its pin admits later exactly the keys
  with the same hash under the same host ID.\<close>

lemma isLoopback_v4:
  assumes "length a = 4"
  shows "isLoopback ip6 (JoinHostPort (ip4_String a) (nat_digits port)) \<longleftrightarrow> a ! 0 = 127"
  using Split_Join [OF ip4_String_plain plain_digits, of a port] ParseIP_String [OF assms, of ip6] mapped_To4 [OF assms]
  by (simp add: isLoopback_def ip_IsLoopback_def)

lemma fetchFrom_pins:
  assumes "fetchFrom S ip6 tls prs c rs dial = (r, save)"
  shows "save \<noteq> None \<longleftrightarrow> (\<exists>body. r = Inr body) \<and> \<not> isLoopback ip6 (cd_addr c)"
    and "save = Some (hid, p) \<Longrightarrow> \<exists>leaf. tls_peer tls = Some leaf \<and> hid = hostID leaf
      \<and> p = \<lparr>pin_SPKI = spkiHash leaf, pin_Hostname = cd_hostname c\<rparr>"
  using assms
  by (auto simp: fetchFrom_def split: option.splits sum.splits if_splits intro: sym)

lemma first_use_pins:
  assumes "fetchFrom S ip6 tls prs c rs dial = (r, Some (hid, p))" and "cd_hostID c' = hid" and "cd_pin c' = Some p"
  shows "\<exists>leaf. tls_peer tls = Some leaf \<and>
    (\<forall>leaf'. verifyConnection c' (Some leaf') = None \<longleftrightarrow>
        hostID leaf' = hostID leaf \<and> sha256_Sum256 leaf' = sha256_Sum256 leaf)"
proof -
  obtain leaf where leaf: "tls_peer tls = Some leaf" "hid = hostID leaf" "pin_SPKI p = spkiHash leaf"
    using fetchFrom_pins(2) [OF assms(1) refl] by auto
  have "spkiHash leaf' = spkiHash leaf \<longleftrightarrow> sha256_Sum256 leaf' = sha256_Sum256 leaf" for leaf'
    using spkiHash_eq by (auto simp: spkiHash_def)
  then show ?thesis using leaf assms(2,3)
    by (intro exI [of _ leaf]) (auto simp: verifyConnection_def checkPin_def)
qed

text \<open>The body \<^verbatim>\<open>fetch\<close> returns comes from one of its candidates, over a connection that
  the candidate's pin admits.\<close>

lemma fetch_from_candidate:
  assumes "fan_reach (fetch_out S ip6 net prs cands) (length cands) s" and "f_answer s = Some (Inr body)"
  shows "\<exists>c \<in> set cands. \<exists>(a :: attempt) save. fetchFrom S ip6 (at_tls a) prs c (at_rand a) (at_dial a) = (Inr body, save)
    \<and> verifyConnection c (tls_peer (at_tls a)) = None"
proof -
  obtain i where i: "i < length cands" "fetch_out S ip6 net prs cands i = Inr body"
    using fan_reach_answer [OF assms] by (auto simp: answer_ok_def)
  let ?c = "fetch_order cands ! i" and ?a = "net i"
  have "?c \<in> set (fetch_order cands)" using i(1) by (intro nth_mem) (simp add: fetch_order_def)
  then have "?c \<in> set cands" by (simp add: fetch_order_def)
  moreover obtain save where f: "fetchFrom S ip6 (at_tls ?a) prs ?c (at_rand ?a) (at_dial ?a) = (Inr body, save)"
    using i(2) by (metis fetch_out_def prod.collapse)
  moreover have "verifyConnection ?c (tls_peer (at_tls ?a)) = None"
    using f by (auto simp: fetchFrom_def split: option.splits sum.splits)
  ultimately show ?thesis by blast
qed

text \<open>The answers a fetch can give, over all schedules and all ends of its context. There always
  is one.\<close>

definition fetch_gives ::
  "('e, 's) suite \<Rightarrow> (string \<Rightarrow> bytes option) \<Rightarrow> (nat \<Rightarrow> attempt) \<Rightarrow> bytes \<Rightarrow> candidate list
    \<Rightarrow> bytes result \<Rightarrow> bool" where
  "fetch_gives S ip6 net prs cands r \<longleftrightarrow>
     (\<exists>s. fan_reach (fetch_out S ip6 net prs cands) (length cands) s \<and> f_answer s = Some r)"

lemma fan_finishes: "fan_reach out n s \<Longrightarrow> \<exists>s' r. fan_reach out n s' \<and> f_answer s' = Some r"
proof (induction "fan_work s" arbitrary: s rule: less_induct)
  case less
  show ?case
  proof (cases "f_answer s")
    case None
    note ok = fan_reach_ok [OF less.prems]
    obtain s' where s': "fan_step out n s s'" using fan_progress [OF ok None] by blast
    show ?thesis by (rule less.hyps [OF fan_step_work [OF s' ok] fan_next [OF less.prems s']])
  qed (use less.prems in blast)
qed

lemma fetch_total: "\<exists>r. fetch_gives S ip6 net prs cands r"
  unfolding fetch_gives_def using fan_finishes [OF fan_init] by blast

lemma fetch_gives_body:
  assumes "fetch_gives S ip6 net prs cands (Inr body)"
  shows "\<exists>c \<in> set cands. \<exists>(a :: attempt) save.
    fetchFrom S ip6 (at_tls a) prs c (at_rand a) (at_dial a) = (Inr body, save)
    \<and> verifyConnection c (tls_peer (at_tls a)) = None"
  using assms fetch_from_candidate unfolding fetch_gives_def by blast

section \<open>The offer\<close>

text \<open>The layout of an offer: its count in two bytes, then a share and a confirmation each.\<close>

definition offer_bytes :: "(bytes \<times> bytes) list \<Rightarrow> bytes" where
  "offer_bytes es =
     [word_of_nat (length es div 256), word_of_nat (length es)] @ concat (map (\<lambda>(share, tag). share @ tag) es)"

definition entry_ok :: "bytes \<times> bytes \<Rightarrow> bool" where
  "entry_ok e \<longleftrightarrow> length (fst e) = pointLen \<and> length (snd e) = macLen"

lemma offer_concat_length:
  "\<forall>e \<in> set es. entry_ok e \<Longrightarrow> length (concat (map (\<lambda>(share, tag). share @ tag) es)) = length es * (pointLen + macLen)"
  by (induction es) (auto simp: entry_ok_def)

lemma offer_length: "\<forall>e \<in> set es. entry_ok e \<Longrightarrow> length (offer_bytes es) = 2 + length es * (pointLen + macLen)"
  by (simp add: offer_bytes_def offer_concat_length)

lemma drop_concat_entries:
  "\<forall>e \<in> set es. entry_ok e \<Longrightarrow> i \<le> length es \<Longrightarrow>
   drop (i * (pointLen + macLen)) (concat (map (\<lambda>(share, tag). share @ tag) es))
     = concat (map (\<lambda>(share, tag). share @ tag) (drop i es))"
proof (induction i arbitrary: es)
  case 0
  then show ?case by simp
next
  case (Suc i)
  then obtain e es' where es: "es = e # es'" by (cases es) auto
  obtain s t where e: "e = (s, t)" by (cases e)
  have l: "length (s @ t) = pointLen + macLen" using Suc.prems(1) es e by (simp add: entry_ok_def)
  have "drop (Suc i * (pointLen + macLen)) ((s @ t) @ concat (map (\<lambda>(share, tag). share @ tag) es'))
      = drop (i * (pointLen + macLen)) (concat (map (\<lambda>(share, tag). share @ tag) es'))"
    using l by simp
  also have "\<dots> = concat (map (\<lambda>(share, tag). share @ tag) (drop i es'))"
    using Suc.prems es by (intro Suc.IH) auto
  finally show ?case by (simp add: es e)
qed

lemma offer_entry:
  assumes "\<forall>e \<in> set es. entry_ok e" and "i < length es" and "es ! i = (share, tag)"
  shows "take pointLen (drop (2 + i * (pointLen + macLen)) (offer_bytes es)) = share"
    and "take macLen (drop (2 + i * (pointLen + macLen) + pointLen) (offer_bytes es)) = tag"
proof -
  have "drop (2 + i * (pointLen + macLen)) (offer_bytes es)
      = drop (i * (pointLen + macLen)) (concat (map (\<lambda>(share, tag). share @ tag) es))"
    by (simp add: offer_bytes_def)
  also have "\<dots> = concat (map (\<lambda>(share, tag). share @ tag) (drop i es))"
    using assms by (intro drop_concat_entries) simp_all
  also have "\<dots> = (share @ tag) @ concat (map (\<lambda>(share, tag). share @ tag) (drop (Suc i) es))"
    using assms by (simp add: Cons_nth_drop_Suc [symmetric])
  finally have d: "drop (2 + i * (pointLen + macLen)) (offer_bytes es)
      = (share @ tag) @ concat (map (\<lambda>(share, tag). share @ tag) (drop (Suc i) es))" .
  have l: "length share = pointLen" "length tag = macLen"
    using assms nth_mem [OF assms(2)] by (auto simp: entry_ok_def)
  show "take pointLen (drop (2 + i * (pointLen + macLen)) (offer_bytes es)) = share"
    using d l by simp
  have "drop (2 + i * (pointLen + macLen) + pointLen) (offer_bytes es)
      = drop pointLen (drop (2 + i * (pointLen + macLen)) (offer_bytes es))"
    by (simp add: add.commute)
  also have "\<dots> = tag @ concat (map (\<lambda>(share, tag). share @ tag) (drop (Suc i) es))"
    unfolding d using l by simp
  finally show "take macLen (drop (2 + i * (pointLen + macLen) + pointLen) (offer_bytes es)) = tag"
    using l(2) by (simp only: append_eq_conv_conj length_take take_append) simp
qed

text \<open>The loop over an offer is a fold over its entries.\<close>

definition match_entries ::
  "('e, 's) suite \<Rightarrow> 's pakeSide \<Rightarrow> bytes \<Rightarrow> (bytes \<times> bytes) list \<Rightarrow> bytes option \<Rightarrow> bytes option" where
  "match_entries S side sid es sk = foldl (\<lambda>sk (share, tag). match_entry S side sid share tag sk) sk es"

lemma match_loop_entries:
  assumes "\<forall>e \<in> set es. entry_ok e"
  shows "i \<le> length es \<Longrightarrow> match_loop S side sid (offer_bytes es) (length es - i) i sk
    = match_entries S side sid (drop i es) sk"
proof (induction "length es - i" arbitrary: i sk)
  case 0
  then show ?case by (simp add: match_entries_def)
next
  case (Suc m)
  then have i: "i < length es" by simp
  obtain share tag where e: "es ! i = (share, tag)" by (cases "es ! i")
  have m: "m = length es - Suc i" "length es - i = Suc m" using Suc(2) by simp_all
  have "match_loop S side sid (offer_bytes es) (length es - i) i sk
      = match_loop S side sid (offer_bytes es) m (i + 1) (match_entry S side sid share tag sk)"
    unfolding m(2) by (simp only: match_loop.simps Let_def offer_entry [OF assms i e])
  also have "\<dots> = match_entries S side sid (drop (Suc i) es) (match_entry S side sid share tag sk)"
    unfolding m(1) using Suc(1) [OF m(1), of "match_entry S side sid share tag sk"] i m by simp
  also have "\<dots> = match_entries S side sid (drop i es) sk"
    using i e by (simp add: match_entries_def Cons_nth_drop_Suc [symmetric])
  finally show ?case .
qed

lemma count_bytes: "n < 65536 \<Longrightarrow> unat (word_of_nat (n div 256) :: byte) * 256 + unat (word_of_nat n :: byte) = n"
proof -
  assume n: "n < 65536"
  have "unat (word_of_nat (n div 256) :: byte) = n div 256"
    using n by (simp add: unsigned_of_nat take_bit_nat_eq_self div_less_iff_less_mult)
  moreover have "unat (word_of_nat n :: byte) = n mod 256"
    by (simp add: unsigned_of_nat take_bit_eq_mod)
  ultimately show ?thesis by simp
qed

lemma matchOffer_entries:
  assumes "\<forall>e \<in> set es. entry_ok e" and "length es < 65536"
  shows "matchOffer S side sid (offer_bytes es) =
    (case match_entries S side sid es None of None \<Rightarrow> Inl ErrNoMatch | Some sk \<Rightarrow> Inr (side\<lparr>ps_sk := sk\<rparr>))"
proof -
  have h: "offer_bytes es ! 0 = word_of_nat (length es div 256)" "offer_bytes es ! 1 = word_of_nat (length es)"
    by (simp_all add: offer_bytes_def)
  have l: "length (offer_bytes es) = 2 + length es * (pointLen + macLen)"
    by (rule offer_length [OF assms(1)])
  have n: "unat (offer_bytes es ! 0) * 256 + unat (offer_bytes es ! 1) = length es"
    unfolding h by (rule count_bytes [OF assms(2)])
  have "match_loop S side sid (offer_bytes es) (length es) 0 None = match_entries S side sid es None"
    using match_loop_entries [OF assms(1), of 0] by simp
  then show ?thesis
    unfolding matchOffer_def n Let_def using l by simp
qed

end
