(* ===== verification/Interfaces.thy ===== *)
theory Interfaces
  imports Go_Net Go_Map
begin

unbundle bit_operations_syntax

text \<open>
  \<^verbatim>\<open>interfaces.go\<close>, and the decisions of \<^verbatim>\<open>env.go\<close>: which interfaces the daemon
  announces itself on and which local addresses it serves. What the system reports of its
  interfaces is an argument.
\<close>

section \<open>Interfaces\<close>

datatype ifaddr = IPNet bytes bytes | OtherAddr

record iface =
  if_Name :: string
  if_Up :: bool
  if_Multicast :: bool
  if_Loopback :: bool
  if_Addrs :: "ifaddr list option"

fun ip4_loop :: "ifaddr list \<Rightarrow> bytes option" where
  "ip4_loop [] = None"
| "ip4_loop (OtherAddr # as) = ip4_loop as"
| "ip4_loop (IPNet ip m # as) =
     (case ip_To4 ip of
        None \<Rightarrow> ip4_loop as
      | Some v4 \<Rightarrow> if ip_IsLinkLocalUnicast v4 then ip4_loop as else Some v4)"

definition ip4 :: "iface \<Rightarrow> bytes option" where
  "ip4 ifi = (case if_Addrs ifi of None \<Rightarrow> None | Some as \<Rightarrow> ip4_loop as)"

definition excludedIfacePrefixes :: "string list" where
  "excludedIfacePrefixes =
     [''docker'', ''br-'', ''veth'', ''vboxnet'', ''tun'', ''utun'', ''wg'', ''awdl'', ''llw'']"

definition excluded :: "string \<Rightarrow> bool" where
  "excluded name = list_ex (\<lambda>p. prefix p name) excludedIfacePrefixes"

definition errNoInterface :: go_error where
  "errNoInterface = ErrMsg ''no usable multicast interface''"

fun usable_loop :: "iface list \<Rightarrow> iface list \<Rightarrow> iface list" where
  "usable_loop [] out = out"
| "usable_loop (ifi # all) out =
     (if \<not> (if_Up ifi \<and> if_Multicast ifi) \<or> if_Loopback ifi then usable_loop all out
      else if excluded (if_Name ifi) \<or> ip4 ifi = None then usable_loop all out
      else usable_loop all (out @ [ifi]))"

definition usableInterfaces :: "iface list result \<Rightarrow> iface list result" where
  "usableInterfaces net =
     (case net of
        Inl e \<Rightarrow> Inl e
      | Inr all \<Rightarrow>
          let out = usable_loop all []
          in if length out = 0 then Inl errNoInterface else Inr out)"

section \<open>The filter\<close>

record netFilter =
  nf_ifaces :: "iface list"
  nf_addrs :: "(string, bool) gomap"

definition sameAddrs :: "(string, bool) gomap \<Rightarrow> (string, bool) gomap \<Rightarrow> bool" where
  "sameAddrs a b \<longleftrightarrow> length a = length b \<and> list_all (\<lambda>(k, _). mget b k = Some True) a"

fun addrs_loop :: "iface list \<Rightarrow> (string, bool) gomap \<Rightarrow> (string, bool) gomap" where
  "addrs_loop [] addrs = addrs"
| "addrs_loop (ifi # ifaces) addrs =
     addrs_loop ifaces (case ip4 ifi of None \<Rightarrow> addrs | Some ip \<Rightarrow> mput (ip4_String ip) True addrs)"

definition refresh :: "iface list result \<Rightarrow> netFilter \<Rightarrow> bool \<times> netFilter" where
  "refresh net f =
     (let ifaces = (case usableInterfaces net of Inl e \<Rightarrow> [] | Inr l \<Rightarrow> l);
          addrs = addrs_loop ifaces []
      in if sameAddrs (nf_addrs f) addrs then (False, f)
         else (True, f\<lparr>nf_ifaces := ifaces, nf_addrs := addrs\<rparr>))"

definition newNetFilter :: "iface list result \<Rightarrow> netFilter" where
  "newNetFilter net = snd (refresh net \<lparr>nf_ifaces = [], nf_addrs = []\<rparr>)"

definition isOwnAddr :: "string \<Rightarrow> netFilter \<Rightarrow> bool" where
  "isOwnAddr ip f \<longleftrightarrow> mget (nf_addrs f) ip = Some True"

definition serves :: "(string \<Rightarrow> bytes option) \<Rightarrow> string \<Rightarrow> netFilter \<Rightarrow> bool" where
  "serves ip6 local f =
     (case SplitHostPort local of
        None \<Rightarrow> False
      | Some (host, port) \<Rightarrow>
          (case ParseIP ip6 host of Some ip \<Rightarrow> ip_IsLoopback ip | None \<Rightarrow> False) \<or> isOwnAddr host f)"

definition iface_name :: "iface \<Rightarrow> string" where
  "iface_name ifi = if_Name ifi @ (case ip4 ifi of None \<Rightarrow> [] | Some ip \<Rightarrow> '' '' @ ip4_String ip)"

definition ifaceNames :: "iface list \<Rightarrow> string list" where
  "ifaceNames ifaces = map iface_name ifaces"

section \<open>Platforms\<close>

definition osDarwin :: string where "osDarwin = ''darwin''"

fun strings_Contains :: "string \<Rightarrow> string \<Rightarrow> bool" where
  "strings_Contains [] sub = (sub = [])"
| "strings_Contains (c # s) sub = (prefix sub (c # s) \<or> strings_Contains s sub)"

definition looksLikeWSL :: "unicode \<Rightarrow> string \<Rightarrow> bool" where
  "looksLikeWSL uni release =
     (let r = strings_ToLower uni release
      in strings_Contains r ''microsoft'' \<or> strings_Contains r ''wsl'')"

definition isWSL :: "unicode \<Rightarrow> string \<Rightarrow> string option \<Rightarrow> bool" where
  "isWSL uni goos osrelease =
     (if goos \<noteq> ''linux'' then False
      else case osrelease of None \<Rightarrow> False | Some b \<Rightarrow> looksLikeWSL uni b)"

definition net_Contains :: "bytes \<Rightarrow> bytes \<Rightarrow> bytes \<Rightarrow> bool" where
  "net_Contains nip nmask ip \<longleftrightarrow>
     (let x = (case ip_To4 ip of Some v4 \<Rightarrow> v4 | None \<Rightarrow> ip)
      in length x = length nip \<and> map2 (AND) nip nmask = map2 (AND) x nmask)"

definition wsl_net :: bytes where "wsl_net = [172, 16, 0, 0]"
definition wsl_mask :: bytes where "wsl_mask = [255, 240, 0, 0]"

fun wslNAT_loop :: "bool \<Rightarrow> iface list \<Rightarrow> bool" where
  "wslNAT_loop seen [] = seen"
| "wslNAT_loop seen (ifi # ifaces) =
     (case ip4 ifi of
        None \<Rightarrow> wslNAT_loop seen ifaces
      | Some ip \<Rightarrow> if \<not> net_Contains wsl_net wsl_mask ip then False else wslNAT_loop True ifaces)"

definition wslNAT :: "iface list \<Rightarrow> bool" where
  "wslNAT ifaces = wslNAT_loop False ifaces"

definition interfacesOrNil :: "iface list result \<Rightarrow> iface list" where
  "interfacesOrNil net = (case usableInterfaces net of Inl e \<Rightarrow> [] | Inr ifaces \<Rightarrow> ifaces)"

text \<open>Which of the three texts \<^verbatim>\<open>discoveryAdvice\<close> returns; the last is nil.\<close>

datatype advice = AdviceMirrored | AdviceSign | NoAdvice

definition discoveryAdvice :: "unicode \<Rightarrow> string \<Rightarrow> string option \<Rightarrow> iface list result \<Rightarrow> advice" where
  "discoveryAdvice uni goos osrelease net =
     (if isWSL uni goos osrelease \<and> wslNAT (interfacesOrNil net) then AdviceMirrored
      else if goos = osDarwin then AdviceSign else NoAdvice)"

section \<open>What the filter lets through\<close>

lemma ip4_loop_length: "ip4_loop as = Some a \<Longrightarrow> length a = 4 \<and> \<not> ip_IsLinkLocalUnicast a"
  by (induction as rule: ip4_loop.induct) (auto simp: ip_To4_def split: option.splits if_splits)

lemma ip4_length: "ip4 ifi = Some a \<Longrightarrow> length a = 4"
  using ip4_loop_length by (auto simp: ip4_def split: option.splits)

definition usable :: "iface \<Rightarrow> bool" where
  "usable ifi \<longleftrightarrow>
     if_Up ifi \<and> if_Multicast ifi \<and> \<not> if_Loopback ifi \<and> \<not> excluded (if_Name ifi) \<and> ip4 ifi \<noteq> None"

lemma usable_loop_filter: "usable_loop all out = out @ filter usable all"
  by (induction all out rule: usable_loop.induct) (auto simp: usable_def)

lemma interfacesOrNil_eq:
  "interfacesOrNil net = (case net of Inl e \<Rightarrow> [] | Inr all \<Rightarrow> filter usable all)"
  by (auto simp: interfacesOrNil_def usableInterfaces_def usable_loop_filter Let_def split: sum.splits)

lemma addrs_loop_get:
  "mget (addrs_loop ifaces m) k =
     (if \<exists>ifi \<in> set ifaces. \<exists>a. ip4 ifi = Some a \<and> ip4_String a = k then Some True else mget m k)"
  by (induction ifaces m rule: addrs_loop.induct) (auto split: option.splits)

lemma addrs_loop_wf: "mwf m \<Longrightarrow> mwf (addrs_loop ifaces m)"
  by (induction ifaces m rule: addrs_loop.induct) (auto split: option.splits)

text \<open>
  The filter's two fields belong together: the addresses are those of the interfaces, each of
  which was usable.
\<close>

definition filter_ok :: "netFilter \<Rightarrow> bool" where
  "filter_ok f \<longleftrightarrow>
     nf_addrs f = addrs_loop (nf_ifaces f) [] \<and> (\<forall>ifi \<in> set (nf_ifaces f). usable ifi)"

lemma wf_length: "mwf m \<Longrightarrow> length m = card (fst ` set m)"
  using distinct_card [of "map fst m"] by (simp add: mwf_def)

lemma sameAddrs_iff:
  assumes "mwf a" and "mwf b" and "\<forall>e \<in> set a. snd e" and "\<forall>e \<in> set b. snd e"
  shows "sameAddrs a b \<longleftrightarrow> fst ` set a = fst ` set b"
proof
  assume s: "sameAddrs a b"
  have "fst ` set a \<subseteq> fst ` set b"
  proof
    fix k assume "k \<in> fst ` set a"
    then obtain v where "(k, v) \<in> set a" by auto
    then have "mget b k = Some True" using s by (auto simp: sameAddrs_def list_all_iff)
    then show "k \<in> fst ` set b" using mget_Some_mem [of b k True] by (intro image_eqI [of _ _ "(k, True)"]) simp_all
  qed
  moreover have "card (fst ` set a) = card (fst ` set b)"
    using s wf_length [OF assms(1)] wf_length [OF assms(2)] by (simp add: sameAddrs_def)
  ultimately show "fst ` set a = fst ` set b" by (intro card_subset_eq) simp_all
next
  assume eq: "fst ` set a = fst ` set b"
  have "length a = length b"
    unfolding wf_length [OF assms(1)] wf_length [OF assms(2)] eq ..
  moreover have "mget b k = Some True" if "(k, v) \<in> set a" for k v
  proof -
    have "k \<in> fst ` set b" using imageI [OF that, of fst] unfolding eq by simp
    then obtain w where w: "(k, w) \<in> set b" by auto
    then show ?thesis using mem_mget [OF assms(2) w] assms(4) by auto
  qed
  ultimately show "sameAddrs a b" by (auto simp: sameAddrs_def list_all_iff)
qed

lemma addrs_loop_true: "e \<in> set (addrs_loop ifaces []) \<Longrightarrow> snd e"
  using mem_mget [OF addrs_loop_wf [OF mwf_Nil], of "fst e" "snd e" ifaces]
  by (simp add: addrs_loop_get split: if_splits)

lemma addrs_loop_keys: "mget (addrs_loop ifaces []) k = Some True \<longleftrightarrow> k \<in> fst ` set (addrs_loop ifaces [])"
proof
  assume "k \<in> fst ` set (addrs_loop ifaces [])"
  then have "mget (addrs_loop ifaces []) k \<noteq> None" by (simp add: mget_None_iff)
  then show "mget (addrs_loop ifaces []) k = Some True" by (auto simp: addrs_loop_get split: if_splits)
next
  assume "mget (addrs_loop ifaces []) k = Some True"
  from mget_Some_mem [OF this] show "k \<in> fst ` set (addrs_loop ifaces [])"
    by (intro image_eqI [of _ _ "(k, True)"]) simp_all
qed

lemma sameAddrs_own:
  "sameAddrs (addrs_loop xs []) (addrs_loop ys []) \<longleftrightarrow>
     (\<forall>k. mget (addrs_loop xs []) k = Some True \<longleftrightarrow> mget (addrs_loop ys []) k = Some True)"
  unfolding addrs_loop_keys
  by (subst sameAddrs_iff) (use addrs_loop_true addrs_loop_wf in \<open>blast intro: mwf_Nil\<close>)+

lemma refresh_facts:
  assumes ok: "filter_ok f" and r: "refresh net f = (changed, f')"
  shows "filter_ok f'"
    and "\<And>k. isOwnAddr k f' \<longleftrightarrow> (\<exists>ifi \<in> set (interfacesOrNil net). \<exists>a. ip4 ifi = Some a \<and> ip4_String a = k)"
    and "changed \<longleftrightarrow> (\<exists>k. isOwnAddr k f \<noteq> isOwnAddr k f')"
proof -
  let ?new = "interfacesOrNil net"
  have u: "\<forall>ifi \<in> set ?new. usable ifi" by (auto simp: interfacesOrNil_eq split: sum.splits)
  have fa: "nf_addrs f = addrs_loop (nf_ifaces f) []" using ok by (simp add: filter_ok_def)
  have r': "(changed, f') = (if sameAddrs (nf_addrs f) (addrs_loop ?new []) then (False, f)
      else (True, f\<lparr>nf_ifaces := ?new, nf_addrs := addrs_loop ?new []\<rparr>))"
    using r unfolding refresh_def interfacesOrNil_def Let_def by (rule sym)
  show "filter_ok f'" using r' ok u by (auto simp: filter_ok_def split: if_splits)
  show own: "isOwnAddr k f' \<longleftrightarrow> (\<exists>ifi \<in> set ?new. \<exists>a. ip4 ifi = Some a \<and> ip4_String a = k)" for k
    using r' sameAddrs_own [of "nf_ifaces f" ?new]
    by (auto simp: isOwnAddr_def fa addrs_loop_get split: if_splits)
  show "changed \<longleftrightarrow> (\<exists>k. isOwnAddr k f \<noteq> isOwnAddr k f')"
    using r' sameAddrs_own [of "nf_ifaces f" ?new]
    by (auto simp: isOwnAddr_def fa split: if_splits)
qed

lemma newNetFilter_ok: "filter_ok (newNetFilter net)"
  using refresh_facts(1) [of "\<lparr>nf_ifaces = [], nf_addrs = []\<rparr>" net]
  by (cases "refresh net \<lparr>nf_ifaces = [], nf_addrs = []\<rparr>") (simp add: newNetFilter_def filter_ok_def)

definition filter_after :: "iface list result \<Rightarrow> iface list result list \<Rightarrow> netFilter" where
  "filter_after net0 nets = foldl (\<lambda>f net. snd (refresh net f)) (newNetFilter net0) nets"

lemma filter_after_facts:
  "filter_ok (filter_after net0 nets)
   \<and> (\<forall>k. isOwnAddr k (filter_after net0 nets) \<longleftrightarrow>
        (\<exists>ifi \<in> set (interfacesOrNil (last (net0 # nets))). \<exists>a. ip4 ifi = Some a \<and> ip4_String a = k))"
proof (induction nets rule: rev_induct)
  case Nil
  obtain b f where r: "refresh net0 \<lparr>nf_ifaces = [], nf_addrs = []\<rparr> = (b, f)"
    by (cases "refresh net0 \<lparr>nf_ifaces = [], nf_addrs = []\<rparr>")
  show ?case
    using refresh_facts(1,2) [OF _ r] by (simp add: filter_after_def newNetFilter_def r filter_ok_def)
next
  case (snoc net nets)
  obtain b f where r: "refresh net (filter_after net0 nets) = (b, f)"
    by (cases "refresh net (filter_after net0 nets)")
  have "filter_after net0 (nets @ [net]) = f" using r by (simp add: filter_after_def)
  then show ?case using refresh_facts(1,2) [OF _ r] snoc.IH by simp
qed

lemma serves_v4:
  assumes "length a = 4"
  shows "serves ip6 (JoinHostPort (ip4_String a) (nat_digits port)) f \<longleftrightarrow> a ! 0 = 127 \<or> isOwnAddr (ip4_String a) f"
  using Split_Join [OF ip4_String_plain plain_digits, of a port] ParseIP_String [OF assms, of ip6] mapped_To4 [OF assms]
  by (simp add: serves_def ip_IsLoopback_def)

lemma serves_host:
  assumes "plain_host h"
  shows "serves ip6 (JoinHostPort h (nat_digits port)) f \<longleftrightarrow>
    (\<exists>ip. ParseIP ip6 h = Some ip \<and> ip_IsLoopback ip) \<or> isOwnAddr h f"
  using Split_Join [OF assms plain_digits, of port] by (simp add: serves_def split: option.split)

text \<open>The IPv4 addresses of an interface that are not link local, in the system's order.\<close>

definition v4_addresses :: "iface \<Rightarrow> bytes list" where
  "v4_addresses ifi =
     filter (\<lambda>a. \<not> ip_IsLinkLocalUnicast a)
       (List.map_filter (\<lambda>x. case x of IPNet n m \<Rightarrow> ip_To4 n | OtherAddr \<Rightarrow> None)
          (case if_Addrs ifi of None \<Rightarrow> [] | Some as \<Rightarrow> as))"

lemma ip4_first: "ip4 ifi = Some a \<longleftrightarrow> (\<exists>rest. v4_addresses ifi = a # rest)"
proof -
  have "ip4_loop as = Some a \<longleftrightarrow> (\<exists>rest. filter (\<lambda>a. \<not> ip_IsLinkLocalUnicast a)
      (List.map_filter (\<lambda>x. case x of IPNet n m \<Rightarrow> ip_To4 n | OtherAddr \<Rightarrow> None) as) = a # rest)" for as
    by (induction as rule: ip4_loop.induct) (auto simp: map_filter_simps split: option.splits)
  then show ?thesis by (simp add: ip4_def v4_addresses_def map_filter_simps split: option.splits)
qed

text \<open>An interface the program selects by its name and flags.\<close>

definition lan_iface :: "iface \<Rightarrow> bool" where
  "lan_iface ifi \<longleftrightarrow> if_Up ifi \<and> if_Multicast ifi \<and> \<not> if_Loopback ifi \<and> \<not> excluded (if_Name ifi)"

text \<open>C23: The data plane serves the local network and nothing else. However often the interfaces
  were looked at, a connection to a local address, whatever its text, is served exactly when
  the address parses as a loopback address or is the text of the first IPv4 address, link-local
  ones aside, of an interface that, at the last look, was up, capable of multicast, no loopback and
  not of an excluded kind. In particular a second IPv4 address of an interface is not served, and of
  the IPv6 addresses only the loopback ones are.\<close>

theorem serves_exactly:
  assumes "plain_host h"
  shows "(serves ip6 (JoinHostPort h (nat_digits port)) (filter_after net0 nets) \<longleftrightarrow>
      (\<exists>ip. ParseIP ip6 h = Some ip \<and> ip_IsLoopback ip)
      \<or> (\<exists>all ifi a rest. last (net0 # nets) = Inr all \<and> ifi \<in> set all \<and> lan_iface ifi
           \<and> v4_addresses ifi = a # rest \<and> h = ip4_String a))
    \<and> (\<forall>a. length a = 4 \<and> h = ip4_String a \<longrightarrow>
        (serves ip6 (JoinHostPort h (nat_digits port)) (filter_after net0 nets) \<longleftrightarrow>
           a ! 0 = 127
           \<or> (\<exists>all ifi rest. last (net0 # nets) = Inr all \<and> ifi \<in> set all \<and> lan_iface ifi
                \<and> v4_addresses ifi = a # rest)))
    \<and> (CHR '':'' \<in> set h \<longrightarrow>
        (serves ip6 (JoinHostPort h (nat_digits port)) (filter_after net0 nets) \<longleftrightarrow>
           (\<exists>ip. ParseIP ip6 h = Some ip \<and> ip_IsLoopback ip)))"
proof -
  let ?own = "\<exists>all ifi a rest. last (net0 # nets) = Inr all \<and> ifi \<in> set all \<and> lan_iface ifi
    \<and> v4_addresses ifi = a # rest \<and> h = ip4_String a"
  have sel: "ifi \<in> set (interfacesOrNil net) \<and> ip4 ifi = Some a \<longleftrightarrow>
      (\<exists>all rest. net = Inr all \<and> ifi \<in> set all \<and> lan_iface ifi \<and> v4_addresses ifi = a # rest)" for net ifi a
    by (cases net) (auto simp: interfacesOrNil_eq usable_def lan_iface_def ip4_first)
  have own: "isOwnAddr h (filter_after net0 nets) \<longleftrightarrow> ?own"
    using filter_after_facts [of net0 nets] sel by metis
  have v4: "v4_addresses ifi = a' # rest \<Longrightarrow> length a' = 4" for ifi a' rest
    using ip4_length ip4_first by blast
  have "?own \<longleftrightarrow> (\<exists>all ifi rest. last (net0 # nets) = Inr all \<and> ifi \<in> set all \<and> lan_iface ifi \<and> v4_addresses ifi = a # rest)"
    if "length a = 4" "h = ip4_String a" for a
    using that ip4_String_inj [OF v4 that(1)] by blast
  moreover have "(\<exists>ip. ParseIP ip6 h = Some ip \<and> ip_IsLoopback ip) \<longleftrightarrow> a ! 0 = 127" if "length a = 4" "h = ip4_String a" for a
    using ParseIP_String [OF that(1), of ip6] mapped_To4 [OF that(1)] by (simp add: that(2) ip_IsLoopback_def)
  moreover have "\<not> ?own" if "CHR '':'' \<in> set h" using that ip4_no_colon by auto
  ultimately show ?thesis unfolding serves_host [OF assms] own by blast
qed

definition demo_iface :: iface where
  "demo_iface = \<lparr>if_Name = ''eth0'', if_Up = True, if_Multicast = True, if_Loopback = False,
     if_Addrs = Some [IPNet [10, 0, 0, 1] [255, 0, 0, 0], IPNet [10, 0, 0, 2] [255, 0, 0, 0]]\<rparr>"

lemma demo_ip4: "ip4 demo_iface = Some [10, 0, 0, 1]"
  by (simp add: ip4_def demo_iface_def ip_To4_def ip_IsLinkLocalUnicast_def)

lemma demo_not_excluded: "\<not> excluded ''eth0''"
  by (simp add: excluded_def excludedIfacePrefixes_def)

theorem serves_exactly_witness:
  "serves (\<lambda>s. None) (JoinHostPort (ip4_String [10, 0, 0, 1]) (nat_digits 7391)) (filter_after (Inl ErrPanic) [Inr [demo_iface]])
   \<and> \<not> serves (\<lambda>s. None) (JoinHostPort (ip4_String [10, 0, 0, 2]) (nat_digits 7391)) (filter_after (Inl ErrPanic) [Inr [demo_iface]])"
proof -
  have "lan_iface demo_iface" using demo_not_excluded by (simp add: demo_iface_def lan_iface_def)
  moreover have "v4_addresses demo_iface = [[10, 0, 0, 1], [10, 0, 0, 2]]"
    by (simp add: v4_addresses_def demo_iface_def ip_To4_def ip_IsLinkLocalUnicast_def map_filter_simps)
  moreover note at = serves_exactly [OF ip4_String_plain, of "\<lambda>s. None" _ 7391 "Inl ErrPanic" "[Inr [demo_iface]]",
      THEN conjunct2, THEN conjunct1, THEN spec, THEN mp, OF conjI, OF _ refl]
  ultimately show ?thesis using at [of "[10, 0, 0, 1]"] at [of "[10, 0, 0, 2]"] by simp
qed

text \<open>Only the first IPv4 address of a selected interface is served.\<close>

lemma second_address_refused:
  "\<not> serves ip6 (JoinHostPort (ip4_String [10, 0, 0, 2]) (nat_digits 7391)) (newNetFilter (Inr [demo_iface]))"
proof -
  have f: "newNetFilter (Inr [demo_iface]) = filter_after (Inr [demo_iface]) []" by (simp add: filter_after_def)
  have "ip4_String [10, 0, 0, 2] \<noteq> ip4_String [10, 0, 0, 1]" using ip4_String_inj [of "[10, 0, 0, 2]" "[10, 0, 0, 1]"] by auto
  then have "\<not> isOwnAddr (ip4_String [10, 0, 0, 2]) (newNetFilter (Inr [demo_iface]))"
    using filter_after_facts [of "Inr [demo_iface]" "[]"] demo_ip4 unfolding f
    by (auto simp: interfacesOrNil_eq)
  then show ?thesis using serves_v4 [of "[10, 0, 0, 2]"] by simp
qed

text \<open>The NAT test of WSL: some address is known and all lie in 172.16.0.0/12.\<close>

lemma wslNAT_all:
  "wslNAT ifaces \<longleftrightarrow>
     (\<exists>ifi \<in> set ifaces. ip4 ifi \<noteq> None)
     \<and> (\<forall>ifi \<in> set ifaces. \<forall>a. ip4 ifi = Some a \<longrightarrow> net_Contains wsl_net wsl_mask a)"
proof -
  have "wslNAT_loop seen ifaces \<longleftrightarrow> (seen \<or> (\<exists>ifi \<in> set ifaces. ip4 ifi \<noteq> None))
      \<and> (\<forall>ifi \<in> set ifaces. \<forall>a. ip4 ifi = Some a \<longrightarrow> net_Contains wsl_net wsl_mask a)" for seen
    by (induction seen ifaces rule: wslNAT_loop.induct) (auto split: option.splits)
  then show ?thesis by (simp add: wslNAT_def)
qed

end
