(* ===== verification/Mdns.thy ===== *)
theory Mdns
  imports Interfaces Limiter Rand
begin

text \<open>
  \<^verbatim>\<open>mdns.go\<close>: the table of peers, the records a machine announces and learns, and the
  responder. The DNS message codec is a package outside the repository, the parameter \<open>dnslib\<close>;
  packets are opaque to the model otherwise. Goroutines and timers appear as calls with their clock
  reading; \<open>answer_step\<close> is the life of the delayed answer.
\<close>

section \<open>Constants\<close>

definition mdnsService :: string where "mdnsService = ''_tp._tcp.local.''"
definition mdnsPort :: nat where [go_const]: "mdnsPort = 5353"
definition announceInterval :: duration where [go_const]: "announceInterval = 10 * Minute"
definition peerLifetime :: duration where [go_const]: "peerLifetime = 25 * Minute"
definition mdnsTTL :: nat where [go_const]: "mdnsTTL = nat (peerLifetime div Second)"
definition browseWhenEmpty :: duration where [go_const]: "browseWhenEmpty = Minute"
definition answerDelayFloor :: duration where [go_const]: "answerDelayFloor = 20 * Millisecond"
definition answerDelayCeiling :: duration where [go_const]: "answerDelayCeiling = 120 * Millisecond"
definition answerMinGap :: duration where [go_const]: "answerMinGap = Second"
definition legacyBurst :: int where [go_const]: "legacyBurst = 5"
definition legacyPerSecond :: int where [go_const]: "legacyPerSecond = 5"
definition quietPeriod :: duration where [go_const]: "quietPeriod = 15 * Second"
definition startupBurst :: "duration list" where "startupBurst = [0, Second, 3 * Second]"
definition classINET :: nat where [go_const]: "classINET = 1"
definition classFlush :: nat where [go_const]: "classFlush = classINET + 0x8000"
definition txtVersion :: string where "txtVersion = ''1''"

section \<open>The table of peers\<close>

record peer =
  pe_HostID :: string
  pe_Hostname :: string
  pe_Addr :: string
  pe_LastSeen :: gotime

record peerTable =
  pt_m :: "(string, peer) gomap"
  pt_packets :: int
  pt_anyPackets :: int
  pt_started :: gotime

definition newPeerTable :: "gotime \<Rightarrow> peerTable" where
  "newPeerTable now = \<lparr>pt_m = [], pt_packets = 0, pt_anyPackets = 0, pt_started = now\<rparr>"

definition peers_put :: "peer \<Rightarrow> peerTable \<Rightarrow> peerTable" where
  "peers_put p t = t\<lparr>pt_m := mput (pe_HostID p) p (pt_m t)\<rparr>"

definition peers_drop :: "string \<Rightarrow> peerTable \<Rightarrow> peerTable" where
  "peers_drop hid t = t\<lparr>pt_m := mdel hid (pt_m t)\<rparr>"

definition peers_clear :: "peerTable \<Rightarrow> peerTable" where
  "peers_clear t = t\<lparr>pt_m := []\<rparr>"

definition peers_list :: "(string \<times> peer) list \<Rightarrow> peer list" where
  "peers_list ord = map (\<lambda>(k, p). p) ord"

definition peer_gone :: "gotime \<Rightarrow> peer \<Rightarrow> bool" where
  "peer_gone now p \<longleftrightarrow> time_Sub now (pe_LastSeen p) > peerLifetime"

definition sweep_peers :: "gotime \<Rightarrow> (string \<times> peer) list \<Rightarrow> (string, peer) gomap \<Rightarrow> (string, peer) gomap" where
  "sweep_peers now ord m = range_delete (\<lambda>_ p. peer_gone now p) ord m"

definition peers_sweep :: "gotime \<Rightarrow> (string \<times> peer) list \<Rightarrow> peerTable \<Rightarrow> peerTable" where
  "peers_sweep now ord t = t\<lparr>pt_m := sweep_peers now ord (pt_m t)\<rparr>"

interpretation peer_sweep: expiring sweep_peers peer_gone
proof unfold_locales
  show "sweep_peers now ord m = filter (\<lambda>(k, v). \<not> peer_gone now v) m"
    if "mwf m" "visits ord m" for m ord now
    using that by (simp add: sweep_peers_def range_delete_visits)
  show "peer_gone t' v" if "peer_gone t v" "t \<le> t'" for t t' v
    using that time_Sub_mono [of t t' "pe_LastSeen v"] by (auto simp: peer_gone_def)
qed

text \<open>The empty string, the advice for the platform, or the general message.\<close>

datatype diagnosis = NoDiagnosis | NoMulticast advice

definition peers_diagnostic :: "gotime \<Rightarrow> advice \<Rightarrow> peerTable \<Rightarrow> diagnosis" where
  "peers_diagnostic now adv t =
     (if time_Sub now (pt_started t) < quietPeriod \<or> pt_anyPackets t > 0 then NoDiagnosis
      else NoMulticast adv)"

section \<open>Messages\<close>

datatype rr_body = SRV "16 word" string | TXT "string list" | A bytes | PTR string | OtherBody

record rr =
  rr_Name :: string
  rr_Class :: nat
  rr_TTL :: nat
  rr_Body :: rr_body

text \<open>
  A parsed packet: the response bit, the names of the questions up to the first error, whether the
  questions can be skipped, and the three sections, each as far as it parses.
\<close>

record packet =
  pk_Response :: bool
  pk_Questions :: "string list"
  pk_SkipOK :: bool
  pk_Sections :: "rr list result list"

record dnslib =
  dns_PackRecords :: "rr list \<Rightarrow> bytes option"
  dns_PackQuery :: "string \<Rightarrow> bytes option"
  dns_Parse :: "bytes \<Rightarrow> packet option"

text \<open>What the codec promises: it parses what it packed.\<close>

definition dns_ok :: "dnslib \<Rightarrow> bool" where
  "dns_ok L \<longleftrightarrow>
     (\<forall>rrs b. dns_PackRecords L rrs = Some b \<longrightarrow>
        dns_Parse L b = Some \<lparr>pk_Response = True, pk_Questions = [], pk_SkipOK = True,
          pk_Sections = [Inr rrs, Inr [], Inr []]\<rparr>)
     \<and> (\<forall>q b. dns_PackQuery L q = Some b \<longrightarrow>
        dns_Parse L b = Some \<lparr>pk_Response = False, pk_Questions = [q], pk_SkipOK = True,
          pk_Sections = [Inr [], Inr [], Inr []]\<rparr>)"

section \<open>The responder\<close>

text \<open>
  The multicast socket, as far as it answers: whether joining the group and selecting an interface
  for sending succeed, by the interface's name. A packet is sent to the group on one interface, or
  to a port of one host.
\<close>

record socket =
  sk_join :: "string \<Rightarrow> bool"
  sk_select :: "string \<Rightarrow> bool"

datatype sent = Multicast string bytes | Unicast nat bytes

record responder =
  rs_hostID :: string
  rs_port :: nat
  rs_instance :: string
  rs_target :: string
  rs_hostname :: string
  rs_joined :: "string list"
  rs_pending :: bool
  rs_lastAnswer :: gotime
  rs_legacy :: bucket
  rs_sent :: "sent list"

definition strings_TrimSuffix :: "string \<Rightarrow> string \<Rightarrow> string" where
  "strings_TrimSuffix s suf = (if suffix suf s then take (length s - length suf) s else s)"

definition newResponder :: "string \<Rightarrow> nat \<Rightarrow> string \<Rightarrow> responder" where
  "newResponder hid port name =
     \<lparr>rs_hostID = hid, rs_port = port, rs_instance = hid @ ''.'' @ mdnsService,
      rs_target = hid @ ''.local.'', rs_hostname = strings_TrimSuffix name ''.local'',
      rs_joined = [], rs_pending = False, rs_lastAnswer = 0, rs_legacy = zero_bucket, rs_sent = []\<rparr>"

text \<open>Joining a group fails for the interfaces outside \<open>can_join\<close>.\<close>

fun join_loop :: "(string \<Rightarrow> bool) \<Rightarrow> iface list \<Rightarrow> string list \<Rightarrow> string list \<Rightarrow> string list \<times> string list" where
  "join_loop can_join [] seen joined = (seen, joined)"
| "join_loop can_join (ifi # ifaces) seen joined =
     (let seen = List.insert (if_Name ifi) seen
      in if if_Name ifi \<in> set joined then join_loop can_join ifaces seen joined
         else if \<not> can_join (if_Name ifi) then join_loop can_join ifaces seen joined
         else join_loop can_join ifaces seen (joined @ [if_Name ifi]))"

definition syncGroups :: "(string \<Rightarrow> bool) \<Rightarrow> netFilter \<Rightarrow> responder \<Rightarrow> go_error option \<times> responder" where
  "syncGroups can_join f r =
     (case join_loop can_join (nf_ifaces f) [] (rs_joined r) of
        (seen, joined) \<Rightarrow>
          let joined = filter (\<lambda>n. n \<in> set seen) joined
          in (if length joined = 0 then Some errNoInterface else None, r\<lparr>rs_joined := joined\<rparr>))"

text \<open>\<^verbatim>\<open>send\<close> and \<^verbatim>\<open>sendTo\<close> ignore a nil buffer; what they transmit is recorded.
  \<^verbatim>\<open>send\<close> goes through the interfaces and skips those the socket cannot select.\<close>

fun send_loop :: "socket \<Rightarrow> bytes \<Rightarrow> iface list \<Rightarrow> sent list \<Rightarrow> sent list" where
  "send_loop sk b [] out = out"
| "send_loop sk b (ifi # ifaces) out =
     (if \<not> sk_select sk (if_Name ifi) then send_loop sk b ifaces out
      else send_loop sk b ifaces (out @ [Multicast (if_Name ifi) b]))"

definition mdns_send :: "socket \<Rightarrow> netFilter \<Rightarrow> bytes option \<Rightarrow> responder \<Rightarrow> responder" where
  "mdns_send sk f buf r =
     (case buf of None \<Rightarrow> r | Some b \<Rightarrow> r\<lparr>rs_sent := send_loop sk b (nf_ifaces f) (rs_sent r)\<rparr>)"

lemma send_loop_sent:
  "send_loop sk b ifaces out =
     out @ map (\<lambda>ifi. Multicast (if_Name ifi) b) (filter (\<lambda>ifi. sk_select sk (if_Name ifi)) ifaces)"
  by (induction ifaces arbitrary: out) auto

definition mdns_sendTo :: "bytes option \<Rightarrow> nat \<Rightarrow> responder \<Rightarrow> responder" where
  "mdns_sendTo buf port r =
     (case buf of None \<Rightarrow> r | Some b \<Rightarrow> r\<lparr>rs_sent := rs_sent r @ [Unicast port b]\<rparr>)"

definition address_records :: "responder \<Rightarrow> nat \<Rightarrow> iface list \<Rightarrow> rr list" where
  "address_records r ttl ifaces =
     concat (map (\<lambda>ifi. case ip4 ifi of
          None \<Rightarrow> []
        | Some ip \<Rightarrow> [\<lparr>rr_Name = rs_target r, rr_Class = classFlush, rr_TTL = ttl, rr_Body = A ip\<rparr>]) ifaces)"

definition answer_records :: "responder \<Rightarrow> nat \<Rightarrow> iface list \<Rightarrow> rr list" where
  "answer_records r ttl ifaces =
     [\<lparr>rr_Name = mdnsService, rr_Class = classINET, rr_TTL = ttl, rr_Body = PTR (rs_instance r)\<rparr>,
      \<lparr>rr_Name = rs_instance r, rr_Class = classFlush, rr_TTL = ttl,
       rr_Body = SRV (word_of_nat (rs_port r)) (rs_target r)\<rparr>,
      \<lparr>rr_Name = rs_instance r, rr_Class = classFlush, rr_TTL = ttl,
       rr_Body = TXT [''v='' @ txtVersion, ''host='' @ rs_hostname r]\<rparr>]
     @ address_records r ttl ifaces"

definition buildRecords :: "dnslib \<Rightarrow> responder \<Rightarrow> nat \<Rightarrow> iface list \<Rightarrow> bytes option" where
  "buildRecords L r ttl ifaces = dns_PackRecords L (answer_records r ttl ifaces)"

definition mdns_query :: "dnslib \<Rightarrow> socket \<Rightarrow> netFilter \<Rightarrow> responder \<Rightarrow> responder" where
  "mdns_query L sk f r = mdns_send sk f (dns_PackQuery L mdnsService) r"

definition announce :: "dnslib \<Rightarrow> socket \<Rightarrow> netFilter \<Rightarrow> responder \<Rightarrow> responder" where
  "announce L sk f r = mdns_send sk f (buildRecords L r mdnsTTL (nf_ifaces f)) r"

definition networkChanged :: "dnslib \<Rightarrow> socket \<Rightarrow> netFilter \<Rightarrow> responder \<Rightarrow> responder" where
  "networkChanged L sk f r =
     (case syncGroups (sk_join sk) f r of
        (Some e, r) \<Rightarrow> r
      | (None, r) \<Rightarrow> mdns_query L sk f (announce L sk f r))"

definition jitter :: "duration \<Rightarrow> bytes \<Rightarrow> (duration \<times> bytes) result" where
  "jitter d rs = and_then (randIndex (nat (d div 2)) rs) (\<lambda>(j, rs'). Inr (d * 3 div 4 + int j, rs'))"

section \<open>Learning\<close>

record service =
  in_port :: "16 word"
  in_target :: string
  in_hostname :: string
  in_version :: string
  in_leaving :: bool

definition zero_service :: service where
  "zero_service = \<lparr>in_port = 0, in_target = [], in_hostname = [], in_version = [], in_leaving = False\<rparr>"

definition strings_CutSuffix :: "string \<Rightarrow> string \<Rightarrow> string option" where
  "strings_CutSuffix s suf = (if suffix suf s then Some (take (length s - length suf) s) else None)"

definition strings_CutPrefix :: "string \<Rightarrow> string \<Rightarrow> string option" where
  "strings_CutPrefix s pre = (if prefix pre s then Some (drop (length pre) s) else None)"

fun readTXT :: "string list \<Rightarrow> service \<Rightarrow> service" where
  "readTXT [] e = e"
| "readTXT (kv # txt) e =
     (let e = (case strings_CutPrefix kv ''host='' of Some v \<Rightarrow> e\<lparr>in_hostname := v\<rparr> | None \<Rightarrow> e);
          e = (case strings_CutPrefix kv ''v='' of Some v \<Rightarrow> e\<lparr>in_version := v\<rparr> | None \<Rightarrow> e)
      in readTXT txt e)"

text \<open>The entry of a name, made when it is new; None for the records of other services.\<close>

definition instance_entry :: "string \<Rightarrow> (string, service) gomap \<Rightarrow> (string \<times> service) option" where
  "instance_entry name found =
     (case strings_CutSuffix name (''.'' @ mdnsService) of
        None \<Rightarrow> None
      | Some i \<Rightarrow>
          if i = [] then None
          else Some (i, case mget found i of Some e \<Rightarrow> e | None \<Rightarrow> zero_service))"

definition collect_one ::
  "rr \<Rightarrow> (string, service) gomap \<times> (string, bytes) gomap \<Rightarrow> (string, service) gomap \<times> (string, bytes) gomap" where
  "collect_one rec = (\<lambda>(found, addrs).
     (case rr_Body rec of
        SRV port target \<Rightarrow>
          (case instance_entry (rr_Name rec) found of
             None \<Rightarrow> (found, addrs)
           | Some (i, e) \<Rightarrow>
               (mput i (e\<lparr>in_port := port, in_target := target, in_leaving := (rr_TTL rec = 0)\<rparr>) found, addrs))
      | TXT txt \<Rightarrow>
          (case instance_entry (rr_Name rec) found of
             None \<Rightarrow> (found, addrs)
           | Some (i, e) \<Rightarrow> (mput i (readTXT txt e) found, addrs))
      | A a \<Rightarrow> (found, mput (rr_Name rec) a addrs)
      | _ \<Rightarrow> (found, addrs)))"

definition collectInstances :: "rr list \<Rightarrow> (string, service) gomap \<times> (string, bytes) gomap" where
  "collectInstances rrs = fold collect_one rrs ([], [])"

fun sections_loop :: "rr list result list \<Rightarrow> rr list \<Rightarrow> rr list" where
  "sections_loop [] rrs = rrs"
| "sections_loop (Inl e # ss) rrs = rrs"
| "sections_loop (Inr got # ss) rrs = sections_loop ss (rrs @ got)"

definition learn_one ::
  "gotime \<Rightarrow> string \<Rightarrow> (string, bytes) gomap \<Rightarrow> string \<times> service \<Rightarrow> peerTable \<Rightarrow> peerTable" where
  "learn_one now own addrs = (\<lambda>(i, e) t.
     if i = own \<or> in_port e = 0 then t
     else if in_leaving e then peers_drop i t
     else if in_version e \<noteq> [] \<and> in_version e \<noteq> txtVersion then t
     else (case mget addrs (in_target e) of
        None \<Rightarrow> t
      | Some ip \<Rightarrow>
          peers_put \<lparr>pe_HostID = i, pe_Hostname = in_hostname e,
            pe_Addr = JoinHostPort (ip4_String ip) (strconv_Itoa (int (unat (in_port e)))), pe_LastSeen = now\<rparr> t))"

text \<open>The order of the loop over the instances is \<open>perm\<close>, any permutation.\<close>

definition learnPeers ::
  "gotime \<Rightarrow> string \<Rightarrow> ((string, service) gomap \<Rightarrow> (string \<times> service) list) \<Rightarrow> packet \<Rightarrow> peerTable \<Rightarrow> peerTable" where
  "learnPeers now own perm p t =
     (if \<not> pk_SkipOK p then t
      else case collectInstances (sections_loop (pk_Sections p) []) of
        (found, addrs) \<Rightarrow> fold (learn_one now own addrs) (perm found) t)"

section \<open>Answering\<close>

text \<open>The source of a packet: its port when it is a UDP address, and its text.\<close>

record source =
  so_port :: "nat option"
  so_String :: string

definition legacySource :: "source \<Rightarrow> nat option" where
  "legacySource src = (case so_port src of None \<Rightarrow> None | Some p \<Rightarrow> if p = mdnsPort then None else Some p)"

definition allowLegacy :: "gotime \<Rightarrow> responder \<Rightarrow> bool \<times> responder" where
  "allowLegacy now r =
     (case bucket_take (rs_legacy r) now (of_int legacyBurst) (of_int legacyPerSecond) of
        (ok, b) \<Rightarrow> (ok, r\<lparr>rs_legacy := b\<rparr>))"

text \<open>The delay of the timer that was started, if one was.\<close>

definition scheduleAnswer :: "gotime \<Rightarrow> bytes \<Rightarrow> responder \<Rightarrow> (duration option \<times> responder \<times> bytes) result" where
  "scheduleAnswer now rs r =
     (if rs_pending r then Inr (None, r, rs)
      else and_then (randIndex (nat (answerDelayCeiling - answerDelayFloor)) rs) (\<lambda>(j, rs').
        let wait = answerDelayFloor + int j;
            since = time_Sub now (rs_lastAnswer r);
            wait = (if since < answerMinGap then max wait (answerMinGap - since) else wait)
        in Inr (Some wait, r\<lparr>rs_pending := True\<rparr>, rs')))"

definition answerFires :: "dnslib \<Rightarrow> socket \<Rightarrow> gotime \<Rightarrow> netFilter \<Rightarrow> responder \<Rightarrow> responder" where
  "answerFires L sk now f r = announce L sk f (r\<lparr>rs_pending := False, rs_lastAnswer := now\<rparr>)"

fun answerQuestions ::
  "dnslib \<Rightarrow> gotime \<Rightarrow> netFilter \<Rightarrow> source \<Rightarrow> string list \<Rightarrow> bytes \<Rightarrow> responder
    \<Rightarrow> (duration option \<times> responder \<times> bytes) result" where
  "answerQuestions L now f src [] rs r = Inr (None, r, rs)"
| "answerQuestions L now f src (q # qs) rs r =
     (if q \<in> {mdnsService, rs_instance r, rs_target r}
      then (case legacySource src of
          Some port \<Rightarrow>
            (case allowLegacy now r of
               (ok, r) \<Rightarrow>
                 Inr (None, if ok then mdns_sendTo (buildRecords L r mdnsTTL (nf_ifaces f)) port r else r, rs))
        | None \<Rightarrow> scheduleAnswer now rs r)
      else answerQuestions L now f src qs rs r)"

definition mdns_handle ::
  "dnslib \<Rightarrow> gotime \<Rightarrow> netFilter \<Rightarrow> ((string, service) gomap \<Rightarrow> (string \<times> service) list)
    \<Rightarrow> bytes \<Rightarrow> source \<Rightarrow> bytes \<Rightarrow> responder \<Rightarrow> peerTable
    \<Rightarrow> (duration option \<times> responder \<times> peerTable \<times> bytes) result" where
  "mdns_handle L now f perm pkt src rs r t =
     (case dns_Parse L pkt of
        None \<Rightarrow> Inr (None, r, t, rs)
      | Some p \<Rightarrow>
          if pk_Response p then Inr (None, r, learnPeers now (rs_hostID r) perm p t, rs)
          else and_then (answerQuestions L now f src (pk_Questions p) rs r)
                 (\<lambda>(w, r, rs). Inr (w, r, t, rs)))"

definition mdns_isOwn :: "source \<Rightarrow> netFilter \<Rightarrow> bool" where
  "mdns_isOwn src f = (case SplitHostPort (so_String src) of None \<Rightarrow> False | Some (host, _) \<Rightarrow> isOwnAddr host f)"

text \<open>One packet of the read loop.\<close>

definition readPacket ::
  "dnslib \<Rightarrow> gotime \<Rightarrow> netFilter \<Rightarrow> ((string, service) gomap \<Rightarrow> (string \<times> service) list)
    \<Rightarrow> bytes \<Rightarrow> source \<Rightarrow> bytes \<Rightarrow> responder \<Rightarrow> peerTable
    \<Rightarrow> (duration option \<times> responder \<times> peerTable \<times> bytes) result" where
  "readPacket L now f perm pkt src rs r t =
     (let t = t\<lparr>pt_anyPackets := pt_anyPackets t + 1\<rparr>;
          t = (if mdns_isOwn src f then t else t\<lparr>pt_packets := pt_packets t + 1\<rparr>)
      in mdns_handle L now f perm pkt src rs r t)"

section \<open>What is announced is learned\<close>

lemma CutSuffix_append: "strings_CutSuffix (a @ b) b = Some a"
  by (simp add: strings_CutSuffix_def suffix_def)

text \<open>The service of an announcement, as the receiver collects it.\<close>

definition announced :: "responder \<Rightarrow> nat \<Rightarrow> service" where
  "announced r ttl =
     \<lparr>in_port = word_of_nat (rs_port r), in_target = rs_target r, in_hostname = rs_hostname r,
      in_version = txtVersion, in_leaving = (ttl = 0)\<rparr>"

definition iface_addrs :: "iface list \<Rightarrow> bytes list" where
  "iface_addrs ifaces = List.map_filter ip4 ifaces"

lemma fold_addresses:
  "fold collect_one (address_records r ttl ifaces) (found, addrs)
     = (found, fold (\<lambda>a m. mput (rs_target r) a m) (iface_addrs ifaces) addrs)"
  by (induction ifaces arbitrary: addrs)
    (auto simp: address_records_def iface_addrs_def map_filter_simps collect_one_def split: option.splits)

lemma fold_mput_last:
  "xs \<noteq> [] \<Longrightarrow> mget (fold (\<lambda>a m. mput k a m) xs m) k = Some (last xs)"
  by (induction xs arbitrary: m) auto

lemma announced_txt:
  "readTXT [''v='' @ txtVersion, ''host='' @ h] e = e\<lparr>in_version := txtVersion, in_hostname := h\<rparr>"
  by (simp add: strings_CutPrefix_def txtVersion_def)

lemma collect_announcement:
  assumes "rs_instance r = rs_hostID r @ ''.'' @ mdnsService" and "rs_hostID r \<noteq> []"
  shows "collectInstances (answer_records r ttl ifaces)
    = ([(rs_hostID r, announced r ttl)],
       fold (\<lambda>a m. mput (rs_target r) a m) (iface_addrs ifaces) [])"
proof -
  have e: "instance_entry (rs_instance r) m
      = Some (rs_hostID r, case mget m (rs_hostID r) of Some e \<Rightarrow> e | None \<Rightarrow> zero_service)" for m
    using assms CutSuffix_append [of "rs_hostID r" "''.'' @ mdnsService"] by (simp add: instance_entry_def)
  have one: "mput (rs_hostID r) y [(rs_hostID r, x)] = [(rs_hostID r, y)]" "mput (rs_hostID r) x [] = [(rs_hostID r, x)]"
    for x y by (simp_all add: mput_def)
  have g: "mget [(rs_hostID r, x)] (rs_hostID r) = Some x" for x by (simp add: mget_def)
  show ?thesis
    unfolding collectInstances_def answer_records_def fold_append
    by (simp add: collect_one_def e one g announced_txt [unfolded append_Cons append_Nil] fold_addresses
      del: readTXT.simps)
      (simp add: zero_service_def announced_def)
qed

definition learned_peer :: "gotime \<Rightarrow> responder \<Rightarrow> bytes \<Rightarrow> peer" where
  "learned_peer now r a =
     \<lparr>pe_HostID = rs_hostID r, pe_Hostname = rs_hostname r,
      pe_Addr = JoinHostPort (ip4_String a) (nat_digits (rs_port r)), pe_LastSeen = now\<rparr>"

lemma learn_announcement:
  assumes "0 < rs_port r" and "rs_port r < 65536" and "iface_addrs ifaces \<noteq> []"
  shows "learn_one now own (fold (\<lambda>a m. mput (rs_target r) a m) (iface_addrs ifaces) []) (rs_hostID r, announced r ttl) t
    = (if rs_hostID r = own then t else if ttl = 0 then peers_drop (rs_hostID r) t
       else peers_put (learned_peer now r (last (iface_addrs ifaces))) t)"
proof -
  have u: "unat (word_of_nat (rs_port r) :: 16 word) = rs_port r"
    using assms(2) by (simp add: unsigned_of_nat take_bit_nat_eq_self)
  then have "(word_of_nat (rs_port r) :: 16 word) \<noteq> 0" using assms(1) by (metis unsigned_0 not_less0)
  then show ?thesis
    using fold_mput_last [OF assms(3), of "rs_target r" "[]"]
    by (simp add: learn_one_def announced_def learned_peer_def strconv_Itoa_def u)
qed

text \<open>C24: What a machine announces, others learn. If the packet a responder builds for its
  interfaces reaches another machine, that machine's table afterwards maps the sender's host ID to
  its host name and to the address at which the last of the announced interfaces and the announced
  port can be dialled (they come back from \<^verbatim>\<open>SplitHostPort\<close>); a goodbye, which is the
  same packet with a TTL of zero, removes the entry; the machine's own packets change nothing.\<close>

theorem announcement_learned:
  assumes "dns_ok L" and "buildRecords L r ttl (nf_ifaces f) = Some pkt"
    and "rs_instance r = rs_hostID r @ ''.'' @ mdnsService" and "rs_hostID r \<noteq> []"
    and "0 < rs_port r" and "rs_port r < 65536" and "iface_addrs (nf_ifaces f) \<noteq> []"
    and "\<And>m. visits (perm m) m"
  shows "mdns_handle L now f' perm pkt src rs r' t =
      Inr (None, r',
        if rs_hostID r = rs_hostID r' then t
        else if ttl = 0 then peers_drop (rs_hostID r) t
        else peers_put (learned_peer now r (last (iface_addrs (nf_ifaces f)))) t, rs)
    \<and> SplitHostPort (pe_Addr (learned_peer now r (last (iface_addrs (nf_ifaces f)))))
        = Some (ip4_String (last (iface_addrs (nf_ifaces f))), nat_digits (rs_port r))"
proof -
  have "dns_PackRecords L (answer_records r ttl (nf_ifaces f)) = Some pkt"
    using assms(2) by (simp add: buildRecords_def)
  then have p: "dns_Parse L pkt = Some \<lparr>pk_Response = True, pk_Questions = [], pk_SkipOK = True,
      pk_Sections = [Inr (answer_records r ttl (nf_ifaces f)), Inr [], Inr []]\<rparr>"
    using assms(1) unfolding dns_ok_def by blast
  have "perm [(rs_hostID r, announced r ttl)] = [(rs_hostID r, announced r ttl)]"
    using assms(8) [of "[(rs_hostID r, announced r ttl)]"] by (simp add: visits_def)
  then show ?thesis
    using Split_Join [OF ip4_String_plain plain_digits]
    by (simp add: mdns_handle_def p learnPeers_def collect_announcement [OF assms(3,4)]
        learn_announcement [OF assms(5-7)] learned_peer_def)
qed

definition demo_responder :: responder where
  "demo_responder = newResponder ''H'' 7391 ''box.local''"

definition demo_socket :: socket where
  "demo_socket = \<lparr>sk_join = (\<lambda>n. True), sk_select = (\<lambda>n. True)\<rparr>"

definition demo_filter :: netFilter where
  "demo_filter = \<lparr>nf_ifaces = [demo_iface], nf_addrs = []\<rparr>"

definition demo_dns :: "nat \<Rightarrow> dnslib" where
  "demo_dns ttl =
     (let R = answer_records demo_responder ttl [demo_iface]
      in \<lparr>dns_PackRecords = (\<lambda>rrs. if rrs = R then Some [1] else None), dns_PackQuery = (\<lambda>q. None),
          dns_Parse = (\<lambda>b. if b = [1] then Some \<lparr>pk_Response = True, pk_Questions = [], pk_SkipOK = True,
             pk_Sections = [Inr R, Inr [], Inr []]\<rparr> else None)\<rparr>)"

lemma demo_dns_ok: "dns_ok (demo_dns ttl)"
  by (simp add: dns_ok_def demo_dns_def Let_def split: if_splits)

theorem announcement_learned_witness:
  "\<exists>pkt t. buildRecords (demo_dns mdnsTTL) demo_responder mdnsTTL [demo_iface] = Some pkt
     \<and> mdns_handle (demo_dns mdnsTTL) 9 demo_filter (\<lambda>m. m) pkt \<lparr>so_port = None, so_String = []\<rparr> []
         (newResponder ''X'' 7391 ''other'') (newPeerTable 1) = Inr (None, newResponder ''X'' 7391 ''other'', t, [])
     \<and> mget (pt_m t) ''H'' = Some (learned_peer 9 demo_responder [10, 0, 0, 1])"
proof -
  have r: "rs_instance demo_responder = rs_hostID demo_responder @ ''.'' @ mdnsService"
    "rs_hostID demo_responder = ''H''" "rs_port demo_responder = 7391"
    by (simp_all add: demo_responder_def newResponder_def)
  have b: "buildRecords (demo_dns mdnsTTL) demo_responder mdnsTTL (nf_ifaces demo_filter) = Some [1]"
    by (simp add: buildRecords_def demo_dns_def Let_def demo_filter_def)
  have a: "iface_addrs (nf_ifaces demo_filter) = [[10, 0, 0, 1]]"
    by (simp add: iface_addrs_def demo_filter_def map_filter_simps demo_ip4)
  have x: "rs_hostID (newResponder ''X'' 7391 ''other'') = ''X''" by (simp add: newResponder_def)
  have v: "\<And>m. visits ((\<lambda>m. m) m) m" by (simp add: visits_def)
  show ?thesis
    using announcement_learned [OF demo_dns_ok b r(1) _ _ _ _ v, where now = 9 and f' = demo_filter
        and r' = "newResponder ''X'' 7391 ''other''" and rs = "[]" and t = "newPeerTable 1"
        and src = "\<lparr>so_port = None, so_String = []\<rparr>"] b
    by (simp add: r x a [unfolded demo_filter_def netFilter.simps] demo_filter_def mdnsTTL_def peerLifetime_def go_const peers_put_def learned_peer_def)
qed

section \<open>The table of peers stays in order\<close>

definition table_ok :: "string \<Rightarrow> peerTable \<Rightarrow> bool" where
  "table_ok own t \<longleftrightarrow>
     mwf (pt_m t) \<and> (\<forall>(k, p) \<in> set (pt_m t). pe_HostID p = k \<and> k \<noteq> own)"

lemma table_ok_new: "table_ok own (newPeerTable now)"
  by (simp add: table_ok_def newPeerTable_def)

lemma table_ok_put: "table_ok own t \<Longrightarrow> pe_HostID p \<noteq> own \<Longrightarrow> table_ok own (peers_put p t)"
  by (auto simp: table_ok_def peers_put_def dest: mem_mput)

lemma table_ok_drop: "table_ok own t \<Longrightarrow> table_ok own (peers_drop i t)"
  by (auto simp: table_ok_def peers_drop_def set_mdel)

lemma table_ok_clear: "table_ok own (peers_clear t)"
  by (simp add: table_ok_def peers_clear_def)

lemma table_ok_sweep: "table_ok own t \<Longrightarrow> visits ord (pt_m t) \<Longrightarrow> table_ok own (peers_sweep now ord t)"
  by (auto simp: table_ok_def peers_sweep_def peer_sweep.sweep_filter mwf_filter)

lemma learn_one_ok: "table_ok own t \<Longrightarrow> table_ok own (learn_one now own addrs e t)"
  by (cases e) (auto simp: learn_one_def intro: table_ok_put table_ok_drop split: option.splits)

lemma learnPeers_ok: "table_ok own t \<Longrightarrow> table_ok own (learnPeers now own perm p t)"
proof -
  have "table_ok own t \<Longrightarrow> table_ok own (fold (learn_one now own addrs) es t)" for addrs es
    by (induction es arbitrary: t) (auto simp: learn_one_ok)
  then show "table_ok own t \<Longrightarrow> table_ok own (learnPeers now own perm p t)"
    by (auto simp: learnPeers_def split: prod.splits)
qed

lemma readPacket_table:
  assumes "readPacket L now f perm pkt src rs r t = Inr (w, r', t', rs')" and "table_ok (rs_hostID r) t"
  shows "table_ok (rs_hostID r) t'"
proof -
  have c: "table_ok own (t\<lparr>pt_anyPackets := a\<rparr>) = table_ok own t"
    "table_ok own (t\<lparr>pt_anyPackets := a, pt_packets := b\<rparr>) = table_ok own t" for own a b
    by (simp_all add: table_ok_def)
  show ?thesis
    using assms learnPeers_ok [of "rs_hostID r"]
    by (auto simp: readPacket_def mdns_handle_def Let_def c and_then_Inr_iff split: option.splits if_splits)
qed

section \<open>The delayed answer\<close>

text \<open>
  The life of the answer: packets arrive and schedule it, its timer fires at its time or later. The
  state is the responder, the time of the pending timer, the clock, and the instants of the answers
  sent, the latest first.
\<close>

inductive answer_step ::
  "dnslib \<Rightarrow> responder \<times> gotime option \<times> gotime \<times> gotime list
    \<Rightarrow> responder \<times> gotime option \<times> gotime \<times> gotime list \<Rightarrow> bool" for L where
  answer_packet: "t \<le> now \<Longrightarrow> readPacket L now f perm pkt src rs r pt = Inr (w, r', pt', rs') \<Longrightarrow>
    answer_step L (r, due, t, ans) (r', case w of None \<Rightarrow> due | Some d \<Rightarrow> Some (now + d), now, ans)"
| answer_fires: "d \<le> now \<Longrightarrow> t \<le> now \<Longrightarrow>
    answer_step L (r, Some d, t, ans) (answerFires L sk now f r, None, now, now # ans)"

inductive answer_reach :: "dnslib \<Rightarrow> responder \<times> gotime option \<times> gotime \<times> gotime list \<Rightarrow> bool" for L where
  answer_start: "0 < t \<Longrightarrow> answer_reach L (newResponder hid port name, None, t, [])"
| answer_next: "answer_reach L s \<Longrightarrow> answer_step L s s' \<Longrightarrow> answer_reach L s'"

definition answers_ok :: "responder \<times> gotime option \<times> gotime \<times> gotime list \<Rightarrow> bool" where
  "answers_ok = (\<lambda>(r, due, t, ans).
     0 < t \<and> (rs_pending r \<longleftrightarrow> due \<noteq> None) \<and> rs_lastAnswer r = (case ans of [] \<Rightarrow> 0 | a # _ \<Rightarrow> a)
     \<and> (\<forall>a \<in> set ans. 0 < a \<and> a \<le> t)
     \<and> (\<forall>d. due = Some d \<longrightarrow> ans \<noteq> [] \<longrightarrow> hd ans + answerMinGap \<le> d)
     \<and> successively (\<lambda>b a. a + answerMinGap \<le> b) ans)"

lemma scheduleAnswer_cases:
  assumes "scheduleAnswer now rs r = Inr (w, r', rs')"
  shows "(rs_pending r \<and> w = None \<and> r' = r)
    \<or> (\<not> rs_pending r \<and> r' = r\<lparr>rs_pending := True\<rparr> \<and> (\<exists>d. w = Some d \<and> answerDelayFloor \<le> d
         \<and> d \<le> max (answerDelayCeiling - 1) (answerMinGap - time_Sub now (rs_lastAnswer r))
         \<and> answerMinGap - time_Sub now (rs_lastAnswer r) \<le> d))"
proof (cases "rs_pending r")
  case True
  then show ?thesis using assms by (simp add: scheduleAnswer_def)
next
  case False
  then obtain j where j: "randIndex (nat (answerDelayCeiling - answerDelayFloor)) rs = Inr (j, rs')"
    and eq: "(w, r') = (let wait = answerDelayFloor + int j; since = time_Sub now (rs_lastAnswer r);
            wait = (if since < answerMinGap then max wait (answerMinGap - since) else wait)
        in (Some wait, r\<lparr>rs_pending := True\<rparr>))"
    using assms by (auto simp: scheduleAnswer_def and_then_Inr_iff Let_def)
  have "j < nat (answerDelayCeiling - answerDelayFloor)" using randIndex_less [OF j] by (simp add: go_const)
  then have "answerDelayFloor + int j \<le> answerDelayCeiling - 1" "0 \<le> int j" by (simp_all add: go_const)
  moreover have "0 \<le> answerDelayFloor" by (simp add: go_const)
  ultimately show ?thesis using eq False by (auto simp: Let_def)
qed

text \<open>A packet changes the answer's state only as \<open>scheduleAnswer\<close> does.\<close>

lemma answerQuestions_cases:
  assumes "answerQuestions L now f src qs rs r = Inr (w, r', rs')"
  shows "(w = None \<and> rs_pending r' = rs_pending r \<and> rs_lastAnswer r' = rs_lastAnswer r)
    \<or> scheduleAnswer now rs r = Inr (w, r', rs')"
  using assms
proof (induction L now f src qs rs r rule: answerQuestions.induct)
  case (2 L now f src q qs rs r)
  show ?case
  proof (cases "q \<in> {mdnsService, rs_instance r, rs_target r}")
    case True
    show ?thesis
    proof (cases "legacySource src")
      case None
      then show ?thesis using "2.prems" True by auto
    next
      case (Some port)
      obtain ok r1 where a: "allowLegacy now r = (ok, r1)" by (cases "allowLegacy now r")
      then have "rs_pending r1 = rs_pending r" "rs_lastAnswer r1 = rs_lastAnswer r"
        by (auto simp: allowLegacy_def split: prod.splits)
      then show ?thesis
        using "2.prems" True Some a by (auto simp: mdns_sendTo_def split: if_splits option.splits)
    qed
  next
    case False
    then have "answerQuestions L now f src qs rs r = Inr (w, r', rs')"
      using "2.prems" by (simp only: answerQuestions.simps if_False)
    then show ?thesis using "2.IH" False by blast
  qed
qed simp

lemma readPacket_cases:
  assumes "readPacket L now f perm pkt src rs r pt = Inr (w, r', pt', rs')"
  shows "(w = None \<and> rs_pending r' = rs_pending r \<and> rs_lastAnswer r' = rs_lastAnswer r)
    \<or> scheduleAnswer now rs r = Inr (w, r', rs')"
  using assms answerQuestions_cases [of L now f src _ rs r w r' rs']
  by (fastforce simp: readPacket_def mdns_handle_def Let_def and_then_Inr_iff split: option.splits if_splits)

lemma answers_ok_step:
  assumes "answer_step L s s'" and "answers_ok s"
  shows "answers_ok s'"
  using assms(1)
proof (cases rule: answer_step.cases)
  case (answer_packet t now f perm pkt src rs r pt w r' pt' rs' due ans)
  have ok: "answers_ok (r, due, t, ans)" using assms(2) answer_packet(1) by simp
  from readPacket_cases [OF answer_packet(4)] show ?thesis
  proof (elim disjE)
    assume "w = None \<and> rs_pending r' = rs_pending r \<and> rs_lastAnswer r' = rs_lastAnswer r"
    then show ?thesis using ok answer_packet(2,3) by (auto simp: answers_ok_def)
  next
    assume s: "scheduleAnswer now rs r = Inr (w, r', rs')"
    from scheduleAnswer_cases [OF s] show ?thesis
    proof (elim disjE conjE exE)
      assume "rs_pending r" "w = None" "r' = r"
      then show ?thesis using ok answer_packet(2,3) by (auto simp: answers_ok_def)
    next
      fix d assume r: "\<not> rs_pending r" "r' = r\<lparr>rs_pending := True\<rparr>" and d: "w = Some d"
        and gap: "answerMinGap - time_Sub now (rs_lastAnswer r) \<le> d"
      have "hd ans + answerMinGap \<le> now + d" if "ans \<noteq> []"
      proof -
        have l: "rs_lastAnswer r = hd ans" "hd ans \<le> now"
          using ok that answer_packet(3) hd_in_set [OF that] by (auto simp: answers_ok_def split: list.splits)
        then have "time_Sub now (rs_lastAnswer r) \<le> now - hd ans" by (simp add: time_Sub_le)
        then show ?thesis using gap by simp
      qed
      then show ?thesis using ok answer_packet(2,3) r d by (auto simp: answers_ok_def)
    qed
  qed
next
  case (answer_fires d now t r ans sk f)
  have "rs_pending (answerFires L sk now f r) = False" "rs_lastAnswer (answerFires L sk now f r) = now"
    by (auto simp: answerFires_def announce_def mdns_send_def split: option.splits)
  then show ?thesis
    using assms(2) answer_fires by (cases ans) (auto simp: answers_ok_def successively_Cons)
qed

lemma answers_ok_reach: "answer_reach L s \<Longrightarrow> answers_ok s"
proof (induction rule: answer_reach.induct)
  case (answer_start t hid port name)
  then show ?case by (simp add: answers_ok_def newResponder_def)
qed (rule answers_ok_step)

text \<open>C25: Answers are coalesced and spaced. In every run of the responder an answer is pending
  exactly while its timer runs, two consecutive answers are at least a second apart, and a packet
  that starts a timer starts it for at least 20 ms and at most a second.\<close>

theorem answers_spaced:
  assumes "answer_reach L (r, due, t, ans)"
  shows "successively (\<lambda>b a. a + answerMinGap \<le> b) ans \<and> (rs_pending r \<longleftrightarrow> due \<noteq> None)
    \<and> (\<forall>now f perm pkt src rs pt d r' pt' rs'. t \<le> now \<and>
         readPacket L now f perm pkt src rs r pt = Inr (Some d, r', pt', rs') \<longrightarrow>
         due = None \<and> answerDelayFloor \<le> d \<and> d \<le> answerMinGap)"
proof -
  have ok: "answers_ok (r, due, t, ans)" by (rule answers_ok_reach [OF assms])
  have "due = None \<and> answerDelayFloor \<le> d \<and> d \<le> answerMinGap"
    if now: "t \<le> now" and rd: "readPacket L now f perm pkt src rs r pt = Inr (Some d, r', pt', rs')"
    for now f perm pkt src rs pt d r' pt' rs'
  proof -
    have s: "scheduleAnswer now rs r = Inr (Some d, r', rs')" using readPacket_cases [OF rd] by simp
    have "rs_lastAnswer r \<le> now" using ok now by (auto simp: answers_ok_def split: list.splits)
    then have "0 \<le> time_Sub now (rs_lastAnswer r)" by (rule time_Sub_nonneg)
    then show ?thesis
      using scheduleAnswer_cases [OF s] ok by (auto simp: answers_ok_def go_const)
  qed
  moreover have "successively (\<lambda>b a. a + answerMinGap \<le> b) ans \<and> (rs_pending r \<longleftrightarrow> due \<noteq> None)"
    using ok by (simp add: answers_ok_def)
  ultimately show ?thesis by blast
qed

definition query_dns :: dnslib where
  "query_dns = \<lparr>dns_PackRecords = (\<lambda>rrs. None), dns_PackQuery = (\<lambda>q. None),
     dns_Parse = (\<lambda>b. Some \<lparr>pk_Response = False, pk_Questions = [mdnsService], pk_SkipOK = True, pk_Sections = []\<rparr>)\<rparr>"

lemma demo_delay: "randIndex (nat (answerDelayCeiling - answerDelayFloor)) [0, 0, 0, 0] = Inr (0, [])"
proof -
  have b: "int_bits 100000000 = 27"
    by (simp add: int_bits_def bitlen_def) (simp add: compute_floorlog)
  then have "int_bytes 100000000 = 4" "int_top 100000000 = 3" by (simp_all add: int_bytes_def int_top_def)
  then show ?thesis
    using rand_Int.simps [of 100000000 "[0, 0, 0, 0]"] b by (simp add: randIndex_def go_const be_nat_def)
qed

theorem answers_spaced_witness:
  "\<exists>r. answer_reach query_dns (r, None, 6 * Second, [6 * Second])
     \<and> successively (\<lambda>b a. a + answerMinGap \<le> b) [6 * Second]"
proof -
  let ?src = "\<lparr>so_port = Some mdnsPort, so_String = []\<rparr>"
  let ?r = "demo_responder" and ?pt = "newPeerTable 1"
  have z: "rs_pending ?r = False" "rs_lastAnswer ?r = 0" by (simp_all add: demo_responder_def newResponder_def)
  have "scheduleAnswer Second [0, 0, 0, 0] ?r = Inr (Some (20 * Millisecond), ?r\<lparr>rs_pending := True\<rparr>, [])"
    by (simp add: scheduleAnswer_def z demo_delay time_Sub_def) (simp add: go_const)
  then have "readPacket query_dns Second demo_filter (\<lambda>m. m) [] ?src [0, 0, 0, 0] ?r ?pt
      = Inr (Some (20 * Millisecond), ?r\<lparr>rs_pending := True\<rparr>,
          ?pt\<lparr>pt_anyPackets := 1, pt_packets := 1\<rparr>, [])"
    by (simp add: readPacket_def mdns_handle_def query_dns_def mdns_isOwn_def SplitHostPort_def legacySource_def newPeerTable_def
        last_index_byte_def)
  from answer_packet [OF _ this, of 1 None "[]"]
  have s1: "answer_step query_dns (?r, None, 1, []) (?r\<lparr>rs_pending := True\<rparr>, Some (Second + 20 * Millisecond), Second, [])"
    by (simp add: go_const)
  have s2: "answer_step query_dns (?r\<lparr>rs_pending := True\<rparr>, Some (Second + 20 * Millisecond), Second, [])
      (answerFires query_dns demo_socket (6 * Second) demo_filter (?r\<lparr>rs_pending := True\<rparr>), None, 6 * Second, [6 * Second])"
    by (rule answer_fires) (simp_all add: go_const)
  have s0: "answer_reach query_dns (?r, None, 1, [])"
    unfolding demo_responder_def by (rule answer_start) simp
  from answer_next [OF answer_next [OF s0 s1] s2] show ?thesis using answers_spaced by blast
qed

section \<open>Replies to legacy queries\<close>

interpretation legacy_bucket: token_bucket
  "\<lambda>now b. bucket_take b now (of_int legacyBurst) (of_int legacyPerSecond)"
  b_tokens b_last "bucket_good (of_int legacyBurst)"
  "of_int legacyBurst" "ns_rate (of_int legacyPerSecond)" "take_slack (of_int legacyBurst)"
  by (rule token_bucket_take) (simp_all add: go_const ulp_def)

definition is_unicast :: "sent \<Rightarrow> bool" where
  "is_unicast s = (case s of Unicast _ _ \<Rightarrow> True | Multicast _ _ \<Rightarrow> False)"

definition unicasts :: "responder \<Rightarrow> nat" where
  "unicasts r = length (filter is_unicast (rs_sent r))"

text \<open>
  A run of the responder: packets, with the instants at which they are handled, and between them
  whatever else it sends.
\<close>

inductive packet_run :: "dnslib \<Rightarrow> responder \<Rightarrow> gotime list \<Rightarrow> responder \<Rightarrow> bool" for L where
  run_idle: "packet_run L r [] r"
| run_packet: "readPacket L now f perm pkt src rs r pt = Inr (w, r1, pt1, rs') \<Longrightarrow> packet_run L r1 ts r2 \<Longrightarrow>
    packet_run L r (now # ts) r2"
| run_answer: "packet_run L (answerFires L sk now f r) ts r2 \<Longrightarrow> packet_run L r ts r2"
| run_announce: "packet_run L (announce L sk f r) ts r2 \<Longrightarrow> packet_run L r ts r2"
| run_query: "packet_run L (mdns_query L sk f r) ts r2 \<Longrightarrow> packet_run L r ts r2"
| run_change: "packet_run L (networkChanged L sk f r) ts r2 \<Longrightarrow> packet_run L r ts r2"

lemma send_unicasts [simp]:
  "unicasts (mdns_send sk f b r) = unicasts r" "rs_legacy (mdns_send sk f b r) = rs_legacy r"
  by (simp_all add: mdns_send_def send_loop_sent filter_map comp_def unicasts_def is_unicast_def split: option.splits)

lemma sends_unicasts [simp]:
  "unicasts (announce L sk f r) = unicasts r" "rs_legacy (announce L sk f r) = rs_legacy r"
  "unicasts (mdns_query L sk f r) = unicasts r" "rs_legacy (mdns_query L sk f r) = rs_legacy r"
  "unicasts (answerFires L sk now f r) = unicasts r" "rs_legacy (answerFires L sk now f r) = rs_legacy r"
  by (simp_all add: announce_def mdns_query_def answerFires_def) (simp_all add: unicasts_def)

lemma change_unicasts [simp]:
  "unicasts (networkChanged L sk f r) = unicasts r \<and> rs_legacy (networkChanged L sk f r) = rs_legacy r"
proof -
  obtain e r1 where s: "syncGroups (sk_join sk) f r = (e, r1)" by (cases "syncGroups (sk_join sk) f r")
  then have "unicasts r1 = unicasts r" "rs_legacy r1 = rs_legacy r"
    by (auto simp: syncGroups_def unicasts_def Let_def split: prod.splits)
  then show ?thesis by (simp add: networkChanged_def s split: option.splits)
qed

lemma questions_unicasts:
  assumes "answerQuestions L now f src qs rs r = Inr (w, r', rs')"
  shows "(unicasts r' = unicasts r \<and> rs_legacy r' = rs_legacy r)
    \<or> (case bucket_take (rs_legacy r) now (of_int legacyBurst) (of_int legacyPerSecond) of
         (g, b) \<Rightarrow> unicasts r' \<le> unicasts r + of_bool g \<and> rs_legacy r' = b)"
  using assms
proof (induction L now f src qs rs r rule: answerQuestions.induct)
  case (2 L now f src q qs rs r)
  show ?case
  proof (cases "q \<in> {mdnsService, rs_instance r, rs_target r}")
    case True
    show ?thesis
    proof (cases "legacySource src")
      case None
      then have "scheduleAnswer now rs r = Inr (w, r', rs')" using "2.prems" True by auto
      from scheduleAnswer_cases [OF this] show ?thesis by (auto simp: unicasts_def)
    next
      case (Some port)
      obtain g b where b: "bucket_take (rs_legacy r) now (of_int legacyBurst) (of_int legacyPerSecond) = (g, b)"
        by (cases "bucket_take (rs_legacy r) now (of_int legacyBurst) (of_int legacyPerSecond)")
      then have "r' = (if g then mdns_sendTo (buildRecords L (r\<lparr>rs_legacy := b\<rparr>) mdnsTTL (nf_ifaces f)) port (r\<lparr>rs_legacy := b\<rparr>)
          else r\<lparr>rs_legacy := b\<rparr>)"
        using "2.prems" True Some by (auto simp: allowLegacy_def)
      then show ?thesis using b by (auto simp: mdns_sendTo_def unicasts_def is_unicast_def split: option.splits)
    qed
  next
    case False
    then have "answerQuestions L now f src qs rs r = Inr (w, r', rs')"
      using "2.prems" by (simp only: answerQuestions.simps if_False)
    then show ?thesis by (rule "2.IH" [OF False])
  qed
qed simp

lemma packet_run_grants:
  "packet_run L r ts r' \<Longrightarrow> \<exists>us. subseq us ts \<and>
     unicasts r' \<le> unicasts r + grants (\<lambda>now b. bucket_take b now (of_int legacyBurst) (of_int legacyPerSecond)) us (rs_legacy r)"
proof (induction rule: packet_run.induct)
  case (run_packet now f perm pkt src rs r pt w r1 pt1 rs' ts r2)
  then obtain us where us: "subseq us ts"
    "unicasts r2 \<le> unicasts r1 + grants (\<lambda>now b. bucket_take b now (of_int legacyBurst) (of_int legacyPerSecond)) us (rs_legacy r1)"
    by blast
  have "r1 = r \<or> (\<exists>qs. answerQuestions L now f src qs rs r = Inr (w, r1, rs'))"
    using run_packet(1) by (fastforce simp: readPacket_def mdns_handle_def Let_def and_then_Inr_iff split: option.splits if_splits)
  then have "(unicasts r1 = unicasts r \<and> rs_legacy r1 = rs_legacy r)
    \<or> (case bucket_take (rs_legacy r) now (of_int legacyBurst) (of_int legacyPerSecond) of
         (g, b) \<Rightarrow> unicasts r1 \<le> unicasts r + of_bool g \<and> rs_legacy r1 = b)"
    by (elim disjE exE) (simp, rule questions_unicasts)
  then show ?case
  proof
    assume "unicasts r1 = unicasts r \<and> rs_legacy r1 = rs_legacy r"
    then show ?thesis using us by (auto intro: exI [of _ us])
  next
    assume "case bucket_take (rs_legacy r) now (of_int legacyBurst) (of_int legacyPerSecond) of
         (g, b) \<Rightarrow> unicasts r1 \<le> unicasts r + of_bool g \<and> rs_legacy r1 = b"
    then show ?thesis using us by (intro exI [of _ "now # us"]) (auto split: prod.splits)
  qed
qed auto

lemma subseq_sorted: "subseq us ts \<Longrightarrow> sorted ts \<Longrightarrow> sorted us \<and> set us \<subseteq> set ts"
  by (induction us ts rule: list_emb.induct) auto

lemma legacy_slack_small:
  assumes "n \<le> 2 ^ 40" and "0 \<le> d" and "d \<le> 2 ^ 70"
  shows "of_int legacyBurst + ns_rate (of_int legacyPerSecond) * of_int d + of_nat n * take_slack (of_int legacyBurst)
    \<le> 6 + of_int (legacyPerSecond * d) / 1000000000"
proof -
  have "(of_nat n :: rat) \<le> of_nat (2 ^ 40)" using assms(1) by (simp only: of_nat_le_iff)
  then have n: "(of_nat n :: rat) \<le> 2 ^ 40" by simp
  have "(of_int d :: rat) \<le> of_int (2 ^ 70)" using assms(3) by (simp only: of_int_le_iff)
  then have d: "(of_int d :: rat) \<le> 2 ^ 70" "0 \<le> (of_int d :: rat)" using assms(2) by simp_all
  have "ns_rate 5 - 5 / 1000000000 \<le> 1 / 2 ^ 75"
    by (simp add: ns_rate_def ulp_def power4_eq_xxxx)
  then have "(ns_rate 5 - 5 / 1000000000) * of_int d \<le> 1 / 2 ^ 75 * 2 ^ 70"
    using d by (intro mult_mono) auto
  also have "\<dots> \<le> (1 / 2 :: rat)" by simp
  finally have a: "ns_rate 5 * of_int d \<le> 5 / 1000000000 * of_int d + 1 / 2"
    by (simp add: algebra_simps)
  have "of_nat n * take_slack 5 \<le> 2 ^ 40 * take_slack 5"
    using n by (intro mult_right_mono) (auto simp: take_slack_def ulp_def)
  also have "\<dots> \<le> 1 / 2" by (simp add: take_slack_def ulp_def)
  finally have b: "of_nat n * take_slack 5 \<le> 1 / 2" .
  show ?thesis using a b by (simp add: go_const)
qed

text \<open>C26: The socket is of little use for reflection: whatever packets arrive and whatever else the
  responder does, the unicast replies to legacy queries, whose source may be forged, number at most
  the burst of 5 plus 5 a second, plus 1 for rounding.\<close>

theorem reflection_bounded:
  assumes "packet_run L (newResponder hid port name) ts r" and "sorted ts"
    and "\<forall>t \<in> set ts. t0 \<le> t \<and> t \<le> t1" and "0 < t0" and "t0 \<le> t1" and "t1 - t0 \<le> 2 ^ 70"
    and "length ts \<le> 2 ^ 40"
  shows "of_nat (unicasts r) \<le> (6 :: rat) + of_int (legacyPerSecond * (t1 - t0)) / 1000000000"
proof -
  let ?acq = "\<lambda>now b. bucket_take b now (of_int legacyBurst) (of_int legacyPerSecond)"
  obtain us where us: "subseq us ts" "unicasts r \<le> grants ?acq us zero_bucket"
    using packet_run_grants [OF assms(1)] by (auto simp: newResponder_def unicasts_def)
  have so: "sorted us" and sub: "set us \<subseteq> set ts" and len: "length us \<le> 2 ^ 40"
    using subseq_sorted [OF us(1) assms(2)] assms(7) list_emb_length [OF us(1)] by simp_all
  have "of_nat (unicasts r) \<le> (of_nat (grants ?acq us zero_bucket) :: rat)"
    using us(2) by (simp only: of_nat_le_iff)
  also have "\<dots> \<le> 6 + of_int (legacyPerSecond * (t1 - t0)) / 1000000000"
  proof (cases us)
    case Nil
    then show ?thesis using assms(5) by (simp add: go_const)
  next
    case (Cons t us')
    have "t \<in> set us" "last us \<in> set us" using Cons by simp_all
    then have m: "t0 \<le> t" "last us \<le> t1" using sub assms(3) by blast+
    have "t \<le> last us" using so Cons last_in_set [of us'] by (cases "us' = []") auto
    then have l: "last us - t \<le> t1 - t0" "0 \<le> last us - t" "0 < t" using m assms(4) by linarith+
    have "of_nat (grants ?acq us zero_bucket) \<le> of_int legacyBurst
        + ns_rate (of_int legacyPerSecond) * of_int (last us - t) + of_nat (Suc (length us')) * take_slack (of_int legacyBurst)"
      unfolding Cons using l(3) so [unfolded Cons]
      by (intro legacy_bucket.grants_fresh) (simp_all add: zero_bucket_def)
    also have "\<dots> \<le> 6 + of_int (legacyPerSecond * (last us - t)) / 1000000000"
      using len Cons l assms(6) by (intro legacy_slack_small) auto
    also have "\<dots> \<le> 6 + of_int (legacyPerSecond * (t1 - t0)) / 1000000000"
    proof -
      have "legacyPerSecond * (last us - t) \<le> legacyPerSecond * (t1 - t0)"
        using l by (simp add: go_const)
      then have "(of_int (legacyPerSecond * (last us - t)) :: rat) \<le> of_int (legacyPerSecond * (t1 - t0))"
        by (simp only: of_int_le_iff)
      then show ?thesis by simp
    qed
    finally show ?thesis .
  qed
  finally show ?thesis .
qed

text \<open>A codec that packs and takes every packet for a query, from a port that no responder uses.\<close>

definition reply_dns :: dnslib where
  "reply_dns = query_dns\<lparr>dns_PackRecords := \<lambda>rrs. Some [1]\<rparr>"

theorem reflection_bounded_witness:
  "\<exists>r w pt. readPacket reply_dns 1 demo_filter (\<lambda>m. m) [] \<lparr>so_port = Some 4000, so_String = []\<rparr> []
       (newResponder ''H'' 7391 ''box'') (newPeerTable 1) = Inr (w, r, pt, [])
     \<and> rs_sent r = [Unicast 4000 [1]]
     \<and> of_nat (unicasts r) \<le> (6 :: rat) + of_int (legacyPerSecond * (3 - 1)) / 1000000000"
proof -
  let ?r = "newResponder ''H'' 7391 ''box''" and ?src = "\<lparr>so_port = Some 4000, so_String = []\<rparr>"
  have "fst (bucket_take zero_bucket 1 (of_int legacyBurst) (of_int legacyPerSecond))"
    using fl_int [of 5] by (simp add: bucket_take_def zero_bucket_def Let_def time_IsZero_def time_Sub_def dur_Seconds_def go_const)
  then obtain b where tk: "bucket_take zero_bucket 1 (of_int legacyBurst) (of_int legacyPerSecond) = (True, b)"
    by (cases "bucket_take zero_bucket 1 (of_int legacyBurst) (of_int legacyPerSecond)") simp
  define r where "r = ?r\<lparr>rs_legacy := b, rs_sent := [Unicast 4000 [1]]\<rparr>"
  have src: "legacySource ?src = Some 4000" by (simp add: legacySource_def mdnsPort_def)
  have al: "allowLegacy 1 ?r = (True, ?r\<lparr>rs_legacy := b\<rparr>)" by (simp add: allowLegacy_def newResponder_def tk)
  have "answerQuestions reply_dns 1 demo_filter ?src [mdnsService] [] ?r = Inr (None, r, [])"
    using src al by (simp add: r_def mdns_sendTo_def buildRecords_def reply_dns_def newResponder_def)
  then obtain pt where rp: "readPacket reply_dns 1 demo_filter (\<lambda>m. m) [] ?src [] ?r (newPeerTable 1) = Inr (None, r, pt, [])"
    by (simp add: readPacket_def mdns_handle_def reply_dns_def query_dns_def Let_def)
  have "of_nat (unicasts r) \<le> (6 :: rat) + of_int (legacyPerSecond * (3 - 1)) / 1000000000"
    by (rule reflection_bounded [OF run_packet [OF rp run_idle]]) simp_all
  moreover have "rs_sent r = [Unicast 4000 [1]]" by (simp add: r_def)
  ultimately show ?thesis using rp by blast
qed

text \<open>The jittered intervals stay within a quarter of the interval, in either direction.\<close>

lemma jitter_bounds:
  assumes "jitter d rs = Inr (w, rs')" and "0 < d"
  shows "d * 3 div 4 \<le> w \<and> w \<le> d * 5 div 4"
proof -
  obtain j where j: "randIndex (nat (d div 2)) rs = Inr (j, rs')" "w = d * 3 div 4 + int j"
    using assms(1) by (auto simp: jitter_def and_then_Inr_iff)
  have "int j \<le> d div 2"
  proof (cases "nat (d div 2) \<le> 1")
    case True
    then show ?thesis using j(1) assms(2) by (simp add: randIndex_def)
  next
    case False
    then have "j < nat (d div 2)" using randIndex_less [OF j(1)] by simp
    then show ?thesis by simp
  qed
  then show ?thesis using j(2) by linarith
qed

section \<open>The announcements\<close>

text \<open>
  One wake-up of a loop: whether the timer fired (else the context ended), how late, the interfaces
  and the number of known peers at that time.
\<close>

record wake =
  wk_fired :: bool
  wk_late :: duration
  wk_net :: netFilter
  wk_peers :: nat

text \<open>
  \<^verbatim>\<open>announceLoop\<close> from \<open>now\<close> on, with the startup delays that are left: the delay is
  drawn before the wait. The result has the instants of the announcements beside the responder.
\<close>

fun announce_from ::
  "dnslib \<Rightarrow> socket \<Rightarrow> duration list \<Rightarrow> gotime \<Rightarrow> wake list \<Rightarrow> responder \<Rightarrow> bytes
    \<Rightarrow> (gotime list \<times> responder \<times> bytes) result" where
  "announce_from L sk burst now [] r rs = Inr ([], r, rs)"
| "announce_from L sk burst now (w # ws) r rs =
     and_then (case burst of delay # _ \<Rightarrow> Inr (delay, rs) | [] \<Rightarrow> jitter announceInterval rs) (\<lambda>(delay, rs).
       if \<not> wk_fired w then Inr ([], r, rs)
       else let now = time_Add (time_Add now delay) (wk_late w)
            in and_then (announce_from L sk (tl burst) now ws (announce L sk (wk_net w) r) rs)
                 (\<lambda>(ts, r, rs). Inr (now # ts, r, rs)))"

definition announceLoop ::
  "dnslib \<Rightarrow> socket \<Rightarrow> gotime \<Rightarrow> wake list \<Rightarrow> responder \<Rightarrow> bytes
    \<Rightarrow> (gotime list \<times> responder \<times> bytes) result" where
  "announceLoop L sk now ws r rs = announce_from L sk startupBurst now ws r rs"

text \<open>\<^verbatim>\<open>browseLoop\<close>: a query after each startup delay, then one after each minute in which
  no peer is known. The result has the instants of the queries.\<close>

fun browse_from ::
  "dnslib \<Rightarrow> socket \<Rightarrow> duration list \<Rightarrow> gotime \<Rightarrow> wake list \<Rightarrow> responder \<Rightarrow> gotime list \<times> responder" where
  "browse_from L sk burst now [] r = ([], r)"
| "browse_from L sk burst now (w # ws) r =
     (let delay = (case burst of delay # _ \<Rightarrow> delay | [] \<Rightarrow> browseWhenEmpty);
          now = time_Add (time_Add now delay) (wk_late w);
          ask = (burst \<noteq> [] \<or> wk_peers w = 0)
      in if \<not> wk_fired w then ([], r)
         else case browse_from L sk (tl burst) now ws (if ask then mdns_query L sk (wk_net w) r else r) of
           (ts, r) \<Rightarrow> (if ask then now # ts else ts, r))"

definition browseLoop ::
  "dnslib \<Rightarrow> socket \<Rightarrow> gotime \<Rightarrow> wake list \<Rightarrow> responder \<Rightarrow> gotime list \<times> responder" where
  "browseLoop L sk now ws r = browse_from L sk startupBurst now ws r"

lemma announce_delay:
  assumes "(case burst of delay # _ \<Rightarrow> Inr (delay, rs) | [] \<Rightarrow> jitter announceInterval rs) = Inr (d, rs')"
    and "\<forall>d \<in> set burst. 0 \<le> d \<and> 2 * d \<le> peerLifetime"
  shows "0 \<le> d \<and> 2 * d \<le> peerLifetime"
proof (cases burst)
  case Nil
  then show ?thesis using jitter_bounds [of announceInterval rs d rs'] assms(1) by (simp add: go_const)
qed (use assms in auto)

lemma announce_next:
  assumes "announce_from L sk burst t ws r rs = Inr (ts, r', rs')" and "ts \<noteq> []"
    and "\<forall>d \<in> set burst. 0 \<le> d \<and> 2 * d \<le> peerLifetime"
  shows "\<exists>d w ws1 rs1. ws = w # ws1 \<and> wk_fired w \<and> 2 * d \<le> peerLifetime \<and> hd ts = t + d + wk_late w
    \<and> announce_from L sk (tl burst) (hd ts) ws1 (announce L sk (wk_net w) r) rs1 = Inr (tl ts, r', rs')
    \<and> (\<forall>d \<in> set (tl burst). 0 \<le> d \<and> 2 * d \<le> peerLifetime)"
proof (cases ws)
  case (Cons w ws1)
  obtain d rs1 where d: "(case burst of delay # _ \<Rightarrow> Inr (delay, rs) | [] \<Rightarrow> jitter announceInterval rs) = Inr (d, rs1)"
    using assms(1) Cons by (auto simp: and_then_Inr_iff)
  moreover have "\<forall>d \<in> set (tl burst). 0 \<le> d \<and> 2 * d \<le> peerLifetime" using assms(3) by (cases burst) auto
  ultimately show ?thesis
    using assms(1,2) Cons announce_delay [OF d assms(3)]
    by (auto simp: Let_def and_then_Inr_iff time_Add_def split: if_splits)
qed (use assms in simp)

text \<open>Two announcements apart there is at most the lifetime of a peer, plus what the timers were late.\<close>

lemma announce_gap:
  assumes "announce_from L sk burst t ws r rs = Inr (ts, r', rs')" and "Suc (Suc i) < length ts"
    and "\<forall>d \<in> set burst. 0 \<le> d \<and> 2 * d \<le> peerLifetime"
  shows "ts ! Suc (Suc i) - ts ! i \<le> peerLifetime + wk_late (ws ! Suc i) + wk_late (ws ! Suc (Suc i))"
  using assms
proof (induction i arbitrary: burst t ws r rs ts)
  case 0
  obtain d w ws1 rs1 where 1: "ws = w # ws1"
    "announce_from L sk (tl burst) (hd ts) ws1 (announce L sk (wk_net w) r) rs1 = Inr (tl ts, r', rs')"
    "\<forall>d \<in> set (tl burst). 0 \<le> d \<and> 2 * d \<le> peerLifetime"
    using announce_next [OF "0.prems"(1) _ "0.prems"(3)] "0.prems"(2) by fastforce
  obtain d1 w1 ws2 rs2 where 2: "ws1 = w1 # ws2" "2 * d1 \<le> peerLifetime" "hd (tl ts) = hd ts + d1 + wk_late w1"
    "announce_from L sk (tl (tl burst)) (hd (tl ts)) ws2 (announce L sk (wk_net w1) (announce L sk (wk_net w) r)) rs2
       = Inr (tl (tl ts), r', rs')" "\<forall>d \<in> set (tl (tl burst)). 0 \<le> d \<and> 2 * d \<le> peerLifetime"
    using announce_next [OF 1(2) _ 1(3)] "0.prems"(2) by (cases ts; cases "tl ts") fastforce+
  obtain d2 w2 ws3 where 3: "ws2 = w2 # ws3" "2 * d2 \<le> peerLifetime" "hd (tl (tl ts)) = hd (tl ts) + d2 + wk_late w2"
    using announce_next [OF 2(4) _ 2(5)] "0.prems"(2) by (cases ts; cases "tl ts"; cases "tl (tl ts)") fastforce+
  obtain a b c ts' where "ts = a # b # c # ts'"
    using "0.prems"(2) by (cases ts; cases "tl ts"; cases "tl (tl ts)") auto
  then show ?case using 1(1) 2 3 by simp
next
  case (Suc i)
  obtain w ws1 rs1 where 1: "ws = w # ws1"
    "announce_from L sk (tl burst) (hd ts) ws1 (announce L sk (wk_net w) r) rs1 = Inr (tl ts, r', rs')"
    "\<forall>d \<in> set (tl burst). 0 \<le> d \<and> 2 * d \<le> peerLifetime"
    using announce_next [OF Suc.prems(1) _ Suc.prems(3)] Suc.prems(2) by fastforce
  then show ?case using Suc.IH [OF 1(2) _ 1(3)] Suc.prems(2) by (cases ts) simp_all
qed

lemma announce_length: "announce_from L sk burst t ws r rs = Inr (ts, r', rs') \<Longrightarrow> length ts \<le> length ws"
  by (induction L sk burst t ws r rs arbitrary: ts rule: announce_from.induct)
    (fastforce simp: and_then_Inr_iff Let_def split: if_splits)+

text \<open>C38: A running machine stays known, even if every other of its announcements is lost: announced by
  \<^verbatim>\<open>announceLoop\<close>, after the startup delays at jittered intervals, it is still in the table of a
  machine that heard an announcement, however often that table is swept, until the next but one
  announcement arrives, less what the timers of these two were late.\<close>

theorem peers_stay_known:
  assumes "announceLoop L sk t ws r rs = Inr (ts, r', rs')" and "Suc (Suc i) < length ts"
    and "table_ok own pt" and "mget (pt_m pt) (pe_HostID p) = Some p" and "pe_LastSeen p = ts ! i"
    and "visits ord (pt_m pt)"
    and "now + wk_late (ws ! Suc i) + wk_late (ws ! Suc (Suc i)) \<le> ts ! Suc (Suc i)"
  shows "mget (pt_m (peers_sweep now ord pt)) (pe_HostID p) = Some p"
proof -
  have "\<forall>d \<in> set startupBurst. 0 \<le> d \<and> 2 * d \<le> peerLifetime" by (simp add: startupBurst_def go_const)
  then have "ts ! Suc (Suc i) - ts ! i \<le> peerLifetime + wk_late (ws ! Suc i) + wk_late (ws ! Suc (Suc i))"
    using announce_gap [OF assms(1) [unfolded announceLoop_def] assms(2)] by blast
  then have "\<not> peer_gone now p"
    using assms(5,7) by (auto simp: peer_gone_def time_Sub_def go_const)
  then show ?thesis
    using peer_sweep.sweep_get [OF _ assms(6)] assms(3,4) by (simp add: peers_sweep_def table_ok_def)
qed

theorem peers_stay_known_witness:
  "\<exists>ts r'. announceLoop query_dns demo_socket 0 (replicate 3 \<lparr>wk_fired = True, wk_late = 0, wk_net = demo_filter, wk_peers = 0\<rparr>)
       demo_responder [] = Inr (ts, r', [])
     \<and> mget (pt_m (peers_sweep (4 * Second) [(''P'', \<lparr>pe_HostID = ''P'', pe_Hostname = ''box'', pe_Addr = ''a'', pe_LastSeen = 0\<rparr>)]
         (peers_put \<lparr>pe_HostID = ''P'', pe_Hostname = ''box'', pe_Addr = ''a'', pe_LastSeen = 0\<rparr> (newPeerTable 0)))) ''P'' \<noteq> None"
proof -
  let ?p = "\<lparr>pe_HostID = ''P'', pe_Hostname = ''box'', pe_Addr = ''a'', pe_LastSeen = 0\<rparr>"
  let ?ws = "replicate 3 \<lparr>wk_fired = True, wk_late = 0, wk_net = demo_filter, wk_peers = 0\<rparr>"
  obtain r' where a: "announceLoop query_dns demo_socket 0 ?ws demo_responder [] = Inr ([0, Second, 4 * Second], r', [])"
    by (simp add: announceLoop_def startupBurst_def time_Add_def numeral_3_eq_3)
  have t: "table_ok ''X'' (peers_put ?p (newPeerTable 0))"
    by (rule table_ok_put [OF table_ok_new]) simp
  have m: "pt_m (peers_put ?p (newPeerTable 0)) = [(''P'', ?p)]" by (simp add: peers_put_def newPeerTable_def mput_def)
  have g: "mget [(k, x)] k = Some x" for k :: string and x :: peer by (simp add: mget_def)
  have "mget (pt_m (peers_sweep (4 * Second) [(''P'', ?p)] (peers_put ?p (newPeerTable 0)))) (pe_HostID ?p) = Some ?p"
    by (rule peers_stay_known [OF a, of 0, OF _ t]) (simp_all add: m g visits_def)
  then have "mget (pt_m (peers_sweep (4 * Second) [(''P'', ?p)] (peers_put ?p (newPeerTable 0)))) ''P'' \<noteq> None" by simp
  then show ?thesis using a by blast
qed

text \<open>The query of a startup wake-up does not depend on the peers known, a later one does.\<close>

lemma browse_burst:
  "wk_fired w \<Longrightarrow> snd (browse_from L sk (delay # burst) now (w # ws) r) =
     snd (browse_from L sk burst (now + delay + wk_late w) ws (mdns_query L sk (wk_net w) r))"
  "wk_fired w \<Longrightarrow> snd (browse_from L sk [] now (w # ws) r) =
     snd (browse_from L sk [] (now + browseWhenEmpty + wk_late w) ws (if wk_peers w = 0 then mdns_query L sk (wk_net w) r else r))"
  by (simp_all add: Let_def time_Add_def split: prod.split)

end
