(* ===== verification/Daemon.thy ===== *)
theory Daemon
  imports Store_Spec Limiter Code Fetch Mdns
begin

text \<open>
  \<^verbatim>\<open>daemon.go\<close>: the daemon's state and the data plane. The state of a \<^verbatim>\<open>daemon\<close> is a
  record of the fields of its struct, the heap of its buffers and its supply of randomness; the handshake is two phases, up
  to the offer it sends and from the confirmation it reads, and what other connections do to the
  daemon between them is the parameter \<open>world\<close>. Clock readings are arguments.
\<close>

section \<open>State\<close>

definition dataPort :: nat where [go_const]: "dataPort = 7391"
definition ioTimeout :: duration where [go_const]: "ioTimeout = 30 * Second"
definition pakeTimeout :: duration where [go_const]: "pakeTimeout = 10 * Second"
definition maxConns :: nat where [go_const]: "maxConns = 256"
definition idleTimeout :: duration where [go_const]: "idleTimeout = 30 * Minute"
definition acceptRetryFloor :: duration where [go_const]: "acceptRetryFloor = 5 * Millisecond"
definition acceptRetryCeiling :: duration where [go_const]: "acceptRetryCeiling = Second"
definition peerPollInterval :: duration where [go_const]: "peerPollInterval = 25 * Millisecond"
definition peerWarmup :: duration where [go_const]: "peerWarmup = 5 * Second"

text \<open>
  The interface \<^verbatim>\<open>discovery\<close>: nil, or a \<^verbatim>\<open>*responder\<close>, which may itself be a nil
  pointer. Only the former is equal to nil.
\<close>

datatype discovery = NilDiscovery | Discovery "responder option"

record daemon =
  dm_store :: store
  dm_limiter :: limiter
  dm_peers :: peerTable
  dm_net :: netFilter
  dm_hostID :: string
  dm_port :: nat
  dm_started :: gotime
  dm_mdns :: discovery
  dm_lastUsed :: int
  dm_heap :: heap
  dm_rand :: bytes

text \<open>\<^verbatim>\<open>t.Unix()\<close>, from the zero time.\<close>

definition time_Unix :: "gotime \<Rightarrow> int" where
  "time_Unix t = t div Second - 62135596800"

definition touch :: "gotime \<Rightarrow> daemon \<Rightarrow> daemon" where
  "touch now d = d\<lparr>dm_lastUsed := time_Unix now\<rparr>"

definition idleFor :: "gotime \<Rightarrow> daemon \<Rightarrow> duration" where
  "idleFor now d = (time_Unix now - dm_lastUsed d) * Second"

definition shouldStop :: "gotime \<Rightarrow> (string \<times> paste) list \<Rightarrow> daemon \<Rightarrow> bool" where
  "shouldStop now ord d \<longleftrightarrow> length (store_list ord) = 0 \<and> idleFor now d > idleTimeout"

section \<open>The offer\<close>

fun offer_loop ::
  "('e, 's) suite \<Rightarrow> bytes \<Rightarrow> bytes \<Rightarrow> bytes \<Rightarrow> bytes list \<Rightarrow> 's pakeSide list \<Rightarrow> bytes \<Rightarrow> bytes
    \<Rightarrow> ('s pakeSide list \<times> bytes) result \<times> bytes" where
  "offer_loop S ci sid peerShare [] sides offer rs = (Inr (sides, offer), rs)"
| "offer_loop S ci sid peerShare (prs # cands) sides offer rs =
     (case newPakeSide S prs ci sid rs of
        Inl e \<Rightarrow> (Inl e, rs)
      | Inr (side, rs) \<Rightarrow>
     (case pake_finish S side peerShare sid of
        Inl e \<Rightarrow> (Inl e, rs)
      | Inr side \<Rightarrow>
          offer_loop S ci sid peerShare cands (sides @ [side])
            (offer @ ps_share side @ serverTag side) rs))"

definition buildOffer ::
  "('e, 's) suite \<Rightarrow> bytes list \<Rightarrow> bytes \<Rightarrow> bytes \<Rightarrow> bytes \<Rightarrow> bytes
    \<Rightarrow> ('s pakeSide list \<times> bytes) result \<times> bytes" where
  "buildOffer S cands ci sid peerShare rs =
     (if length cands > maxCandidates then (Inl ErrProtocol, rs)
      else offer_loop S ci sid peerShare cands []
             [word_of_nat (length cands div 256), word_of_nat (length cands)] rs)"

section \<open>The handshake\<close>

record hs_times =
  ht_peer :: gotime
  ht_exchange :: gotime
  ht_cands :: gotime
  ht_fail :: gotime
  ht_take :: gotime
  ht_touch :: gotime

definition openExchange :: "tls_state \<Rightarrow> bytes result" where
  "openExchange tls =
     (case tls_deadline tls of
        Some e \<Rightarrow> Inl e
      | None \<Rightarrow>
     (case tls_handshake tls of
        Some e \<Rightarrow> Inl e
      | None \<Rightarrow> if tls_proto tls \<noteq> alpnProto then Inl ErrProtocol else tls_binding tls))"

definition readHello :: "conn \<Rightarrow> bytes result \<times> conn" where
  "readHello c =
     (case readFrame helloLen c of
        (Inl e, c) \<Rightarrow> (Inl e, c)
      | (Inr hello, c) \<Rightarrow>
          if length hello \<noteq> helloLen \<or> hello ! 0 \<noteq> word_of_nat wireVersion then (Inl ErrProtocol, c)
          else (Inr (tl hello), c))"

fun match_conf :: "'s pakeSide list \<Rightarrow> bytes \<Rightarrow> int \<Rightarrow> int \<Rightarrow> int" where
  "match_conf [] tag i match = match"
| "match_conf (side # sides) tag i match =
     match_conf sides tag (i + 1) (if macEqual tag (clientTag side) then i else match)"

definition matchConfirmation :: "'s pakeSide list \<Rightarrow> bytes \<Rightarrow> int" where
  "matchConfirmation sides tag =
     (if length tag \<noteq> macLen then - 1 else match_conf sides tag 0 (- 1))"

text \<open>Up to the offer on the wire.\<close>

definition hs_offer ::
  "('e, 's) suite \<Rightarrow> tls_state \<Rightarrow> string result \<Rightarrow> hs_times \<Rightarrow> (string \<times> paste) list \<Rightarrow> daemon \<Rightarrow> conn
    \<Rightarrow> (string \<times> 's pakeSide list \<times> bytes list) result \<times> daemon \<times> conn" where
  "hs_offer S tls remote t ord d c =
     (case remote of
        Inl e \<Rightarrow> (Inl e, d, c)
      | Inr host \<Rightarrow>
     (case allowPeer (ht_peer t) host (dm_limiter d) of
        (ok, l) \<Rightarrow>
     let d = d\<lparr>dm_limiter := l\<rparr> in
     if \<not> ok then (Inl ErrProtocol, d, c)
     else
     (case openExchange tls of
        Inl e \<Rightarrow> (Inl e, d, c)
      | Inr sid \<Rightarrow>
     (case readHello c of
        (Inl e, c) \<Rightarrow> (Inl e, d, c)
      | (Inr peerShare, c) \<Rightarrow>
     (case allowExchange (ht_exchange t) (dm_limiter d) of
        (ok, l) \<Rightarrow>
     let d = d\<lparr>dm_limiter := l\<rparr> in
     if \<not> ok then (Inl ErrProtocol, d, c)
     else
     (case candidates (ht_cands t) ord (dm_store d) (dm_rand d) of
        Inl e \<Rightarrow> (Inl e, d, c)
      | Inr (cands, rs) \<Rightarrow>
     (case buildOffer S cands (channelID (dm_hostID d)) sid peerShare rs of
        (Inl e, rs) \<Rightarrow> (Inl e, d\<lparr>dm_rand := rs\<rparr>, c)
      | (Inr (sides, offer), rs) \<Rightarrow>
     let d = d\<lparr>dm_rand := rs\<rparr> in
     (case writeFrame offer c of
        (Some e, c) \<Rightarrow> (Inl e, d, c)
      | (None, c) \<Rightarrow> (Inr (host, sides, cands), d, c)))))))))"

text \<open>From the client's confirmation on.\<close>

definition hs_confirm ::
  "('e, 's) suite \<Rightarrow> string \<Rightarrow> hs_times \<Rightarrow> 's pakeSide list \<Rightarrow> bytes list \<Rightarrow> daemon \<Rightarrow> conn
    \<Rightarrow> go_error option \<times> daemon \<times> conn" where
  "hs_confirm S host t sides cands d c =
     (case readFrame macLen c of
        (Inl e, c) \<Rightarrow> (Some e, d, c)
      | (Inr tag, c) \<Rightarrow>
     let match = matchConfirmation sides tag in
     if match < 0
     then (Some ErrProtocol, d\<lparr>dm_limiter := limiter_fail (ht_fail t) host (dm_limiter d)\<rparr>, c)
     else
     (case store_take (ht_take t) (cands ! nat match) (dm_heap d) (dm_store d) of
        (body, h, s) \<Rightarrow>
     let d = d\<lparr>dm_heap := h, dm_store := s\<rparr> in
     if body = NilSlice then (Some ErrProtocol, d, c)
     else
     (case pake_seal S (sides ! nat match) body (dm_heap d) of
        (Inl e, h) \<Rightarrow> (Some e, d\<lparr>dm_heap := h\<rparr>, c)
      | (Inr sealed, h) \<Rightarrow>
     let d = touch (ht_touch t) (d\<lparr>dm_heap := h\<rparr>) in
     (case writeFrame (sl_read h sealed) c of (err, c) \<Rightarrow> (err, d, c)))))"

definition handshake ::
  "('e, 's) suite \<Rightarrow> tls_state \<Rightarrow> string result \<Rightarrow> hs_times \<Rightarrow> (string \<times> paste) list
    \<Rightarrow> (daemon \<Rightarrow> daemon) \<Rightarrow> daemon \<Rightarrow> conn \<Rightarrow> go_error option \<times> daemon \<times> conn" where
  "handshake S tls remote t ord world d c =
     (case hs_offer S tls remote t ord d c of
        (Inl e, d, c) \<Rightarrow> (Some e, d, c)
      | (Inr (host, sides, cands), d, c) \<Rightarrow> hs_confirm S host t sides cands (world d) c)"

section \<open>What an offer holds\<close>

text \<open>The finished side that the loop makes for a candidate.\<close>

definition side_for :: "('e, 's) suite \<Rightarrow> bytes \<Rightarrow> bytes \<Rightarrow> bytes \<Rightarrow> bytes \<Rightarrow> 's pakeSide \<Rightarrow> bool" where
  "side_for S ci sid peerShare prs side \<longleftrightarrow>
     (\<exists>s0 rs rs'. newPakeSide S prs ci sid rs = Inr (s0, rs') \<and> pake_finish S s0 peerShare sid = Inr side)"

definition side_entry :: "'s pakeSide \<Rightarrow> bytes \<times> bytes" where
  "side_entry s = (ps_share s, serverTag s)"

lemma offer_loop_sides:
  "offer_loop S ci sid ps cands sides offer rs = (Inr (sides', offer'), rs') \<Longrightarrow>
   \<exists>ss. sides' = sides @ ss \<and> list_all2 (side_for S ci sid ps) cands ss
      \<and> offer' = offer @ concat (map (\<lambda>(share, tag). share @ tag) (map side_entry ss))"
proof (induction S ci sid ps cands sides offer rs rule: offer_loop.induct)
  case (1 S ci sid ps sides offer rs)
  then show ?case by simp
next
  case (2 S ci sid ps prs cands sides offer rs)
  from "2.prems" obtain s0 rs1 side where n: "newPakeSide S prs ci sid rs = Inr (s0, rs1)"
    and f: "pake_finish S s0 ps sid = Inr side"
    and r: "offer_loop S ci sid ps cands (sides @ [side]) (offer @ ps_share side @ serverTag side) rs1
      = (Inr (sides', offer'), rs')"
    by (auto split: sum.splits)
  have sf: "side_for S ci sid ps prs side" using n f by (auto simp: side_for_def)
  from "2.IH" [OF n _ f r] obtain ss where "sides' = (sides @ [side]) @ ss"
    "list_all2 (side_for S ci sid ps) cands ss"
    "offer' = (offer @ ps_share side @ serverTag side) @ concat (map (\<lambda>(share, tag). share @ tag) (map side_entry ss))"
    by auto
  then show ?case using sf by (intro exI [of _ "side # ss"]) (simp add: side_entry_def [of side])
qed

lemma side_for_share:
  assumes "side_for S ci sid ps prs side"
  shows "\<exists>e. ps_share side = e_Bytes S e"
  using assms newPakeSide_share by (fastforce simp: side_for_def pake_finish_def and_then_Inr_iff)

lemma side_for_entry: "suite_ok S \<Longrightarrow> side_for S ci sid ps prs side \<Longrightarrow> entry_ok (side_entry side)"
  using side_for_share suite_points
  by (fastforce simp: entry_ok_def side_entry_def serverTag_def confirm_def pointLen_def macLen_def)

lemma buildOffer_sides:
  assumes "buildOffer S cands ci sid ps rs = (Inr (sides, offer), rs')"
  shows "list_all2 (side_for S ci sid ps) cands sides" and "offer = offer_bytes (map side_entry sides)"
    and "length cands \<le> maxCandidates"
proof -
  show len: "length cands \<le> maxCandidates"
    using assms by (simp add: buildOffer_def split: if_splits)
  from assms obtain ss where s: "sides = [] @ ss" and l: "list_all2 (side_for S ci sid ps) cands ss"
    and o: "offer = [word_of_nat (length cands div 256), word_of_nat (length cands)]
      @ concat (map (\<lambda>(share, tag). share @ tag) (map side_entry ss))"
    by (auto simp: buildOffer_def dest!: offer_loop_sides split: if_splits)
  show "list_all2 (side_for S ci sid ps) cands sides" using s l by simp
  show "offer = offer_bytes (map side_entry sides)"
    using s l o by (simp add: offer_bytes_def list_all2_lengthD [OF l])
qed

lemma sides_entries:
  assumes "suite_ok S" and "list_all2 (side_for S ci sid ps) cands sides"
  shows "\<forall>e \<in> set (map side_entry sides). entry_ok e"
proof
  fix e assume "e \<in> set (map side_entry sides)"
  then obtain s where s: "s \<in> set sides" "e = side_entry s" by auto
  then obtain prs where "side_for S ci sid ps prs s"
    using assms(2) by (metis in_set_conv_nth list_all2_conv_all_nth)
  then show "entry_ok e" using side_for_entry [OF assms(1)] s by simp
qed

lemma live_le: "store_ok h s \<Longrightarrow> length (live_pastes now s) \<le> maxPastes"
  unfolding live_pastes_def store_ok_def by (meson length_filter_le order.trans)

lemma newPakeSide_error: "newPakeSide S prs ci sid rs = Inl e \<Longrightarrow> e = ErrPanic"
  by (auto simp: newPakeSide_def calculateGenerator_def randomScalar_def rand_Read_def and_then_def
      split: sum.splits option.splits if_splits)

lemma pake_finish_error: "pake_finish S s ps sid = Inl e \<Longrightarrow> e = ErrBadPoint"
  by (auto simp: pake_finish_def scalarMultVfy_def and_then_def Let_def
      split: sum.splits option.splits if_splits)

lemma offer_error_point:
  "offer_loop S ci sid ps cands sides offer rs = (Inl e, rs') \<Longrightarrow> e \<noteq> ErrProtocol"
proof (induction S ci sid ps cands sides offer rs rule: offer_loop.induct)
  case (2 S ci sid ps prs cands sides offer rs)
  show ?case
  proof (cases "newPakeSide S prs ci sid rs")
    case (Inl e')
    then show ?thesis using "2.prems" newPakeSide_error [OF Inl] by simp
  next
    case (Inr sr)
    obtain s0 rs1 where sr: "sr = (s0, rs1)" by (cases sr)
    show ?thesis
    proof (cases "pake_finish S s0 ps sid")
      case (Inl e')
      then show ?thesis using "2.prems" Inr sr pake_finish_error [OF Inl] by simp
    next
      case (Inr side)
      then show ?thesis using "2.prems" "2.IH" \<open>newPakeSide S prs ci sid rs = Inr sr\<close> sr by simp
    qed
  qed
qed simp

text \<open>C8: The offer for the candidates of a store always fits the protocol: it is never refused for
  their number, is at most \<^verbatim>\<open>maxOfferLen\<close> bytes long, and a client that reads it finds its
  entries where the daemon put them, so never answers with a protocol error.\<close>

theorem offer_fits:
  assumes "suite_ok S" and "store_ok h s" and "visits ord (s_m s)"
    and "candidates now ord s rs = Inr (cands, rs')"
    and "buildOffer S cands ci sid peerShare rs' = (r, rs'')"
  shows "case r of
       Inl e \<Rightarrow> e \<noteq> ErrProtocol
     | Inr (sides, offer) \<Rightarrow> length offer \<le> maxOfferLen \<and> length sides = length cands
         \<and> (\<forall>side. matchOffer S side sid offer \<noteq> Inl ErrProtocol)"
proof -
  have "length (live_pastes now s) \<le> maxCandidates"
    using live_le [OF assms(2), of now] by (simp add: go_const)
  then have len: "length cands \<le> maxCandidates"
    using candidates_length [OF assms(4,3)] paddedCount_le by simp
  show ?thesis
  proof (cases r)
    case (Inl e)
    then show ?thesis
      using assms(5) len offer_error_point by (fastforce simp: buildOffer_def)
  next
    case (Inr so)
    obtain sides offer where so: "so = (sides, offer)" by (cases so)
    note b = buildOffer_sides [OF assms(5) [unfolded Inr so]]
    have sl: "length sides = length cands" using list_all2_lengthD [OF b(1)] by simp
    note en = sides_entries [OF assms(1) b(1)]
    have "length offer \<le> maxOfferLen"
      using offer_length [OF en] b(2) sl len by (simp add: maxOfferLen_def)
    moreover have "length (map side_entry sides) < 65536" using sl len by (simp add: go_const)
    then have "matchOffer S side sid offer \<noteq> Inl ErrProtocol" for side
      unfolding b(2) matchOffer_entries [OF en \<open>length (map side_entry sides) < 65536\<close>]
      by (auto split: option.splits)
    ultimately show ?thesis using Inr so sl by simp
  qed
qed

section \<open>A run with the small suite\<close>

definition toy_share :: bytes where "toy_share = 1 # replicate 31 0"

definition toy_done :: "bytes \<Rightarrow> byte pakeSide" where
  "toy_done sid = \<lparr>ps_scalar = 1, ps_share = toy_share,
     ps_sk = sessionKey sid toy_share toy_share toy_share\<rparr>"

lemma toy_newSide:
  "newPakeSide toy_suite prs ci sid (replicate 64 0 @ rs)
     = Inr (\<lparr>ps_scalar = 1, ps_share = toy_share, ps_sk = []\<rparr>, rs)"
  by (simp add: newPakeSide_def calculateGenerator_def randomScalar_def rand_Read_def toy_suite_def
      toy_share_def)

lemma toy_finished:
  "pake_finish toy_suite \<lparr>ps_scalar = 1, ps_share = toy_share, ps_sk = []\<rparr> toy_share sid = Inr (toy_done sid)"
  unfolding toy_done_def toy_share_def using toy_finish by simp

lemma toy_offer:
  "offer_loop toy_suite ci sid toy_share cands sides offer (replicate (length cands * 64) 0 @ rs)
     = (Inr (sides @ replicate (length cands) (toy_done sid),
             offer @ concat (replicate (length cands) (toy_share @ serverTag (toy_done sid)))), rs)"
proof (induction cands arbitrary: sides offer)
  case (Cons prs cands)
  have s: "ps_share (toy_done sid) = toy_share" by (simp add: toy_done_def)
  have r: "replicate (length (prs # cands) * 64) 0 @ rs = replicate 64 0 @ (replicate (length cands * 64) (0::byte) @ rs)"
    by (simp add: replicate_add)
  show ?case
    unfolding r offer_loop.simps toy_newSide sum.case prod.case toy_finished s Cons.IH
    by (simp add: replicate_app_Cons_same)
qed simp

theorem offer_fits_witness:
  "\<exists>sides offer. buildOffer toy_suite [[9, 9], [9, 9], [9, 9], [1, 2]] [] [1] toy_share (replicate 256 0)
       = (Inr (sides, offer), [])
     \<and> length offer \<le> maxOfferLen
     \<and> matchOffer toy_suite (toy_done [1]) [1] offer \<noteq> Inl ErrProtocol"
proof -
  let ?cands = "[[9, 9], [9, 9], [9, 9], [1, 2]] :: bytes list"
  have rs: "replicate 256 (0::byte) = replicate (length ?cands * 64) 0 @ []" by simp
  obtain sides offer where b: "buildOffer toy_suite ?cands [] [1] toy_share (replicate 256 0) = (Inr (sides, offer), [])"
    unfolding buildOffer_def rs toy_offer by (simp add: go_const)
  have c: "candidates Second (s_m demo_store) demo_store ([0, 0, 0] @ replicate 256 0) = Inr (?cands, replicate 256 0)"
    using demo_candidates [of "replicate 256 0"] by simp
  have v: "visits (s_m demo_store) (s_m demo_store)" by (simp add: visits_def)
  show ?thesis
    using offer_fits [OF toy_suite_ok demo_ok v c b] b by simp
qed

end
