(* ===== verification/Delivery.thy ===== *)
theory Delivery
  imports Daemon
begin

text \<open>
  The two ends of the data plane put together: \<^verbatim>\<open>exchange\<close> of the client against
  \<^verbatim>\<open>handshake\<close> of the daemon, each reading what the other writes.
\<close>

section \<open>The client's part\<close>

definition hello_msg :: "'s pakeSide \<Rightarrow> bytes" where
  "hello_msg a = word_of_nat wireVersion # ps_share a"

lemma newPakeSide_length:
  "suite_ok S \<Longrightarrow> newPakeSide S prs ci sid rs = Inr (a, rs') \<Longrightarrow> length (ps_share a) = 32"
  using newPakeSide_share suite_points by fastforce

lemma length_clientTag [simp]: "length (clientTag p) = 32"
  by (simp add: clientTag_def confirm_def)

lemma maxOfferLen_frame: "maxOfferLen < 256 ^ 4" "maxOfferLen \<le> maxFrame"
  by (simp_all add: go_const)

lemma exchange_flow:
  assumes ok: "suite_ok S" and b: "tls_binding tls = Inr sid" and dl: "tls_deadline2 tls = None"
    and side: "newPakeSide S prs (channelID serverID) sid rs = Inr (a, rs')"
    and m: "matchOffer S a sid offer = Inr a'"
    and lo: "length offer \<le> maxOfferLen" and ls: "length sealed \<le> maxFrame"
    and room: "73 \<le> c_room c" and inp: "c_in c = frame offer @ frame sealed @ rest"
  shows "exchange S tls prs serverID rs c = (pake_open S a' sealed,
    c\<lparr>c_in := rest, c_out := c_out c @ frame (hello_msg a) @ frame (clientTag a'), c_room := c_room c - 73\<rparr>)"
proof -
  have lh: "length (hello_msg a) = 33" by (simp add: hello_msg_def newPakeSide_length [OF ok side])
  let ?c1 = "c\<lparr>c_out := c_out c @ frame (hello_msg a), c_room := c_room c - 37\<rparr>"
  have w1: "writeFrame (hello_msg a) c = (None, ?c1)"
    using writeFrame_ok [of "hello_msg a" c] lh room by (simp add: go_const)
  have r1: "readFrame maxOfferLen ?c1 = (Inr offer, ?c1\<lparr>c_in := frame sealed @ rest\<rparr>)"
    using lo maxOfferLen_frame(1) by (intro readFrame_frame) (simp_all add: inp)
  let ?c2 = "?c1\<lparr>c_in := frame sealed @ rest\<rparr>"
  let ?c3 = "?c2\<lparr>c_out := c_out ?c2 @ frame (clientTag a'), c_room := c_room ?c2 - 36\<rparr>"
  have w2: "writeFrame (clientTag a') ?c2 = (None, ?c3)"
    using writeFrame_ok [of "clientTag a'" ?c2] room by (simp add: go_const)
  have r2: "readFrame maxFrame ?c3 = (Inr sealed, ?c3\<lparr>c_in := rest\<rparr>)"
    using ls maxFrame_less [OF ls] by (intro readFrame_frame) simp_all
  show ?thesis
    using w1 r1 w2 r2 by (simp add: exchange_def b side m dl hello_msg_def)
qed

section \<open>The daemon's part\<close>

lemma openExchange_ok:
  "tls_deadline tls = None \<Longrightarrow> tls_handshake tls = None \<Longrightarrow> tls_proto tls = alpnProto \<Longrightarrow>
   tls_binding tls = Inr sid \<Longrightarrow> openExchange tls = Inr sid"
  by (simp add: openExchange_def)

lemma readHello_frame:
  assumes "c_in c = frame (hello_msg a) @ rest" and "length (ps_share a) = 32"
  shows "readHello c = (Inr (ps_share a), c\<lparr>c_in := rest\<rparr>)"
proof -
  have l: "length (hello_msg a) = helloLen" using assms(2) by (simp add: hello_msg_def go_const)
  then have "readFrame helloLen c = (Inr (hello_msg a), c\<lparr>c_in := rest\<rparr>)"
    using assms(1) by (intro readFrame_frame) (simp_all add: go_const)
  then show ?thesis using l by (simp add: readHello_def hello_msg_def)
qed

lemma offer_flow:
  assumes peer: "allowPeer (ht_peer t) host (dm_limiter d) = (True, l1)"
    and exch: "allowExchange (ht_exchange t) l1 = (True, l2)"
    and tls: "openExchange tls = Inr sid"
    and hello: "c_in c = frame (hello_msg a) @ rest" "length (ps_share a) = 32"
    and cands: "candidates (ht_cands t) ord (dm_store d) (dm_rand d) = Inr (cands, rs1)"
    and offer: "buildOffer S cands (channelID (dm_hostID d)) sid (ps_share a) rs1 = (Inr (sides, offer), rs2)"
    and len: "length offer \<le> maxOfferLen" "length offer + 4 \<le> c_room c"
  shows "hs_offer S tls (Inr host) t ord d c =
    (Inr (host, sides, cands), d\<lparr>dm_limiter := l2, dm_rand := rs2\<rparr>,
     c\<lparr>c_in := rest, c_out := c_out c @ frame offer, c_room := c_room c - (length offer + 4)\<rparr>)"
proof -
  have "length offer \<le> maxFrame" using len(1) maxOfferLen_frame(2) by simp
  then have "writeFrame offer (c\<lparr>c_in := rest\<rparr>)
      = (None, c\<lparr>c_in := rest, c_out := c_out c @ frame offer, c_room := c_room c - (length offer + 4)\<rparr>)"
    using writeFrame_ok [of offer "c\<lparr>c_in := rest\<rparr>"] len(2) by simp
  then show ?thesis
    using readHello_frame [OF hello] by (simp add: hs_offer_def peer exch tls cands offer Let_def)
qed

text \<open>What the daemon puts on the wire for a payload.\<close>

definition sealed_bytes :: "('e, 's) suite \<Rightarrow> 's pakeSide \<Rightarrow> bytes \<Rightarrow> bytes" where
  "sealed_bytes S side body =
     aead_Seal S (confirm (ps_sk side) ''tp/payload/v1'') (replicate 12 0) body"

lemma seal_taken:
  assumes ok: "suite_ok S" and st: "store_ok h s" and get: "mget (s_m s) (pasteKey prs) = Some p"
    and live: "is_live now p" and tk: "store_take now prs h s = (body, h1, s1)"
    and seal: "pake_seal S side body h1 = (r, h2)"
  shows "\<exists>sealed. r = Inr sealed \<and> sl_read h2 sealed = sealed_bytes S side (sl_read h (p_data p))
    \<and> h2 = h1\<lparr>h_cell := (h_cell h1)(h_next h := sealed_bytes S side (sl_read h (p_data p)))\<rparr>"
proof -
  note tf = take_facts [OF st get live tk]
  have dok: "sl_ok h (p_data p)" using store_ok_get [OF st get] by (simp add: paste_ok_def)
  have h1: "h1 = taken_heap h p" and b: "body = Slice (h_next h) (sl_len (p_data p))"
    using store_take_live [OF get live dok] tk by auto
  have sok: "sl_ok h1 body" using taken_heap_body [OF dok] length_sl_read [OF dok] by (simp add: h1 b)
  have "length (sealed_bytes S side (sl_read h (p_data p))) = sl_len body + 16"
    using suite_overhead [OF ok] length_sl_read [OF sok] tf(1) by (simp add: sealed_bytes_def)
  then show ?thesis
    using seal_in_place [OF ok tf(4) sok tf(2), of side] seal tf(1,3) by (auto simp: sealed_bytes_def)
qed

lemma confirm_flow:
  assumes ok: "suite_ok S" and st: "store_ok (dm_heap d) (dm_store d)"
    and get: "mget (s_m (dm_store d)) (pasteKey (cands ! i)) = Some p" and live: "is_live (ht_take t) p"
    and m: "matchConfirmation sides tag = int i"
    and inp: "c_in c = frame tag @ rest" "length tag = 32"
    and room: "length (sl_read (dm_heap d) (p_data p)) + 20 \<le> c_room c"
    and size: "length (sl_read (dm_heap d) (p_data p)) \<le> maxPasteSize"
  shows "\<exists>d'. hs_confirm S host t sides cands d c =
      (None, d', c\<lparr>c_in := rest,
         c_out := c_out c @ frame (sealed_bytes S (sides ! i) (sl_read (dm_heap d) (p_data p))),
         c_room := c_room c - (length (sl_read (dm_heap d) (p_data p)) + 20)\<rparr>)
    \<and> dm_store d' = (dm_store d)\<lparr>s_m := mput (pasteKey (cands ! i)) (taken_paste p) (s_m (dm_store d))\<rparr>
    \<and> dm_lastUsed d' = time_Unix (ht_touch t)"
proof -
  let ?b = "sl_read (dm_heap d) (p_data p)"
  let ?c = "c\<lparr>c_in := rest\<rparr>"
  have dok: "sl_ok (dm_heap d) (p_data p)" using store_ok_get [OF st get] by (simp add: paste_ok_def)
  obtain body h1 s1 where tk: "store_take (ht_take t) (cands ! i) (dm_heap d) (dm_store d) = (body, h1, s1)"
    by (cases "store_take (ht_take t) (cands ! i) (dm_heap d) (dm_store d)")
  have s1: "s1 = (dm_store d)\<lparr>s_m := mput (pasteKey (cands ! i)) (taken_paste p) (s_m (dm_store d))\<rparr>"
    using store_take_live [OF get live dok] tk by simp
  obtain r h2 where seal: "pake_seal S (sides ! i) body h1 = (r, h2)" by (cases "pake_seal S (sides ! i) body h1")
  obtain sealed where sd: "r = Inr sealed" "sl_read h2 sealed = sealed_bytes S (sides ! i) ?b"
    using seal_taken [OF ok st get live tk seal] by blast
  have rd: "readFrame macLen c = (Inr tag, ?c)"
    using inp by (intro readFrame_frame) (simp_all add: go_const)
  have len: "length (sealed_bytes S (sides ! i) ?b) = length ?b + 16"
    using suite_overhead [OF ok] by (simp add: sealed_bytes_def)
  have w: "writeFrame (sealed_bytes S (sides ! i) ?b) ?c
      = (None, ?c\<lparr>c_out := c_out c @ frame (sealed_bytes S (sides ! i) ?b), c_room := c_room c - (length ?b + 20)\<rparr>)"
    using writeFrame_ok [of "sealed_bytes S (sides ! i) ?b" ?c] len room size by (simp add: go_const)
  show ?thesis
    using take_facts(4) [OF st get live tk]
    by (simp add: hs_confirm_def rd m Let_def tk seal sd w s1 touch_def)
qed

section \<open>The matching on both sides\<close>

lemma entry_matches:
  assumes ok: "suite_ok S" and a: "newPakeSide S prs ci sid rs = Inr (a, rs')"
    and side: "side_for S ci sid (ps_share a) prs side"
  shows "match_entry S a sid (ps_share side) (serverTag side) sk = Some (ps_sk side)"
proof -
  obtain s0 rt rt' where s0: "newPakeSide S prs ci sid rt = Inr (s0, rt')"
    and f: "pake_finish S s0 (ps_share a) sid = Inr side"
    using side by (auto simp: side_for_def)
  have sh: "ps_share side = ps_share s0"
    using f by (auto simp: pake_finish_def and_then_Inr_iff)
  obtain b' where "pake_finish S a (ps_share s0) sid = Inr b'" "ps_sk b' = ps_sk side"
    using finish_agrees [OF ok s0 a] f by auto
  then obtain k where "scalarMultVfy S (ps_scalar a) (ps_share side) = Inr k"
    "ps_sk side = sessionKey sid k (ps_share a) (ps_share side)"
    by (auto simp: pake_finish_def and_then_Inr_iff sh)
  then show ?thesis by (simp add: match_entry_def serverTag_def macEqual_def Let_def)
qed

text \<open>
  Another candidate's confirmation, made with another secret, that passes for the right one: a
  collision of the hash or of the group's elements.
\<close>

definition clash :: "('e, 's) suite \<Rightarrow> 's pakeSide \<Rightarrow> bytes \<Rightarrow> 's pakeSide \<Rightarrow> 's pakeSide \<Rightarrow> bool" where
  "clash S a sid side other \<longleftrightarrow>
     match_entry S a sid (ps_share other) (serverTag other) None \<noteq> None
     \<or> clientTag other = clientTag side"

lemma match_entry_None:
  "match_entry S a sid share tag None = None \<Longrightarrow> match_entry S a sid share tag sk = sk"
  by (auto simp: match_entry_def Let_def split: sum.splits if_splits)

lemma match_entries_none:
  "\<forall>side \<in> set sides. match_entry S a sid (ps_share side) (serverTag side) None = None \<Longrightarrow>
   match_entries S a sid (map side_entry sides) sk = sk"
proof (induction sides arbitrary: sk)
  case (Cons side sides)
  then show ?case
    using match_entry_None [of S a sid "ps_share side" "serverTag side" sk]
    by (simp add: match_entries_def side_entry_def)
qed (simp add: match_entries_def)

lemma match_entries_last:
  assumes "match_entry S a sid (ps_share side) (serverTag side) sk' = Some k"
    and "\<And>sk. match_entry S a sid (ps_share side) (serverTag side) sk = Some k"
    and "\<forall>other \<in> set post. match_entry S a sid (ps_share other) (serverTag other) None = None"
  shows "match_entries S a sid (map side_entry (pre @ side # post)) sk = Some k"
  using match_entries_none [OF assms(3), of "Some k"] assms(2)
  by (simp add: match_entries_def side_entry_def)

lemma match_conf_none:
  "\<forall>other \<in> set sides. clientTag other \<noteq> tag \<Longrightarrow> match_conf sides tag i m = m"
  by (induction sides arbitrary: i) (auto simp: macEqual_def)

lemma match_conf_last:
  "\<forall>other \<in> set post. clientTag other \<noteq> clientTag side \<Longrightarrow>
   match_conf (pre @ side # post) (clientTag side) i m = i + int (length pre)"
  by (induction pre arbitrary: i m) (simp_all add: match_conf_none macEqual_def)

lemma last_index:
  assumes "x \<in> set xs"
  shows "\<exists>i < length xs. xs ! i = x \<and> (\<forall>j. i < j \<and> j < length xs \<longrightarrow> xs ! j \<noteq> x)"
proof -
  obtain pre post where xs: "xs = pre @ x # post" "x \<notin> set post" using split_list_last [OF assms] by blast
  have "xs ! j \<noteq> x" if "length pre < j" "j < length xs" for j
    using that xs nth_mem [of "j - Suc (length pre)" post] by (auto simp: nth_append nth_Cons')
  then show ?thesis using xs by (intro exI [of _ "length pre"]) auto
qed

lemma live_candidate:
  assumes "candidates now ord s rs = Inr (cs, rs')" and "visits ord (s_m s)" and "store_ok h s"
    and "mget (s_m s) (pasteKey prs) = Some p" and "is_live now p"
  shows "prs \<in> set cs"
proof -
  have "(pasteKey prs, p) \<in> set (live_pastes now s)"
    using assms(4,5) by (auto simp: live_pastes_def dest: mget_Some_mem)
  moreover have "p_prs p = prs"
    using store_ok_get [OF assms(3,4)] by (simp add: paste_ok_def)
  ultimately have "prs \<in># image_mset (\<lambda>(k, p). p_prs p) (mset (live_pastes now s))" by force
  then show ?thesis
    using candidates_mset [OF assms(1,2)] by (metis mset_subset_eq_add_left mset_subset_eqD set_mset_mset)
qed

lemma both_match:
  assumes ok: "suite_ok S" and a: "newPakeSide S prs ci sid rs = Inr (a, rs')"
    and sides: "list_all2 (side_for S ci sid (ps_share a)) cands sides" and len: "length sides < 65536"
    and i: "i < length cands" "cands ! i = prs"
    and later: "\<forall>j. i < j \<and> j < length cands \<longrightarrow> \<not> clash S a sid (sides ! i) (sides ! j)"
  shows "matchOffer S a sid (offer_bytes (map side_entry sides)) = Inr (a\<lparr>ps_sk := ps_sk (sides ! i)\<rparr>)"
    and "matchConfirmation sides (clientTag (sides ! i)) = int i"
proof -
  have l: "length sides = length cands" using list_all2_lengthD [OF sides] by simp
  have split: "sides = take i sides @ sides ! i # drop (Suc i) sides"
    using i l by (intro id_take_nth_drop) simp
  have si: "side_for S ci sid (ps_share a) prs (sides ! i)"
    using list_all2_nthD [OF sides i(1)] i(2) by simp
  have post: "\<not> clash S a sid (sides ! i) other" if "other \<in> set (drop (Suc i) sides)" for other
    using that later l by (auto simp: in_set_conv_nth)
  have "match_entries S a sid (map side_entry sides) None = Some (ps_sk (sides ! i))"
    by (subst split, rule match_entries_last) (use entry_matches [OF ok a si] post in \<open>auto simp: clash_def\<close>)
  then show "matchOffer S a sid (offer_bytes (map side_entry sides)) = Inr (a\<lparr>ps_sk := ps_sk (sides ! i)\<rparr>)"
    using matchOffer_entries [OF sides_entries [OF ok sides], of S a sid] len by simp
  have "match_conf sides (clientTag (sides ! i)) 0 (- 1) = 0 + int (length (take i sides))"
    by (subst split, rule match_conf_last) (use post in \<open>auto simp: clash_def\<close>)
  then show "matchConfirmation sides (clientTag (sides ! i)) = int i"
    using i l by (simp add: matchConfirmation_def clientTag_def confirm_def macLen_def)
qed

section \<open>Delivery\<close>

text \<open>C21: A paste is delivered to whoever knows its code. Let a client and a daemon share a TLS
  session, let the limiter admit the connection, and let the store hold a live paste under the
  client's secret, before the offer and (whatever other connections do meanwhile) at the
  confirmation. Unless the confirmation of another secret clashes with the right one, there are
  two byte streams, each side's output being the other's input, over which the client's
  \<^verbatim>\<open>exchange\<close> returns exactly the stored payload, the daemon's \<^verbatim>\<open>handshake\<close> ends
  without an error, and the paste is charged one fetch.\<close>

theorem exchange_delivers:
  assumes "suite_ok S" and "store_ok (dm_heap d) (dm_store d)" and "visits ord (s_m (dm_store d))"
    and "allowPeer (ht_peer t) host (dm_limiter d) = (True, l1)"
    and "allowExchange (ht_exchange t) l1 = (True, l2)"
    and "tls_binding ct = Inr sid" and "tls_deadline2 ct = None" and "openExchange dt = Inr sid"
    and "newPakeSide S prs (channelID (dm_hostID d)) sid rs = Inr (a, rs')"
    and "candidates (ht_cands t) ord (dm_store d) (dm_rand d) = Inr (cands, rs1)"
    and "buildOffer S cands (channelID (dm_hostID d)) sid (ps_share a) rs1 = (Inr (sides, offer), rs2)"
    and "mget (s_m (dm_store d)) (pasteKey prs) = Some p0" and "is_live (ht_cands t) p0"
    and "\<forall>i j. i < j \<and> j < length cands \<and> cands ! i = prs \<and> cands ! j \<noteq> prs \<longrightarrow>
           \<not> clash S a sid (sides ! i) (sides ! j)"
    and "d1 = world (d\<lparr>dm_limiter := l2, dm_rand := rs2\<rparr>)"
    and "store_ok (dm_heap d1) (dm_store d1)" and "mget (s_m (dm_store d1)) (pasteKey prs) = Some p"
    and "is_live (ht_take t) p" and "body = sl_read (dm_heap d1) (p_data p)"
    and "length body \<le> maxPasteSize" and "2 * maxFrame \<le> n" and "2 * maxFrame \<le> m"
  shows "\<exists>up down c1 c2 d2.
    exchange S ct prs (dm_hostID d) rs \<lparr>c_in = down, c_out = [], c_room = n\<rparr> = (Inr body, c1)
    \<and> handshake S dt (Inr host) t ord world d \<lparr>c_in = up, c_out = [], c_room = m\<rparr> = (None, d2, c2)
    \<and> c_out c1 = up \<and> c_out c2 = down
    \<and> mget (s_m (dm_store d2)) (pasteKey prs) = Some (taken_paste p)"
proof -
  note bo = buildOffer_sides [OF assms(11)]
  have "prs \<in> set cands" by (rule live_candidate [OF assms(10,3,2,12,13)])
  then obtain i where i: "i < length cands" "cands ! i = prs"
    and last: "\<forall>j. i < j \<and> j < length cands \<longrightarrow> cands ! j \<noteq> prs"
    using last_index by metis
  have ls: "length sides = length cands" using list_all2_lengthD [OF bo(1)] by simp
  have len: "length sides < 65536" using bo(3) ls by (simp add: go_const)
  note match = both_match [OF assms(1,9) bo(1) len i]
  have later: "\<forall>j. i < j \<and> j < length cands \<longrightarrow> \<not> clash S a sid (sides ! i) (sides ! j)"
    using assms(14) i last by blast
  have lo: "length offer \<le> maxOfferLen"
    using offer_length [OF sides_entries [OF assms(1) bo(1)]] bo(2,3) ls by (simp add: maxOfferLen_def)
  let ?side = "sides ! i" and ?a = "a\<lparr>ps_sk := ps_sk (sides ! i)\<rparr>"
  let ?sealed = "sealed_bytes S ?side body"
  have tag: "clientTag ?a = clientTag ?side" by (simp add: clientTag_def)
  let ?up = "frame (hello_msg a) @ frame (clientTag ?side)" and ?down = "frame offer @ frame ?sealed"
  let ?c = "\<lparr>c_in = ?down, c_out = [], c_room = n\<rparr>" and ?e = "\<lparr>c_in = ?up, c_out = [], c_room = m\<rparr>"
  let ?f = "?e\<lparr>c_in := frame (clientTag ?side), c_out := frame offer, c_room := m - (length offer + 4)\<rparr>"
  have lsealed: "length ?sealed \<le> maxFrame"
    using suite_overhead [OF assms(1)] assms(20) by (simp add: sealed_bytes_def go_const)
  have "exchange S ct prs (dm_hostID d) rs ?c
      = (pake_open S ?a ?sealed, ?c\<lparr>c_in := [], c_out := ?up, c_room := n - 73\<rparr>)"
    using exchange_flow [OF assms(1,6,7,9) match(1) [OF later, folded bo(2)] lo lsealed, of ?c "[]"]
      assms(21) by (simp add: tag go_const)
  moreover have "pake_open S ?a ?sealed = Inr body"
    unfolding sealed_bytes_def by (rule open_sealed [OF assms(1)]) simp
  moreover have "hs_offer S dt (Inr host) t ord d ?e
      = (Inr (host, sides, cands), d\<lparr>dm_limiter := l2, dm_rand := rs2\<rparr>, ?f)"
    using offer_flow [OF assms(4,5,8) _ newPakeSide_length [OF assms(1,9)] assms(10,11) lo, of ?e]
      lo assms(22) by (simp add: go_const)
  moreover have room: "length body + 20 \<le> m - (length offer + 4)" using lo assms(20,22) by (simp add: go_const)
  have "\<exists>d2. hs_confirm S host t sides cands d1 ?f
      = (None, d2, ?f\<lparr>c_in := [], c_out := ?down, c_room := c_room ?f - (length body + 20)\<rparr>)
      \<and> dm_store d2 = (dm_store d1)\<lparr>s_m := mput (pasteKey prs) (taken_paste p) (s_m (dm_store d1))\<rparr>"
    using confirm_flow [where tag = "clientTag ?side" and rest = "[]" and c = ?f and host = host,
        OF assms(1,16) _ assms(18) match(2) [OF later]] assms(17,20) room i(2)
    by (auto simp: assms(19))
  ultimately show ?thesis
    by (intro exI [of _ ?up] exI [of _ ?down]) (auto simp: handshake_def assms(15))
qed

lemma fresh_bucket:
  assumes "b_last b = 0" and "1 \<le> k" and "k < 2 ^ 53"
  shows "fst (bucket_take b now (of_int k) r)"
proof -
  have "fl (of_int k) = (of_int k :: rat)" using assms by (intro fl_int) simp
  then show ?thesis
    using assms by (simp add: bucket_take_def Let_def time_IsZero_def time_Sub_def go_const)
qed

lemma fresh_admitted:
  "mget (l_ip l) addr = None \<Longrightarrow> fst (allowPeer 1 addr l)"
  "b_last (l_global l) = 0 \<Longrightarrow> fst (allowExchange now l)"
  using fresh_bucket [of "zero_ipState\<lparr>ip_lastSeen := 1\<rparr>" rateBurst 1 peerRate]
    fresh_bucket [of "l_global l" globalBurst now "of_int globalPerSecond"]
  by (simp_all add: allowPeer_def allowExchange_def zero_ipState_def time_Before_def Let_def
      case_prod_unfold rateBurst_def globalBurst_def)

definition demo_daemon :: daemon where
  "demo_daemon = \<lparr>dm_store = demo_store, dm_limiter = newLimiter, dm_peers = newPeerTable 1,
     dm_net = demo_filter, dm_hostID = ''H'', dm_port = 7391, dm_started = 1, dm_mdns = NilDiscovery, dm_lastUsed = 0,
     dm_heap = demo_heap, dm_rand = 0 # 0 # 0 # replicate 256 0\<rparr>"

definition demo_times :: hs_times where
  "demo_times = \<lparr>ht_peer = 1, ht_exchange = 1, ht_cands = Second, ht_fail = Second, ht_take = Second,
     ht_touch = Second\<rparr>"

lemma demo_live: "is_live Second demo_paste" "mget (s_m demo_store) (pasteKey [1, 2]) = Some demo_paste"
    "sl_read demo_heap (p_data demo_paste) = [104, 105]"
  by (simp_all add: is_live_def demo_paste_def demo_store_def demo_heap_def time_After_def mget_def go_const)

lemma demo_parts:
  "dm_store demo_daemon = demo_store" "dm_heap demo_daemon = demo_heap" "dm_hostID demo_daemon = ''H''"
  "ht_cands demo_times = Second" "ht_take demo_times = Second"
  "openExchange demo_tls = Inr [1]" "tls_binding demo_tls = Inr [1]" "tls_deadline2 demo_tls = None"
  by (simp_all add: demo_daemon_def demo_times_def openExchange_def demo_tls_def)

lemma demo_admitted:
  obtains l1 l2 where "allowPeer (ht_peer demo_times) ''10.0.0.1'' (dm_limiter demo_daemon) = (True, l1)"
    and "allowExchange (ht_exchange demo_times) l1 = (True, l2)"
proof -
  have l: "mget (l_ip newLimiter) ''10.0.0.1'' = None" "b_last (l_global newLimiter) = 0"
    by (simp_all add: newLimiter_def zero_bucket_def)
  obtain l1 where p: "allowPeer (ht_peer demo_times) ''10.0.0.1'' (dm_limiter demo_daemon) = (True, l1)"
    using fresh_admitted(1) [OF l(1)] by (cases "allowPeer 1 ''10.0.0.1'' newLimiter")
      (simp add: demo_times_def demo_daemon_def)
  have "l_global l1 = l_global newLimiter"
    using p by (auto simp: allowPeer_def demo_daemon_def Let_def split: if_splits prod.splits)
  then obtain l2 where "allowExchange (ht_exchange demo_times) l1 = (True, l2)"
    using fresh_admitted(2) [of l1 1] l(2) by (cases "allowExchange 1 l1") (simp add: demo_times_def)
  then show ?thesis using p that by blast
qed

abbreviation demo_side :: "byte pakeSide" where
  "demo_side \<equiv> \<lparr>ps_scalar = 1, ps_share = toy_share, ps_sk = []\<rparr>"

abbreviation demo_cands :: "bytes list" where
  "demo_cands \<equiv> [[9, 9], [9, 9], [9, 9], [1, 2]]"

lemma demo_offer:
  shows "newPakeSide toy_suite [1, 2] (channelID (dm_hostID demo_daemon)) [1] (replicate 64 0) = Inr (demo_side, [])"
    and "candidates (ht_cands demo_times) (s_m demo_store) (dm_store demo_daemon) (dm_rand demo_daemon)
      = Inr (demo_cands, replicate 256 0)"
    and "\<exists>offer. buildOffer toy_suite demo_cands (channelID (dm_hostID demo_daemon)) [1] (ps_share demo_side) (replicate 256 0)
      = (Inr (replicate 4 (toy_done [1]), offer), [])"
proof -
  show "newPakeSide toy_suite [1, 2] (channelID (dm_hostID demo_daemon)) [1] (replicate 64 0) = Inr (demo_side, [])"
    using toy_newSide [of _ _ _ "[]"] by simp
  show "candidates (ht_cands demo_times) (s_m demo_store) (dm_store demo_daemon) (dm_rand demo_daemon)
      = Inr (demo_cands, replicate 256 0)"
    using demo_candidates by (simp add: demo_daemon_def demo_times_def)
  have rs: "replicate 256 (0::byte) = replicate (length demo_cands * 64) 0 @ []"
    and four: "(4::nat) = length demo_cands" by simp_all
  show "\<exists>offer. buildOffer toy_suite demo_cands (channelID (dm_hostID demo_daemon)) [1] (ps_share demo_side) (replicate 256 0)
      = (Inr (replicate 4 (toy_done [1]), offer), [])"
    unfolding buildOffer_def rs four pakeSide.simps toy_offer by (simp add: go_const)
qed

theorem exchange_delivers_witness:
  "\<exists>up down c1 c2 d2.
    exchange toy_suite demo_tls [1, 2] ''H'' (replicate 64 0) \<lparr>c_in = down, c_out = [], c_room = 2 * maxFrame\<rparr>
      = (Inr [104, 105], c1)
    \<and> handshake toy_suite demo_tls (Inr ''10.0.0.1'') demo_times (s_m demo_store) (\<lambda>d. d) demo_daemon
        \<lparr>c_in = up, c_out = [], c_room = 2 * maxFrame\<rparr> = (None, d2, c2)
    \<and> c_out c1 = up \<and> c_out c2 = down"
proof -
  obtain l1 l2 where p: "allowPeer (ht_peer demo_times) ''10.0.0.1'' (dm_limiter demo_daemon) = (True, l1)"
    and x: "allowExchange (ht_exchange demo_times) l1 = (True, l2)" by (rule demo_admitted)
  obtain sides offer where b: "buildOffer toy_suite demo_cands (channelID (dm_hostID demo_daemon)) [1] (ps_share demo_side)
      (replicate 256 0) = (Inr (sides, offer), [])"
    using demo_offer(3) by blast
  have later: "\<forall>i j. i < j \<and> j < length demo_cands \<and> demo_cands ! i = [1, 2] \<and> demo_cands ! j \<noteq> [1, 2] \<longrightarrow> Q i j" for Q
    by (auto simp: nth_Cons' split: if_splits)
  have sz: "Suc (Suc 0) \<le> maxPasteSize" by (simp add: go_const)
  note run = exchange_delivers [OF toy_suite_ok _ _ p x demo_parts(7,8,6) demo_offer(1,2) b _ _ later, where world = "\<lambda>d. d"
        and p = demo_paste and ?p0.0 = demo_paste and body = "[104, 105]" and n = "2 * maxFrame" and m = "2 * maxFrame"]
  show ?thesis
    using run demo_ok demo_live sz by (simp add: demo_parts(1-5) visits_def) blast
qed

section \<open>What releases a payload\<close>

lemma writeFrame_prefix:
  "writeFrame b c = (e, c') \<Longrightarrow> (\<exists>k. c_out c' = c_out c @ take k (frame b)) \<and> c_in c' = c_in c"
proof -
  assume w: "writeFrame b c = (e, c')"
  have all: "frame b = take (4 + length b) (frame b)" and hd: "take (c_room c) (be_bytes 4 (length b))
      = take (min 4 (c_room c)) (frame b)"
    and bd: "be_bytes 4 (length b) @ take (c_room c - 4) b = take (4 + (c_room c - 4)) (frame b)"
    by (simp_all add: frame_def min_def)
  consider "c' = c" | "c_out c' = c_out c @ take (c_room c) (be_bytes 4 (length b))" "c_in c' = c_in c"
    | "c_out c' = c_out c @ frame b" "c_in c' = c_in c"
    | "c_out c' = c_out c @ be_bytes 4 (length b) @ take (c_room c - 4) b" "c_in c' = c_in c"
    using w by (auto simp: writeFrame_def conn_Write_def frame_def split: if_splits prod.splits option.splits)
  then show ?thesis
  proof cases
    case 1
    then show ?thesis by (auto intro: exI [of _ 0])
  next
    case 2
    then show ?thesis unfolding hd by blast
  next
    case 3
    then show ?thesis using all by metis
  next
    case 4
    then show ?thesis unfolding bd by blast
  qed
qed

lemma match_conf_hit:
  "match_conf sides tag i m = m \<or> (\<exists>j < length sides. match_conf sides tag i m = i + int j \<and> clientTag (sides ! j) = tag)"
proof (induction sides arbitrary: i m)
  case (Cons side sides)
  let ?m = "if macEqual tag (clientTag side) then i else m"
  consider "match_conf sides tag (i + 1) ?m = ?m"
    | j where "j < length sides" "match_conf sides tag (i + 1) ?m = (i + 1) + int j" "clientTag (sides ! j) = tag"
    using Cons.IH by blast
  then show ?case
  proof cases
    case 1
    then show ?thesis by (cases "macEqual tag (clientTag side)") (auto simp: macEqual_def)
  next
    case 2
    then show ?thesis by (intro disjI2 exI [of _ "Suc j"]) simp
  qed
qed simp

lemma matchConfirmation_hit:
  assumes "\<not> matchConfirmation sides tag < 0"
  shows "\<exists>j < length sides. matchConfirmation sides tag = int j \<and> clientTag (sides ! j) = tag"
  using assms match_conf_hit [of sides tag 0 "- 1"] by (auto simp: matchConfirmation_def split: if_splits)

text \<open>After a confirmation that matches the side \<open>i\<close>.\<close>

lemma confirm_live:
  assumes ok: "suite_ok S" and st: "store_ok (dm_heap d) (dm_store d)"
    and rd: "readFrame macLen c = (Inr tag, c1)" and m: "matchConfirmation sides tag = int i"
    and p: "mget (s_m (dm_store d)) (pasteKey (cands ! i)) = Some p" "is_live (ht_take t) p"
    and res: "hs_confirm S host t sides cands d c = (err, d', c')"
  shows "writeFrame (sealed_bytes S (sides ! i) (sl_read (dm_heap d) (p_data p))) c1 = (err, c')"
    and "dm_store d' = (dm_store d)\<lparr>s_m := mput (pasteKey (cands ! i)) (taken_paste p) (s_m (dm_store d))\<rparr>"
    and "dm_limiter d' = dm_limiter d"
proof -
  obtain body h1 s1 where tk: "store_take (ht_take t) (cands ! i) (dm_heap d) (dm_store d) = (body, h1, s1)"
    by (cases "store_take (ht_take t) (cands ! i) (dm_heap d) (dm_store d)")
  obtain r h2 where seal: "pake_seal S (sides ! i) body h1 = (r, h2)" by (cases "pake_seal S (sides ! i) body h1")
  obtain sealed where sd: "r = Inr sealed"
    "sl_read h2 sealed = sealed_bytes S (sides ! i) (sl_read (dm_heap d) (p_data p))"
    using seal_taken [OF ok st p tk seal] by blast
  have dok: "sl_ok (dm_heap d) (p_data p)" using store_ok_get [OF st p(1)] by (simp add: paste_ok_def)
  have s1: "s1 = (dm_store d)\<lparr>s_m := mput (pasteKey (cands ! i)) (taken_paste p) (s_m (dm_store d))\<rparr>"
    using store_take_live [OF p dok] tk by simp
  show "writeFrame (sealed_bytes S (sides ! i) (sl_read (dm_heap d) (p_data p))) c1 = (err, c')"
    and "dm_store d' = (dm_store d)\<lparr>s_m := mput (pasteKey (cands ! i)) (taken_paste p) (s_m (dm_store d))\<rparr>"
    and "dm_limiter d' = dm_limiter d"
    using res take_facts(4) [OF st p tk]
    by (simp_all add: hs_confirm_def rd Let_def m tk seal sd s1 touch_def split: prod.splits) auto
qed

lemma confirm_dead:
  assumes "readFrame macLen c = (Inr tag, c1)" and "matchConfirmation sides tag = int i"
    and "\<not> (\<exists>p. mget (s_m (dm_store d)) (pasteKey (cands ! i)) = Some p \<and> is_live (ht_take t) p)"
  shows "hs_confirm S host t sides cands d c = (Some ErrProtocol, d, c1)"
proof -
  have "store_take (ht_take t) (cands ! i) (dm_heap d) (dm_store d) = (NilSlice, dm_heap d, dm_store d)"
    using assms(3) by (intro store_take_none) (auto split: option.splits)
  then show ?thesis by (simp add: hs_confirm_def assms Let_def)
qed

lemma match_conf_ge: "i \<le> m \<or> tag \<in> clientTag ` set sides \<Longrightarrow> i \<le> match_conf sides tag i m"
proof (induction sides arbitrary: i m)
  case (Cons side sides)
  show ?case
  proof (cases "tag = clientTag side")
    case True
    have "i + 1 \<le> match_conf sides tag (i + 1) i \<or> match_conf sides tag (i + 1) i = i"
      using match_conf_hit [of sides tag "i + 1" i] by auto
    then show ?thesis using True by (auto simp: macEqual_def)
  next
    case False
    then consider "tag \<in> clientTag ` set sides" | "i \<le> m" using Cons.prems by auto
    then show ?thesis
    proof cases
      case 1
      then show ?thesis using Cons.IH [of "i + 1" m] False by (simp add: macEqual_def)
    next
      case 2
      then show ?thesis using match_conf_hit [of sides tag "i + 1" m] False by (auto simp: macEqual_def)
    qed
  qed
qed auto

lemma matchConfirmation_miss: "matchConfirmation sides tag < 0 \<longleftrightarrow> tag \<notin> clientTag ` set sides"
proof
  assume "matchConfirmation sides tag < 0"
  then show "tag \<notin> clientTag ` set sides"
    using match_conf_ge [of 0 "- 1" tag sides] by (auto simp: matchConfirmation_def macLen_def split: if_splits)
next
  assume "tag \<notin> clientTag ` set sides"
  then show "matchConfirmation sides tag < 0"
    using matchConfirmation_hit [of sides tag] by (metis imageI nth_mem)
qed

lemma writeFrame_whole: "writeFrame b c = (None, c') \<Longrightarrow> c_out c' = c_out c @ frame b"
  using writeFrame_None [of b c c'] by simp

text \<open>
  The two ways a confirmation can end. Either the daemon writes the frame with the sealed payload of
  a live paste, up to where the connection breaks, and charges that paste one fetch; the frame it read
  was the client's tag of the side at the same index. Or it writes nothing, fails, and keeps its state;
  a tag of no side is counted as a failure of the address.
\<close>

definition released ::
  "('e, 's) suite \<Rightarrow> hs_times \<Rightarrow> 's pakeSide list \<Rightarrow> bytes list \<Rightarrow> daemon \<Rightarrow> conn
    \<Rightarrow> go_error option \<Rightarrow> daemon \<Rightarrow> conn \<Rightarrow> bool" where
  "released S t sides cands d c err d' c' \<longleftrightarrow>
     (\<exists>i p. i < length cands \<and> c_in c = frame (clientTag (sides ! i)) @ c_in c'
        \<and> mget (s_m (dm_store d)) (pasteKey (cands ! i)) = Some p \<and> is_live (ht_take t) p
        \<and> (\<exists>k. c_out c' = c_out c @ take k (frame (sealed_bytes S (sides ! i) (sl_read (dm_heap d) (p_data p)))))
        \<and> (err = None \<longrightarrow> c_out c' = c_out c @ frame (sealed_bytes S (sides ! i) (sl_read (dm_heap d) (p_data p))))
        \<and> dm_store d' = (dm_store d)\<lparr>s_m := mput (pasteKey (cands ! i)) (taken_paste p) (s_m (dm_store d))\<rparr>
        \<and> dm_limiter d' = dm_limiter d)"

definition withheld ::
  "hs_times \<Rightarrow> string \<Rightarrow> 's pakeSide list \<Rightarrow> daemon \<Rightarrow> conn \<Rightarrow> go_error option \<Rightarrow> daemon \<Rightarrow> conn \<Rightarrow> bool" where
  "withheld t host sides d c err d' c' \<longleftrightarrow>
     err \<noteq> None \<and> c_out c' = c_out c
     \<and> d' = (if \<exists>tag c1. readFrame macLen c = (Inr tag, c1) \<and> tag \<notin> clientTag ` set sides
          then d\<lparr>dm_limiter := limiter_fail (ht_fail t) host (dm_limiter d)\<rparr> else d)"

lemma confirm_outcome:
  assumes "suite_ok S" and "store_ok (dm_heap d) (dm_store d)" and len: "length sides = length cands"
    and res: "hs_confirm S host t sides cands d c = (err, d', c')"
  shows "released S t sides cands d c err d' c' \<or> withheld t host sides d c err d' c'"
proof (cases "readFrame macLen c")
  case (Pair r c1)
  have out: "c_out c1 = c_out c"
    using Pair by (auto simp: readFrame_def io_ReadFull_def Let_def split: if_splits)
  consider e where "r = Inl e" | tag where "r = Inr tag" "tag \<notin> clientTag ` set sides"
    | tag where "r = Inr tag" "tag \<in> clientTag ` set sides" by (cases r) auto
  then show ?thesis
  proof cases
    case (3 tag)
    then obtain i where i: "i < length sides" "matchConfirmation sides tag = int i" "clientTag (sides ! i) = tag"
      using matchConfirmation_hit matchConfirmation_miss by blast
    note rd = Pair [unfolded 3(1)]
    have inp: "c_in c = frame tag @ c_in c1" using readFrame_sound [OF rd] by blast
    show ?thesis
    proof (cases "\<exists>p. mget (s_m (dm_store d)) (pasteKey (cands ! i)) = Some p \<and> is_live (ht_take t) p")
      case True
      then obtain p where p: "mget (s_m (dm_store d)) (pasteKey (cands ! i)) = Some p" "is_live (ht_take t) p" by blast
      note live = confirm_live [OF assms(1,2) rd i(2) p res]
      have "err = None \<longrightarrow> c_out c' = c_out c1 @ frame (sealed_bytes S (sides ! i) (sl_read (dm_heap d) (p_data p)))"
        using writeFrame_whole live(1) by blast
      then have "released S t sides cands d c err d' c'"
        using writeFrame_prefix [OF live(1)] live(2,3) out inp i p len unfolding released_def by metis
      then show ?thesis ..
    next
      case False
      from confirm_dead [OF rd i(2) False, where S = S and host = host]
      have "err = Some ErrProtocol" "d' = d" "c' = c1" using res by simp_all
      then show ?thesis using out 3(2) rd by (simp add: withheld_def)
    qed
  qed (use res Pair out matchConfirmation_miss [of sides] in \<open>auto simp: hs_confirm_def withheld_def\<close>)
qed

lemma readHello_out: "readHello c = (r, c') \<Longrightarrow> c_out c' = c_out c"
  by (auto simp: readHello_def readFrame_def io_ReadFull_def Let_def split: if_splits prod.splits sum.splits)

text \<open>The phase of the offer: nothing is offered, or the sides of the live secrets are, in their order.\<close>

lemma offer_outcome:
  assumes "hs_offer S tls remote t ord d c = (r, d1, c1)"
  shows "(\<exists>e. r = Inl e) \<and> c_out c1 = c_out c \<and> dm_store d1 = dm_store d \<and> dm_heap d1 = dm_heap d
    \<or> (\<exists>host sid share cands sides rs rs' l0 l. remote = Inr host \<and> openExchange tls = Inr sid
        \<and> allowPeer (ht_peer t) host (dm_limiter d) = (True, l0) \<and> allowExchange (ht_exchange t) l0 = (True, l)
        \<and> fst (readHello c) = Inr share
        \<and> candidates (ht_cands t) ord (dm_store d) (dm_rand d) = Inr (cands, rs)
        \<and> list_all2 (side_for S (channelID (dm_hostID d)) sid share) cands sides
        \<and> d1 = d\<lparr>dm_limiter := l, dm_rand := rs'\<rparr>
        \<and> ((\<exists>e. r = Inl e) \<and> (\<exists>k. c_out c1 = c_out c @ take k (frame (offer_bytes (map side_entry sides))))
           \<or> r = Inr (host, sides, cands) \<and> c_in c1 = c_in (snd (readHello c))
             \<and> c_out c1 = c_out c @ frame (offer_bytes (map side_entry sides))))"
  (is "?none \<or> ?offered")
proof (cases "\<exists>host l l2 sid share ch cands rs sides offer rs'. remote = Inr host
    \<and> allowPeer (ht_peer t) host (dm_limiter d) = (True, l) \<and> openExchange tls = Inr sid
    \<and> readHello c = (Inr share, ch) \<and> allowExchange (ht_exchange t) l = (True, l2)
    \<and> candidates (ht_cands t) ord (dm_store d) (dm_rand d) = Inr (cands, rs)
    \<and> buildOffer S cands (channelID (dm_hostID d)) sid share rs = (Inr (sides, offer), rs')")
  case True
  then obtain host l l2 sid share ch cands rs sides offer rs' where o: "remote = Inr host"
    "allowPeer (ht_peer t) host (dm_limiter d) = (True, l)" "openExchange tls = Inr sid"
    "readHello c = (Inr share, ch)" "allowExchange (ht_exchange t) l = (True, l2)"
    "candidates (ht_cands t) ord (dm_store d) (dm_rand d) = Inr (cands, rs)"
    "buildOffer S cands (channelID (dm_hostID d)) sid share rs = (Inr (sides, offer), rs')" by blast
  obtain e c2 where w: "writeFrame offer ch = (e, c2)" by (cases "writeFrame offer ch")
  have res: "(r, d1, c1) = (case e of Some e \<Rightarrow> Inl e | None \<Rightarrow> Inr (host, sides, cands),
      d\<lparr>dm_limiter := l2, dm_rand := rs'\<rparr>, c2)"
    using assms o w by (auto simp: hs_offer_def Let_def split: option.splits)
  note bo = buildOffer_sides [OF o(7)] and out = readHello_out [OF o(4)]
  have "(\<exists>e'. r = Inl e') \<and> (\<exists>k. c_out c1 = c_out c @ take k (frame offer))
      \<or> r = Inr (host, sides, cands) \<and> c_in c1 = c_in ch \<and> c_out c1 = c_out c @ frame offer"
    using res writeFrame_prefix [OF w] writeFrame_whole [of offer ch c2] w out by (cases e) auto
  then have ?offered using o res bo by fastforce
  then show ?thesis ..
next
  case False
  then have ?none
    using assms readHello_out [of c]
    by (auto simp: hs_offer_def Let_def split: sum.splits prod.splits if_splits)
  then show ?thesis ..
qed

text \<open>C22: A payload leaves the daemon only for a confirmation that proves its secret, and only the
  payload of that secret. In a handshake either nothing is written, or what is written begins with
  the offer of the sides that were made, one for each candidate and in the same order, from this
  connection's session, the share it read and the secret, and the limiter admitted the address and the offer;
  if the offer breaks off, that is all. Then,
  whatever other connections did to the daemon meanwhile, either the frame read is the client's tag of one of
  those sides, and what follows is the frame, up to where the connection breaks, with the payload of the live paste of
  \<^emph>\<open>that side's\<close> secret, sealed under that side's session key, and that paste is
  charged one fetch; or nothing more is written, the handshake fails, and the daemon's
  state is as before, except that a tag of no side is counted against the address.\<close>

theorem payload_guarded:
  assumes "suite_ok S" and "store_ok (dm_heap d) (dm_store d)"
    and "\<And>e. store_ok (dm_heap e) (dm_store e) \<Longrightarrow> store_ok (dm_heap (world e)) (dm_store (world e))"
    and "handshake S tls remote t ord world d c = (err, d', c')"
  shows "err \<noteq> None \<and> c_out c' = c_out c \<and> dm_store d' = dm_store d \<and> dm_heap d' = dm_heap d
    \<or> (\<exists>host sid share cands sides rs l0 l. remote = Inr host \<and> openExchange tls = Inr sid
        \<and> allowPeer (ht_peer t) host (dm_limiter d) = (True, l0) \<and> allowExchange (ht_exchange t) l0 = (True, l)
        \<and> fst (readHello c) = Inr share
        \<and> candidates (ht_cands t) ord (dm_store d) (dm_rand d) = Inr (cands, rs)
        \<and> list_all2 (side_for S (channelID (dm_hostID d)) sid share) cands sides
        \<and> (err \<noteq> None \<and> dm_store d' = dm_store d \<and> dm_heap d' = dm_heap d
             \<and> (\<exists>k. c_out c' = c_out c @ take k (frame (offer_bytes (map side_entry sides))))
           \<or> (\<exists>rs' d1 c1. d1 = world (d\<lparr>dm_limiter := l, dm_rand := rs'\<rparr>)
                \<and> c_in c1 = c_in (snd (readHello c))
                \<and> c_out c1 = c_out c @ frame (offer_bytes (map side_entry sides))
                \<and> (released S t sides cands d1 c1 err d' c' \<or> withheld t host sides d1 c1 err d' c'))))"
proof -
  obtain r d1 c1 where o: "hs_offer S tls remote t ord d c = (r, d1, c1)" by (cases "hs_offer S tls remote t ord d c")
  show ?thesis
  proof (cases r)
    case (Inl e)
    then show ?thesis using offer_outcome [OF o] assms(4) o by (fastforce simp: handshake_def)
  next
    case (Inr x)
    then obtain host sid share cands sides rs rs' l0 l where off: "remote = Inr host" "openExchange tls = Inr sid"
      "allowPeer (ht_peer t) host (dm_limiter d) = (True, l0)" "allowExchange (ht_exchange t) l0 = (True, l)"
      "fst (readHello c) = Inr share" "candidates (ht_cands t) ord (dm_store d) (dm_rand d) = Inr (cands, rs)"
      "list_all2 (side_for S (channelID (dm_hostID d)) sid share) cands sides"
      and d1: "d1 = d\<lparr>dm_limiter := l, dm_rand := rs'\<rparr>" and x: "x = (host, sides, cands)"
      and out: "c_in c1 = c_in (snd (readHello c))" "c_out c1 = c_out c @ frame (offer_bytes (map side_entry sides))"
      using offer_outcome [OF o] by auto
    have "hs_confirm S host t sides cands (world d1) c1 = (err, d', c')"
      using assms(4) o Inr x by (simp add: handshake_def)
    from confirm_outcome [OF assms(1) assms(3) list_all2_lengthD [OF off(7), symmetric] this]
    have "released S t sides cands (world d1) c1 err d' c' \<or> withheld t host sides (world d1) c1 err d' c'"
      using assms(2) by (simp add: d1)
    then show ?thesis using off d1 out by blast
  qed
qed

text \<open>The demonstration's handshake with a client that confirms.\<close>

abbreviation demo_conn :: conn where
  "demo_conn \<equiv> \<lparr>c_in = frame (hello_msg demo_side) @ frame (clientTag (toy_done [1])), c_out = [], c_room = 2 * maxFrame\<rparr>"

lemma demo_handshake:
  "\<exists>d' c'. handshake toy_suite demo_tls (Inr ''10.0.0.1'') demo_times (s_m demo_store) (\<lambda>d. d) demo_daemon demo_conn
     = (None, d', c')"
proof -
  obtain l1 l2 where p: "allowPeer (ht_peer demo_times) ''10.0.0.1'' (dm_limiter demo_daemon) = (True, l1)"
    and x: "allowExchange (ht_exchange demo_times) l1 = (True, l2)" by (rule demo_admitted)
  obtain offer where b: "buildOffer toy_suite demo_cands (channelID (dm_hostID demo_daemon)) [1] (ps_share demo_side)
      (replicate 256 0) = (Inr (replicate 4 (toy_done [1]), offer), [])"
    using demo_offer(3) by blast
  note bo = buildOffer_sides [OF b]
  have lo: "length offer \<le> maxOfferLen"
    using offer_length [OF sides_entries [OF toy_suite_ok bo(1)]] bo(2) by (simp add: go_const)
  let ?d = "demo_daemon\<lparr>dm_limiter := l2, dm_rand := []\<rparr>"
  let ?c = "demo_conn\<lparr>c_in := frame (clientTag (toy_done [1])), c_out := frame offer, c_room := 2 * maxFrame - (length offer + 4)\<rparr>"
  have o: "hs_offer toy_suite demo_tls (Inr ''10.0.0.1'') demo_times (s_m demo_store) demo_daemon demo_conn
      = (Inr (''10.0.0.1'', replicate 4 (toy_done [1]), demo_cands), ?d, ?c)"
    using offer_flow [OF p x demo_parts(6) _ newPakeSide_length [OF toy_suite_ok demo_offer(1)] demo_offer(2) b lo, of demo_conn]
      lo by (simp add: go_const)
  have room: "22 \<le> c_room ?c" using lo by (simp add: go_const)
  have m: "matchConfirmation (replicate 4 (toy_done [1])) (clientTag (toy_done [1])) = int 3"
    by (simp add: matchConfirmation_def macLen_def macEqual_def numeral_eq_Suc)
  have "\<exists>d' c'. hs_confirm toy_suite ''10.0.0.1'' demo_times (replicate 4 (toy_done [1])) demo_cands ?d ?c = (None, d', c')"
    using confirm_flow [OF toy_suite_ok _ _ _ m, of ?d demo_cands demo_paste demo_times ?c "[]" "''10.0.0.1''"]
      demo_ok demo_live room by (auto simp: demo_parts maxPasteSize_def)
  then show ?thesis by (simp add: handshake_def o)
qed

theorem payload_guarded_witness:
  "\<exists>d' c' out side. handshake toy_suite demo_tls (Inr ''10.0.0.1'') demo_times (s_m demo_store) (\<lambda>d. d) demo_daemon demo_conn
       = (None, d', c')
     \<and> side_for toy_suite (channelID ''H'') [1] toy_share [1, 2] side
     \<and> c_out c' = out @ frame (sealed_bytes toy_suite side [104, 105])"
proof -
  obtain d' c' where run: "handshake toy_suite demo_tls (Inr ''10.0.0.1'') demo_times (s_m demo_store) (\<lambda>d. d)
      demo_daemon demo_conn = (None, d', c')"
    using demo_handshake by blast
  have hello: "fst (readHello demo_conn) = Inr toy_share"
    using readHello_frame [of demo_conn demo_side "frame (clientTag (toy_done [1]))"] by (simp add: toy_share_def)
  have own: "prs = [1, 2] \<and> p = demo_paste" if "mget (s_m demo_store) (pasteKey prs) = Some p" "prs \<in> set demo_cands" for prs p
    using that by (auto simp: demo_store_def mget_def pasteKey_def hex_digit_def split: if_splits)
  from payload_guarded [OF toy_suite_ok _ _ run] obtain cands sides d1 c1 rs where
    cands: "candidates (ht_cands demo_times) (s_m demo_store) demo_store (dm_rand demo_daemon) = Inr (cands, rs)"
    and sides: "list_all2 (side_for toy_suite (channelID ''H'') [1] toy_share) cands sides"
    and rel: "released toy_suite demo_times sides cands d1 c1 None d' c'"
    and d1: "dm_store d1 = demo_store" "dm_heap d1 = demo_heap"
    using demo_ok hello by (auto simp: demo_parts withheld_def)
  obtain i p where i: "i < length cands"
    and p: "mget (s_m demo_store) (pasteKey (cands ! i)) = Some p"
    and out: "c_out c' = c_out c1 @ frame (sealed_bytes toy_suite (sides ! i) (sl_read demo_heap (p_data p)))"
    using rel by (auto simp: released_def d1)
  have "cands = demo_cands" using cands demo_offer(2) by (simp add: demo_parts(1))
  then have "cands ! i \<in> set demo_cands" using nth_mem [OF i] by metis
  then have "cands ! i = [1, 2]" "p = demo_paste" using own [OF p] by metis+
  then show ?thesis
    using run out demo_live(3) list_all2_nthD [OF sides i] by auto
qed

end
