(* ===== verification/Control.thy ===== *)
theory Control
  imports Daemon
begin

text \<open>
  The control side of \<^verbatim>\<open>daemon.go\<close>: the handlers behind the Unix socket, the sweep and
  network loops, the accept loop of the data plane, and the set-up of the control socket. A request
  is its body and its query, a response its status and what \<^verbatim>\<open>writeJSON\<close> encodes. What
  the operating system answers is an argument.
\<close>

section \<open>Requests and responses\<close>

text \<open>The bytes a request body yields, and the error it ends with, if not at its end.\<close>

record request =
  rq_bytes :: bytes
  rq_error :: "go_error option"
  rq_query :: "(string \<times> string) list"

definition q_Get :: "(string \<times> string) list \<Rightarrow> string \<Rightarrow> string" where
  "q_Get q k = (case map_of q k of Some v \<Rightarrow> v | None \<Rightarrow> [])"

datatype response =
    HttpError nat go_error
  | NoContent
  | PostedJSON string gotime
  | ListJSON string nat "paste list"
  | PeersJSON "peer list" diagnosis int int duration "string list"
  | Panicked

definition StatusBadRequest :: nat where [go_const]: "StatusBadRequest = 400"
definition StatusNotFound :: nat where [go_const]: "StatusNotFound = 404"
definition StatusRequestEntityTooLarge :: nat where [go_const]: "StatusRequestEntityTooLarge = 413"
definition StatusInternalServerError :: nat where [go_const]: "StatusInternalServerError = 500"
definition StatusInsufficientStorage :: nat where [go_const]: "StatusInsufficientStorage = 507"

text \<open>\<^verbatim>\<open>io.ReadAll(io.LimitReader(body, n))\<close>.\<close>

definition ReadAll_limited :: "nat \<Rightarrow> request \<Rightarrow> bytes result" where
  "ReadAll_limited n rq =
     (if n \<le> length (rq_bytes rq) then Inr (take n (rq_bytes rq))
      else case rq_error rq of Some e \<Rightarrow> Inl e | None \<Rightarrow> Inr (rq_bytes rq))"

section \<open>Posting\<close>

record postOptions =
  po_ttl :: duration
  po_maxGets :: int

definition parse_ttl :: "(string \<times> string) list \<Rightarrow> duration result" where
  "parse_ttl q =
     (if q_Get q ''ttl'' = [] then Inr defaultTTL
      else case time_ParseDuration (q_Get q ''ttl'') of
        None \<Rightarrow> Inl (ErrMsg ''ttl must be positive and at most 24h'')
      | Some ttl \<Rightarrow>
          if ttl \<le> 0 \<or> ttl > maxTTL then Inl (ErrMsg ''ttl must be positive and at most 24h'') else Inr ttl)"

definition parse_maxGets :: "(string \<times> string) list \<Rightarrow> int result" where
  "parse_maxGets q =
     (if q_Get q ''max_gets'' = [] then Inr 0
      else case strconv_Atoi (q_Get q ''max_gets'') of
        None \<Rightarrow> Inl (ErrMsg ''max_gets must be a non-negative integer'')
      | Some n \<Rightarrow> if n < 0 then Inl (ErrMsg ''max_gets must be a non-negative integer'') else Inr n)"

definition parsePostOptions :: "(string \<times> string) list \<Rightarrow> postOptions result" where
  "parsePostOptions q =
     and_then (parse_ttl q) (\<lambda>ttl.
     and_then (parse_maxGets q) (\<lambda>n. Inr \<lparr>po_ttl = ttl, po_maxGets = n\<rparr>))"

definition draw_code :: "bool \<Rightarrow> bytes \<Rightarrow> (string \<times> bytes) result" where
  "draw_code digits rs = (if digits then newDigitCode rs else newCode rs)"

lemma rand_Int_shorter: "rand_Int n rs = Inr (v, rs') \<Longrightarrow> 2 \<le> n \<Longrightarrow> length rs' < length rs"
proof (induction n rs rule: rand_Int.induct)
  case (1 n rs)
  have b: "0 < int_bits n" using int_bits_bounds(1) [OF "1.prems"(2)] .
  then have k: "0 < int_bytes n" by (rule int_top_bits(2))
  show ?case
    using "1.prems"(1) b k "1.IH" "1.prems"(2)
    by (subst (asm) rand_Int.simps) (fastforce simp: Let_def split: if_splits)
qed

lemma randIndex_shorter: "randIndex n rs = Inr (v, rs') \<Longrightarrow> length rs' \<le> length rs \<and> (2 \<le> n \<longrightarrow> length rs' < length rs)"
  using rand_Int_shorter [of n rs v rs'] by (auto simp: randIndex_def split: if_splits)

lemma digit_loop_shorter: "digit_loop n rs = Inr (ds, rs') \<Longrightarrow> length rs' \<le> length rs \<and> (0 < n \<longrightarrow> length rs' < length rs)"
proof (induction n arbitrary: rs ds)
  case (Suc n)
  then obtain v rs1 ds' where "randIndex 10 rs = Inr (v, rs1)" "digit_loop n rs1 = Inr (ds', rs')"
    by (auto simp: and_then_Inr_iff)
  then show ?case using Suc.IH randIndex_shorter [of 10 rs v rs1] by fastforce
qed simp

lemma draw_code_shorter:
  assumes "draw_code digits rs = Inr (c, rs')"
  shows "length rs' < length rs"
proof (cases digits)
  case True
  then show ?thesis using assms digit_loop_shorter [of 9] by (auto simp: draw_code_def newDigitCode_def and_then_Inr_iff)
next
  case False
  then obtain i rs1 j rs2 k where r: "randIndex (length words) rs = Inr (i, rs1)"
    "randIndex (length words) rs1 = Inr (j, rs2)" "randIndex (length words) rs2 = Inr (k, rs')"
    using assms by (auto simp: draw_code_def newCode_def and_then_Inr_iff)
  then show ?thesis
    using randIndex_shorter [OF r(1)] randIndex_shorter [OF r(2)] randIndex_shorter [OF r(3)] words_length by simp
qed

text \<open>
  The loop that draws codes until one is free. Each draw uses up randomness; the loop over an endless
  source is its limit.
\<close>

function post_loop ::
  "('e, 's) suite \<Rightarrow> bool \<Rightarrow> string \<Rightarrow> gotime \<Rightarrow> int \<Rightarrow> slice \<Rightarrow> store \<Rightarrow> bytes \<Rightarrow> response \<times> store \<times> bytes" where
  "post_loop S digits label expires maxGets data s rs =
     (case draw_code digits rs of
        Inl e \<Rightarrow> (Panicked, s, rs)
      | Inr (code, rs') \<Rightarrow>
     (case derivePRS S code of
        Inl e \<Rightarrow> (HttpError StatusInternalServerError e, s, rs')
      | Inr prs \<Rightarrow>
     (case store_add (posted label prs expires maxGets data) s of
        Inl e \<Rightarrow>
          if e = ErrCollision then post_loop S digits label expires maxGets data s rs'
          else (HttpError StatusInsufficientStorage e, s, rs')
      | Inr s' \<Rightarrow> (PostedJSON code expires, s', rs'))))"
  by pat_completeness auto
termination
  by (relation "measure (\<lambda>(S, digits, label, expires, maxGets, data, s, rs). length rs)")
    (auto dest: draw_code_shorter)

declare post_loop.simps [simp del]

definition handlePost ::
  "('e, 's) suite \<Rightarrow> gotime \<Rightarrow> gotime \<Rightarrow> request \<Rightarrow> daemon \<Rightarrow> response \<times> daemon" where
  "handlePost S now now' rq d =
     (let d = touch now d
      in case ReadAll_limited (maxPasteSize + 1) rq of
        Inl e \<Rightarrow> (HttpError StatusBadRequest e, d)
      | Inr body \<Rightarrow>
     (case sl_new body (dm_heap d) of (data, h) \<Rightarrow>
      let d = d\<lparr>dm_heap := h\<rparr>
      in if length body > maxPasteSize
         then (HttpError StatusRequestEntityTooLarge (ErrMsg ''paste exceeds 1 MiB''), d)
         else
     (case parsePostOptions (rq_query rq) of
        Inl e \<Rightarrow> (HttpError StatusBadRequest e, d)
      | Inr opts \<Rightarrow>
          let digits = (q_Get (rq_query rq) ''code_style'' = ''digits'');
              expires = time_Round (time_Add now' (po_ttl opts)) Second
          in case post_loop S digits (q_Get (rq_query rq) ''label'') expires (po_maxGets opts) data
                    (dm_store d) (dm_rand d) of
               (resp, s, rs) \<Rightarrow> (resp, d\<lparr>dm_store := s, dm_rand := rs\<rparr>))))"

section \<open>Routing\<close>

text \<open>The patterns of \<^verbatim>\<open>controlMux\<close>: \<^verbatim>\<open>GET\<close> also serves \<^verbatim>\<open>HEAD\<close>, and
  \<^verbatim>\<open>{prs}\<close> stands for one path segment.\<close>

datatype route = RoutePost | RouteList | RoutePeers | RouteDelete string | RouteDeleteAll

definition controlMux :: "string \<Rightarrow> string \<Rightarrow> route option" where
  "controlMux method path =
     (if path = ''/pastes''
      then (if method = ''POST'' then Some RoutePost
            else if method \<in> {''GET'', ''HEAD''} then Some RouteList
            else if method = ''DELETE'' then Some RouteDeleteAll else None)
      else if path = ''/peers'' \<and> method \<in> {''GET'', ''HEAD''} then Some RoutePeers
      else if method = ''DELETE'' \<and> prefix ''/pastes/'' path \<and> drop 8 path \<noteq> [] \<and> CHR ''/'' \<notin> set (drop 8 path)
      then Some (RouteDelete (drop 8 path)) else None)"

lemma hex_encode_no_slash: "CHR ''/'' \<notin> set (hex_encode bs)"
proof -
  have "hex_value (CHR ''/'') = None" by (simp add: hex_value_def)
  then have d: "CHR ''/'' \<noteq> hex_digit n" if "n < 16" for n
    using hex_value_digit [OF that] by (metis option.distinct(1))
  show ?thesis
    by (induction bs rule: hex_encode.induct) (simp_all add: d [OF unat_byte_digits(1)] d [OF unat_byte_digits(2)])
qed

lemma controlMux_delete:
  assumes "prs \<noteq> []"
  shows "controlMux ''DELETE'' (''/pastes'' @ ''/'' @ hex_encode prs) = Some (RouteDelete (hex_encode prs))"
proof -
  have "hex_encode prs \<noteq> []" using assms length_hex_encode [of prs] by (metis length_0_conv mult_eq_0_iff zero_neq_numeral)
  then show ?thesis using hex_encode_no_slash by (simp add: controlMux_def)
qed

section \<open>The other handlers\<close>

definition handleList :: "gotime \<Rightarrow> (string \<times> paste) list \<Rightarrow> daemon \<Rightarrow> response \<times> daemon" where
  "handleList now ord d =
     (let d = touch now d in (ListJSON (dm_hostID d) (dm_port d) (store_list ord), d))"

definition handleDelete :: "gotime \<Rightarrow> string \<Rightarrow> daemon \<Rightarrow> response \<times> daemon" where
  "handleDelete now prs_hex d =
     (let d = touch now d
      in case hex_decode prs_hex of
        None \<Rightarrow> (HttpError StatusNotFound (ErrMsg ''no such paste''), d)
      | Some prs \<Rightarrow>
          (case store_del prs (dm_heap d) (dm_store d) of
             (ok, h, s) \<Rightarrow>
               let d = d\<lparr>dm_heap := h, dm_store := s\<rparr>
               in if \<not> ok then (HttpError StatusNotFound (ErrMsg ''no such paste''), d) else (NoContent, d)))"

definition handleDeleteAll :: "gotime \<Rightarrow> (string \<times> paste) list \<Rightarrow> daemon \<Rightarrow> response \<times> daemon" where
  "handleDeleteAll now ord d =
     (let d = touch now d
      in case store_clear ord (dm_heap d) (dm_store d) of
           (h, s) \<Rightarrow> (NoContent, d\<lparr>dm_heap := h, dm_store := s\<rparr>))"

text \<open>
  The polling loop over what it sees: whether the wait was not cancelled, the number of peers and
  the clock after each wait. The result is the number of polls.
\<close>

fun poll_loop :: "gotime \<Rightarrow> gotime \<Rightarrow> (bool \<times> nat \<times> gotime) list \<Rightarrow> nat" where
  "poll_loop deadline now [] = 0"
| "poll_loop deadline now ((ok, n, now') # obs) =
     (if \<not> time_Before now deadline then 0
      else if \<not> ok then 1
      else if n > 0 then 1
      else Suc (poll_loop deadline now' obs))"

text \<open>
  The calls through the interface: a nil pointer is a responder without fields, so \<^verbatim>\<open>query\<close>
  panics as soon as it has a packet to send, \<^verbatim>\<open>networkChanged\<close> at once.
\<close>

definition discovery_query :: "dnslib \<Rightarrow> socket \<Rightarrow> netFilter \<Rightarrow> discovery \<Rightarrow> discovery result" where
  "discovery_query L sk f m =
     (case m of
        NilDiscovery \<Rightarrow> Inl ErrPanic
      | Discovery (Some r) \<Rightarrow> Inr (Discovery (Some (mdns_query L sk f r)))
      | Discovery None \<Rightarrow> (if dns_PackQuery L mdnsService = None then Inr m else Inl ErrPanic))"

definition discovery_networkChanged ::
  "dnslib \<Rightarrow> socket \<Rightarrow> netFilter \<Rightarrow> discovery \<Rightarrow> discovery result" where
  "discovery_networkChanged L sk f m =
     (case m of
        Discovery (Some r) \<Rightarrow> Inr (Discovery (Some (networkChanged L sk f r)))
      | _ \<Rightarrow> Inl ErrPanic)"

definition waitForPeers ::
  "dnslib \<Rightarrow> socket \<Rightarrow> gotime \<Rightarrow> duration \<Rightarrow> (bool \<times> nat \<times> gotime) list \<Rightarrow> daemon \<Rightarrow> (nat \<times> daemon) result" where
  "waitForPeers L sk now wait obs d =
     (if length (pt_m (dm_peers d)) > 0 \<or> time_Sub now (dm_started d) > peerWarmup then Inr (0, d)
      else and_then (if dm_mdns d \<noteq> NilDiscovery then discovery_query L sk (dm_net d) (dm_mdns d) else Inr (dm_mdns d))
             (\<lambda>m. Inr (poll_loop (time_Add now wait) now obs, d\<lparr>dm_mdns := m\<rparr>)))"

text \<open>\<^verbatim>\<open>d.Round(m)\<close> rounds halves away from zero.\<close>

definition duration_Round :: "duration \<Rightarrow> duration \<Rightarrow> duration" where
  "duration_Round d m =
     (let r = \<bar>d\<bar> mod m; a = (if r + r < m then \<bar>d\<bar> - r else \<bar>d\<bar> + m - r)
      in if d < 0 then - a else a)"

definition own_peer :: "gotime \<Rightarrow> daemon \<Rightarrow> peer" where
  "own_peer now d =
     \<lparr>pe_HostID = dm_hostID d, pe_Hostname = ''this machine'',
      pe_Addr = JoinHostPort ''127.0.0.1'' (strconv_Itoa (int (dm_port d))), pe_LastSeen = now\<rparr>"

text \<open>The daemon may change while the handler waits (\<open>world\<close>); \<open>ord\<close> is the order in which the
  table is then listed.\<close>

definition handlePeers ::
  "dnslib \<Rightarrow> socket \<Rightarrow> advice \<Rightarrow> gotime \<Rightarrow> gotime \<Rightarrow> (string \<times> string) list \<Rightarrow> (bool \<times> nat \<times> gotime) list
    \<Rightarrow> (daemon \<Rightarrow> daemon) \<Rightarrow> (daemon \<Rightarrow> (string \<times> peer) list) \<Rightarrow> daemon \<Rightarrow> response \<times> daemon" where
  "handlePeers L sk adv now now' q obs world ord d =
     (let d = touch now d
      in case (case time_ParseDuration (q_Get q ''wait'') of
                 Some wait \<Rightarrow>
                   if wait > 0 then and_then (waitForPeers L sk now wait obs d) (\<lambda>(n, d). Inr (world d)) else Inr d
               | None \<Rightarrow> Inr d) of
        Inl e \<Rightarrow> (Panicked, d)
      | Inr d \<Rightarrow>
          let peers = [own_peer now' d] @ peers_list (ord d)
          in (PeersJSON peers (peers_diagnostic now' adv (dm_peers d)) (pt_packets (dm_peers d))
            (pt_anyPackets (dm_peers d)) (duration_Round (time_Sub now' (dm_started d)) Second)
            (ifaceNames (nf_ifaces (dm_net d))), d))"

section \<open>The loops\<close>

text \<open>One tick of \<^verbatim>\<open>sweepLoop\<close>, with the clock readings of its steps and the orders of its
  loops over maps; the second component tells whether it stops the daemon.\<close>

record sweep_times =
  sw_store :: gotime
  sw_limiter :: gotime
  sw_peers :: gotime
  sw_stop :: gotime

definition sweepTick ::
  "sweep_times \<Rightarrow> (string \<times> paste) list \<Rightarrow> (string \<times> ipState) list \<Rightarrow> (string \<times> peer) list
    \<Rightarrow> (daemon \<Rightarrow> (string \<times> paste) list) \<Rightarrow> daemon \<Rightarrow> bool \<times> daemon" where
  "sweepTick t pord iord rord lord d =
     (case store_sweep (sw_store t) pord (dm_heap d) (dm_store d) of
        (h, s) \<Rightarrow>
          let d = d\<lparr>dm_heap := h, dm_store := s\<rparr>;
              d = d\<lparr>dm_limiter := limiter_sweep (sw_limiter t) iord (dm_limiter d)\<rparr>;
              d = d\<lparr>dm_peers := peers_sweep (sw_peers t) rord (dm_peers d)\<rparr>
          in (shouldStop (sw_stop t) (lord d) d, d))"

text \<open>One round of \<^verbatim>\<open>netLoop\<close>; a panic in this goroutine ends the process.\<close>

definition netTick :: "dnslib \<Rightarrow> socket \<Rightarrow> iface list result \<Rightarrow> daemon \<Rightarrow> daemon result" where
  "netTick L sk net d =
     (case refresh net (dm_net d) of
        (changed, f) \<Rightarrow>
          let d = d\<lparr>dm_net := f\<rparr>
          in if \<not> changed then Inr d
             else let d = d\<lparr>dm_peers := peers_clear (dm_peers d)\<rparr>
                  in if dm_mdns d = NilDiscovery then Inr d
                     else and_then (discovery_networkChanged L sk f (dm_mdns d))
                            (\<lambda>m. Inr (d\<lparr>dm_mdns := m\<rparr>)))"

section \<open>The accept loop\<close>

datatype accept_error = EMFILE | ENFILE | ENOMEM | ENOBUFS | OtherAccept

definition retryableAccept :: "accept_error \<Rightarrow> bool" where
  "retryableAccept e \<longleftrightarrow> e = EMFILE \<or> e = ENFILE \<or> e = ENOMEM \<or> e = ENOBUFS"

text \<open>
  What \<^verbatim>\<open>Accept\<close> returns (with whether the context is cancelled, and whether the wait that
  may follow is), or the end of a handshake that frees its slot.
\<close>

datatype accept_event =
    AcceptFails accept_error bool bool
  | AcceptConn string bool
  | ConnDone

datatype accept_outcome = Retried duration | Stopped | Refused | Served | Freed

record acceptor =
  ac_retry :: duration
  ac_active :: nat
  ac_stopped :: bool

definition serveData_init :: acceptor where
  "serveData_init = \<lparr>ac_retry = acceptRetryFloor, ac_active = 0, ac_stopped = False\<rparr>"

definition serveData_step ::
  "(string \<Rightarrow> bytes option) \<Rightarrow> netFilter \<Rightarrow> accept_event \<Rightarrow> acceptor \<Rightarrow> accept_outcome \<times> acceptor" where
  "serveData_step ip6 f ev a =
     (case ev of
        AcceptFails e cancelled interrupted \<Rightarrow>
          if \<not> cancelled \<and> retryableAccept e
          then if interrupted then (Stopped, a\<lparr>ac_stopped := True\<rparr>)
               else (Retried (ac_retry a), a\<lparr>ac_retry := min (ac_retry a * 2) acceptRetryCeiling\<rparr>)
          else (Stopped, a\<lparr>ac_stopped := True\<rparr>)
      | AcceptConn local is_tls \<Rightarrow>
          let a = a\<lparr>ac_retry := acceptRetryFloor\<rparr>
          in if \<not> serves ip6 local f then (Refused, a)
             else if \<not> is_tls then (Refused, a)
             else if ac_active a < maxConns then (Served, a\<lparr>ac_active := ac_active a + 1\<rparr>)
             else (Refused, a)
      | ConnDone \<Rightarrow> (Freed, a\<lparr>ac_active := ac_active a - 1\<rparr>))"

section \<open>The control socket\<close>

text \<open>
  What the system answers: the permissions of the directory, whether a daemon answers on the socket,
  and the results of the calls that remove, bind and protect it.
\<close>

record socket_env =
  se_path :: "string result"
  se_perm :: "nat result"
  se_dial :: bool
  se_remove :: "go_error option"
  se_notExist :: bool
  se_listen :: "go_error option"
  se_chmod :: "go_error option"

datatype socket_call = SockDial | SockRemove | SockListen | SockChmod | SockClose

text \<open>The result and the calls made, in order.\<close>

definition listenControl :: "socket_env \<Rightarrow> go_error option \<times> socket_call list" where
  "listenControl e =
     (case se_path e of
        Inl err \<Rightarrow> (Some err, [])
      | Inr path \<Rightarrow>
     (case se_perm e of
        Inl err \<Rightarrow> (Some err, [])
      | Inr perm \<Rightarrow>
          if perm \<noteq> 7 * 64 then (Some (ErrMsg ''permissions''), [])
          else if se_dial e then (Some (ErrMsg ''a daemon is already running''), [SockDial])
          else case se_remove e of
            Some err \<Rightarrow>
              if \<not> se_notExist e then (Some err, [SockDial, SockRemove])
              else (case se_listen e of
                  Some err \<Rightarrow> (Some err, [SockDial, SockRemove, SockListen])
                | None \<Rightarrow>
                    (case se_chmod e of
                       Some err \<Rightarrow> (Some err, [SockDial, SockRemove, SockListen, SockChmod, SockClose])
                     | None \<Rightarrow> (None, [SockDial, SockRemove, SockListen, SockChmod])))
          | None \<Rightarrow>
              (case se_listen e of
                  Some err \<Rightarrow> (Some err, [SockDial, SockRemove, SockListen])
                | None \<Rightarrow>
                    (case se_chmod e of
                       Some err \<Rightarrow> (Some err, [SockDial, SockRemove, SockListen, SockChmod, SockClose])
                     | None \<Rightarrow> (None, [SockDial, SockRemove, SockListen, SockChmod])))))"

section \<open>Starting the daemon\<close>

text \<open>
  What the system answers when a daemon starts: the public key of its identity, the ports that can be
  bound (0 stands for any free one), the control socket, and the multicast socket: access to its
  descriptor, its options, binding, looping back, and the host name.
\<close>

datatype sockopt = SO_REUSEADDR | SO_REUSEPORT

record mdns_env =
  me_control :: "go_error option"
  me_setopt :: "sockopt \<Rightarrow> go_error option"
  me_listen :: "go_error option"
  me_loopback :: "go_error option"
  me_hostname :: string

record daemon_env =
  de_identity :: "bytes result"
  de_bind :: "nat \<Rightarrow> nat option option"
  de_sock :: socket_env
  de_mdns :: mdns_env
  de_join :: "string \<Rightarrow> bool"
  de_net :: "iface list result"

text \<open>A listener is known by its address: the port, or none if it is no TCP address. Binding one may
  fail (\<open>None\<close>).\<close>

fun listen_loop :: "(nat \<Rightarrow> nat option option) \<Rightarrow> nat list \<Rightarrow> nat option result" where
  "listen_loop bind [] = Inl (ErrMsg ''data plane: no port available'')"
| "listen_loop bind (p # ps) = (case bind p of None \<Rightarrow> listen_loop bind ps | Some l \<Rightarrow> Inr l)"

definition listenData :: "(nat \<Rightarrow> nat option option) \<Rightarrow> nat option result" where
  "listenData bind = listen_loop bind [dataPort, 0]"

definition listenPort :: "nat option \<Rightarrow> nat result" where
  "listenPort l =
     (case l of None \<Rightarrow> Inl (ErrMsg ''data plane: listener has no TCP address'') | Some port \<Rightarrow> Inr port)"

text \<open>The options are set before the bind; the first one that fails ends it.\<close>

fun set_options :: "(sockopt \<Rightarrow> go_error option) \<Rightarrow> sockopt list \<Rightarrow> go_error option" where
  "set_options setopt [] = None"
| "set_options setopt (opt # opts) =
     (case setopt opt of Some e \<Rightarrow> Some e | None \<Rightarrow> set_options setopt opts)"

definition listenMDNS :: "mdns_env \<Rightarrow> go_error option" where
  "listenMDNS e =
     (case me_control e of
        Some err \<Rightarrow> Some err
      | None \<Rightarrow>
          (case set_options (me_setopt e) [SO_REUSEADDR, SO_REUSEPORT] of
             Some err \<Rightarrow> Some err
           | None \<Rightarrow> me_listen e))"

definition startMDNS ::
  "mdns_env \<Rightarrow> (string \<Rightarrow> bool) \<Rightarrow> netFilter \<Rightarrow> string \<Rightarrow> nat \<Rightarrow> responder option \<times> go_error option" where
  "startMDNS e can_join f hid port =
     (case listenMDNS e of
        Some err \<Rightarrow> (None, Some err)
      | None \<Rightarrow>
          (case me_loopback e of
             Some err \<Rightarrow> (None, Some err)
           | None \<Rightarrow> (Some (snd (syncGroups can_join f (newResponder hid port (me_hostname e)))), None)))"

text \<open>The function \<^verbatim>\<open>startMDNS\<close> returns beside the responder: a goodbye, or nothing.\<close>

definition stopMDNS :: "dnslib \<Rightarrow> socket \<Rightarrow> netFilter \<Rightarrow> responder option \<Rightarrow> responder option" where
  "stopMDNS L sk f m = map_option (\<lambda>r. mdns_send sk f (buildRecords L r 0 (nf_ifaces f)) r) m"

text \<open>Up to the start of its loops. An error of \<^verbatim>\<open>startMDNS\<close> is only logged.\<close>

definition runDaemon :: "daemon_env \<Rightarrow> gotime \<Rightarrow> bytes \<Rightarrow> daemon result" where
  "runDaemon e now rs =
     and_then (de_identity e) (\<lambda>spki.
     and_then (listenData (de_bind e)) (\<lambda>data.
     case listenControl (de_sock e) of
       (Some err, calls) \<Rightarrow> Inl err
     | (None, calls) \<Rightarrow>
         and_then (listenPort data) (\<lambda>port.
         and_then (newStore rs) (\<lambda>(s, rs).
         let f = newNetFilter (de_net e);
             d = touch now \<lparr>dm_store = s, dm_limiter = newLimiter, dm_peers = newPeerTable now, dm_net = f,
                   dm_hostID = hostID spki, dm_port = port, dm_started = now, dm_mdns = NilDiscovery,
                   dm_lastUsed = 0, dm_heap = empty_heap, dm_rand = rs\<rparr>;
             mdns = fst (startMDNS (de_mdns e) (de_join e) f (dm_hostID d) (dm_port d))
         in Inr (d\<lparr>dm_mdns := Discovery mdns\<rparr>)))))"

text \<open>Its end: one of the servers ended, or the context did, by a signal or by \<^verbatim>\<open>sweepLoop\<close>.
  The deferred \<^verbatim>\<open>stopMDNS\<close> runs in both cases.\<close>

datatype daemon_end = ServeEnded "go_error option" | ContextEnded

definition errCanceled :: go_error where
  "errCanceled = ErrMsg ''context canceled''"

definition runDaemon_end :: "dnslib \<Rightarrow> socket \<Rightarrow> daemon_end \<Rightarrow> daemon \<Rightarrow> go_error option \<times> daemon" where
  "runDaemon_end L sk cause d =
     (case cause of ServeEnded err \<Rightarrow> err | ContextEnded \<Rightarrow> Some errCanceled,
      case dm_mdns d of
        NilDiscovery \<Rightarrow> d
      | Discovery m \<Rightarrow> d\<lparr>dm_mdns := Discovery (stopMDNS L sk (dm_net d) m)\<rparr>)"

section \<open>What a post does\<close>

lemma time_Round_near: "\<bar>time_Round t Second - t\<bar> \<le> 500 * Millisecond"
  by (auto simp: time_Round_def Let_def go_const)

lemma drawn_code:
  assumes "draw_code digits rs = Inr (c, rs')"
  shows "canonical uni c = Inr c"
  using assms canonical_fixes newCode_word_code newDigitCode_digit_code
  by (auto simp: draw_code_def split: if_splits)

lemma post_loop_outcome:
  "post_loop S digits label expires mx data s rs = (resp, s', rs') \<Longrightarrow>
   (\<exists>code prs. resp = PostedJSON code expires \<and> canonical uni code = Inr code \<and> derivePRS S code = Inr prs
      \<and> store_add (posted label prs expires mx data) s = Inr s')
   \<or> s' = s \<and> (resp = Panicked \<or> (\<exists>e. resp = HttpError StatusInternalServerError e)
      \<or> (\<exists>prs e. resp = HttpError StatusInsufficientStorage e \<and> e \<noteq> ErrCollision
           \<and> store_add (posted label prs expires mx data) s = Inl e))"
proof (induction S digits label expires mx data s rs rule: post_loop.induct)
  case (1 S digits label expires mx data s rs)
  show ?case
  proof (cases "draw_code digits rs")
    case (Inl e)
    then show ?thesis using "1.prems" by (simp add: post_loop.simps [of S])
  next
    case (Inr x)
    obtain code rs1 where d: "draw_code digits rs = Inr (code, rs1)" using Inr by (cases x) auto
    note IH = "1.IH" [OF d refl]
    show ?thesis
    proof (cases "derivePRS S code")
      case (Inl e)
      then show ?thesis using "1.prems" d by (auto simp: post_loop.simps [of S])
    next
      case prs: (Inr prs)
      show ?thesis
      proof (cases "store_add (posted label prs expires mx data) s")
        case (Inl e)
        then show ?thesis
          using "1.prems" d prs IH [OF prs Inl] by (auto simp: post_loop.simps [of S] split: if_splits)
      next
        case (Inr s1)
        then show ?thesis using "1.prems" d prs drawn_code [OF d] by (auto simp: post_loop.simps [of S])
      qed
    qed
  qed
qed

text \<open>The buffer of the body is fresh, so the store does not notice it.\<close>

lemma new_body_abs:
  assumes "store_ok h s" and "sl_new body h = (data, h')"
  shows "store_ok h' s \<and> abs_store h' s = abs_store h s"
  using new_body_frame(1,2) [OF assms] by blast

lemma touch_simps [simp]:
  "dm_store (touch now d) = dm_store d" "dm_heap (touch now d) = dm_heap d" "dm_rand (touch now d) = dm_rand d"
  "dm_limiter (touch now d) = dm_limiter d" "dm_peers (touch now d) = dm_peers d" "dm_net (touch now d) = dm_net d"
  "dm_mdns (touch now d) = dm_mdns d" "dm_hostID (touch now d) = dm_hostID d" "dm_port (touch now d) = dm_port d"
  "dm_started (touch now d) = dm_started d" "dm_lastUsed (touch now d) = time_Unix now"
  by (simp_all add: touch_def)

text \<open>The store calls of a post: the drawn secrets that collide, then the outcome.\<close>

lemma handlePost_cases:
  assumes "handlePost S now now' rq d = (resp, d')"
  obtains (refused) h where "dm_store d' = dm_store d" "dm_heap d' = h"
      "h = dm_heap d \<or> (\<exists>body data. sl_new body (dm_heap d) = (data, h))"
      "\<exists>c e. resp = HttpError c e \<and> c \<in> {StatusBadRequest, StatusRequestEntityTooLarge}
         \<and> (c = StatusRequestEntityTooLarge \<longleftrightarrow> maxPasteSize < length (rq_bytes rq))"
  | (looped) data opts where "sl_new (rq_bytes rq) (dm_heap d) = (data, dm_heap d')"
      "length (rq_bytes rq) \<le> maxPasteSize" "parsePostOptions (rq_query rq) = Inr opts"
      "post_loop S (q_Get (rq_query rq) ''code_style'' = ''digits'') (q_Get (rq_query rq) ''label'')
         (time_Round (now' + po_ttl opts) Second) (po_maxGets opts) data (dm_store d) (dm_rand d)
         = (resp, dm_store d', dm_rand d')"
      "rq_error rq = None"
proof (cases "ReadAll_limited (maxPasteSize + 1) rq")
  case (Inl e)
  then have "resp = HttpError StatusBadRequest e" "d' = touch now d" "\<not> maxPasteSize < length (rq_bytes rq)"
    using assms by (auto simp: handlePost_def ReadAll_limited_def split: if_splits)
  then show ?thesis by (intro refused [of "dm_heap d"]) (simp_all add: go_const)
next
  case (Inr body)
  obtain data h where n: "sl_new body (dm_heap d) = (data, h)" by (cases "sl_new body (dm_heap d)")
  have long: "maxPasteSize < length body \<longleftrightarrow> maxPasteSize < length (rq_bytes rq)"
    using Inr by (auto simp: ReadAll_limited_def split: if_splits option.splits)
  show ?thesis
  proof (cases "maxPasteSize < length body \<or> (\<exists>e. parsePostOptions (rq_query rq) = Inl e)")
    case True
    then have "dm_store d' = dm_store d" "dm_heap d' = h"
      "\<exists>c e. resp = HttpError c e \<and> c \<in> {StatusBadRequest, StatusRequestEntityTooLarge}
         \<and> (c = StatusRequestEntityTooLarge \<longleftrightarrow> maxPasteSize < length (rq_bytes rq))"
      using assms Inr n long by (auto simp: handlePost_def Let_def go_const split: if_splits)
    then show ?thesis using n by (intro refused [of h]) auto
  next
    case False
    then obtain opts where o: "parsePostOptions (rq_query rq) = Inr opts" "length body \<le> maxPasteSize"
      by (cases "parsePostOptions (rq_query rq)") auto
    have b: "body = rq_bytes rq \<and> rq_error rq = None"
      using Inr o(2) by (auto simp: ReadAll_limited_def split: if_splits option.splits)
    show ?thesis
      using assms Inr n o b
      by (intro looped [of data opts]) (auto simp: handlePost_def Let_def time_Add_def split: prod.splits)
  qed
qed

text \<open>The codes that are drawn one after the other until the randomness ends.\<close>

function drawn_codes :: "bool \<Rightarrow> bytes \<Rightarrow> string list" where
  "drawn_codes digits rs =
     (case draw_code digits rs of Inl e \<Rightarrow> [] | Inr (code, rs') \<Rightarrow> code # drawn_codes digits rs')"
  by pat_completeness auto
termination
  by (relation "measure (\<lambda>(digits, rs). length rs)") (auto dest: draw_code_shorter)

declare drawn_codes.simps [simp del]

text \<open>A code ends the loop unless its secret is taken in a store that has room.\<close>

definition settles :: "('e, 's) suite \<Rightarrow> spec_store \<Rightarrow> string \<Rightarrow> bool" where
  "settles S old code \<longleftrightarrow> maxPastes \<le> card (dom old) \<or> (\<forall>prs. derivePRS S code = Inr prs \<longrightarrow> old prs = None)"

lemma drawn_normal: "code \<in> set (drawn_codes digits rs) \<Longrightarrow> canonical uni code = Inr code"
proof (induction digits rs rule: drawn_codes.induct)
  case (1 digits rs)
  show ?case
  proof (cases "draw_code digits rs")
    case (Inl e)
    then show ?thesis using "1.prems" drawn_codes.simps [of digits rs] by simp
  next
    case (Inr x)
    obtain c rs' where d: "draw_code digits rs = Inr (c, rs')" using Inr by (cases x) auto
    then have "code = c \<or> code \<in> set (drawn_codes digits rs')"
      using "1.prems" drawn_codes.simps [of digits rs] by simp
    then show ?thesis using "1.IH" [OF d refl] drawn_code [OF d] by blast
  qed
qed

lemma post_loop_exact:
  assumes "store_ok h s" and "post_loop S digits label expires mx data s rs = (resp, s', rs')"
  shows "case find (settles S (abs_store h s)) (drawn_codes digits rs) of
      None \<Rightarrow> resp = Panicked \<and> s' = s
    | Some code \<Rightarrow> (case derivePRS S code of
        Inl e \<Rightarrow> resp = HttpError StatusInternalServerError e \<and> s' = s
      | Inr prs \<Rightarrow>
          if maxPastes \<le> card (dom (abs_store h s)) then resp = HttpError StatusInsufficientStorage ErrTooMany \<and> s' = s
          else resp = PostedJSON code expires \<and> store_add (posted label prs expires mx data) s = Inr s')"
  using assms
proof (induction S digits label expires mx data s rs rule: post_loop.induct)
  case (1 S digits label expires mx data s rs)
  show ?case
  proof (cases "draw_code digits rs")
    case (Inl e)
    then have "drawn_codes digits rs = []" by (simp add: drawn_codes.simps [of _ rs])
    then show ?thesis using "1.prems"(2) Inl by (simp add: post_loop.simps [of S])
  next
    case (Inr x)
    obtain code rs1 where d: "draw_code digits rs = Inr (code, rs1)" using Inr by (cases x) auto
    have cs: "drawn_codes digits rs = code # drawn_codes digits rs1" by (simp add: drawn_codes.simps [of _ rs] d)
    note IH = "1.IH" [OF d refl _ _ _ "1.prems"(1)]
    have st: "settles S (abs_store h s) code \<longleftrightarrow> maxPastes \<le> length (s_m s)
        \<or> (\<forall>prs. derivePRS S code = Inr prs \<longrightarrow> mget (s_m s) (pasteKey prs) = None)"
      using abs_store_dom [OF "1.prems"(1)] by (simp add: settles_def abs_store_def)
    show ?thesis
    proof (cases "derivePRS S code")
      case (Inl e)
      then show ?thesis using "1.prems"(2) d st by (auto simp: post_loop.simps [of S] cs)
    next
      case prs: (Inr prs)
      note step = "1.prems"(2) [unfolded post_loop.simps [of S digits label expires mx data s rs] d sum.case prod.case prs]
      consider "maxPastes \<le> length (s_m s)" | "length (s_m s) < maxPastes" "mget (s_m s) (pasteKey prs) \<noteq> None"
        | "length (s_m s) < maxPastes" "mget (s_m s) (pasteKey prs) = None" by linarith
      then show ?thesis
      proof cases
        case 2
        have add: "store_add (posted label prs expires mx data) s = Inl ErrCollision"
          using 2 by (simp add: store_add_def posted_def)
        have "\<not> settles S (abs_store h s) code" using st 2 prs by auto
        then show ?thesis using IH [OF prs add refl] step add by (simp add: cs)
      qed (use step st prs abs_store_dom [OF "1.prems"(1)] in \<open>auto simp: cs store_add_def posted_def\<close>)
    qed
  qed
qed

lemma handlePost_refused:
  assumes "handlePost S now now' rq d = (resp, d')"
  shows "maxPasteSize < length (rq_bytes rq) \<Longrightarrow>
      resp = HttpError StatusRequestEntityTooLarge (ErrMsg ''paste exceeds 1 MiB'')"
    and "length (rq_bytes rq) \<le> maxPasteSize \<Longrightarrow> rq_error rq = Some e \<Longrightarrow> resp = HttpError StatusBadRequest e"
    and "length (rq_bytes rq) \<le> maxPasteSize \<Longrightarrow> rq_error rq = None \<Longrightarrow> parsePostOptions (rq_query rq) = Inl e \<Longrightarrow>
      resp = HttpError StatusBadRequest e"
  using assms by (auto simp: handlePost_def ReadAll_limited_def Let_def split: if_splits prod.splits)

lemma handlePost_looped:
  assumes "handlePost S now now' rq d = (resp, d')"
    and "length (rq_bytes rq) \<le> maxPasteSize" "rq_error rq = None" "parsePostOptions (rq_query rq) = Inr opts"
  obtains data where "sl_new (rq_bytes rq) (dm_heap d) = (data, dm_heap d')"
    and "post_loop S (q_Get (rq_query rq) ''code_style'' = ''digits'') (q_Get (rq_query rq) ''label'')
         (time_Round (now' + po_ttl opts) Second) (po_maxGets opts) data (dm_store d) (dm_rand d)
         = (resp, dm_store d', dm_rand d')"
  using assms by (cases "sl_new (rq_bytes rq) (dm_heap d)")
    (auto simp: handlePost_def ReadAll_limited_def Let_def time_Add_def split: prod.splits)

text \<open>C31: A post stores the paste or changes nothing, and the answer says which and why. A body that
  is too long is answered 413, one that cannot be read 400, options that cannot be read 400, each with its
  message. Otherwise the handler goes by the codes it draws: the first whose secret is free
  decides, or the first at all if the store is full. That code is in normal form. If its
  secret cannot be derived the answer is 500, if the store is full it is 507; in all other cases the paste is
  accepted: the answer has the code, the store now also maps the secret to exactly the
  bytes of the body with the limit that was asked for, and the expiry is the requested one up to half a
  second. (The handler runs out of codes only with the randomness.)\<close>

theorem handlePost_stores:
  assumes "store_ok (dm_heap d) (dm_store d)" and "handlePost S now now' rq d = (resp, d')"
    and "old = abs_store (dm_heap d) (dm_store d)" and "new = abs_store (dm_heap d') (dm_store d')"
  shows "store_ok (dm_heap d') (dm_store d') \<and>
    (if maxPasteSize < length (rq_bytes rq)
     then resp = HttpError StatusRequestEntityTooLarge (ErrMsg ''paste exceeds 1 MiB'') \<and> new = old
     else case rq_error rq of
       Some e \<Rightarrow> resp = HttpError StatusBadRequest e \<and> new = old
     | None \<Rightarrow> (case parsePostOptions (rq_query rq) of
         Inl e \<Rightarrow> resp = HttpError StatusBadRequest e \<and> new = old
       | Inr opts \<Rightarrow>
           (case find (settles S old) (drawn_codes (q_Get (rq_query rq) ''code_style'' = ''digits'') (dm_rand d)) of
             None \<Rightarrow> resp = Panicked \<and> new = old
           | Some code \<Rightarrow> canonical uni code = Inr code \<and>
               (case derivePRS S code of
                 Inl e \<Rightarrow> resp = HttpError StatusInternalServerError e \<and> new = old
               | Inr prs \<Rightarrow>
                   if maxPastes \<le> card (dom old) then resp = HttpError StatusInsufficientStorage ErrTooMany \<and> new = old
                   else \<exists>expires. resp = PostedJSON code expires \<and> old prs = None
                     \<and> \<bar>expires - (now' + po_ttl opts)\<bar> \<le> 500 * Millisecond
                     \<and> new = old(prs \<mapsto> spec_new (rq_bytes rq) expires (po_maxGets opts))))))"
proof (cases "maxPasteSize < length (rq_bytes rq) \<or> rq_error rq \<noteq> None \<or> (\<exists>e. parsePostOptions (rq_query rq) = Inl e)")
  case True
  have "dm_store d' = dm_store d \<and> (dm_heap d' = dm_heap d \<or> (\<exists>body data. sl_new body (dm_heap d) = (data, dm_heap d')))"
    using assms(2) by (cases rule: handlePost_cases) (use True in \<open>auto\<close>)
  then have "store_ok (dm_heap d') (dm_store d') \<and> new = old"
    using new_body_abs [OF assms(1)] assms(1) by (auto simp: assms(3,4))
  then show ?thesis using True handlePost_refused [OF assms(2)] by (auto split: option.splits)
next
  case False
  then obtain opts where o: "length (rq_bytes rq) \<le> maxPasteSize" "rq_error rq = None"
    "parsePostOptions (rq_query rq) = Inr opts" by (cases "parsePostOptions (rq_query rq)") auto
  obtain data where n: "sl_new (rq_bytes rq) (dm_heap d) = (data, dm_heap d')"
    and l: "post_loop S (q_Get (rq_query rq) ''code_style'' = ''digits'') (q_Get (rq_query rq) ''label'')
         (time_Round (now' + po_ttl opts) Second) (po_maxGets opts) data (dm_store d) (dm_rand d)
         = (resp, dm_store d', dm_rand d')"
    using handlePost_looped [OF assms(2) o] by blast
  have same: "store_ok (dm_heap d') (dm_store d)" "dm_store d' = dm_store d \<Longrightarrow> new = old"
    using new_body_abs [OF assms(1) n] by (simp_all add: assms(3,4))
  have normal: "canonical uni code = Inr code"
    if "find P (drawn_codes dg (dm_rand d)) = Some code" for P dg code
    using that drawn_normal [of code dg "dm_rand d" uni] by (auto simp: find_Some_iff in_set_conv_nth)
  have added: "store_ok (dm_heap d') (dm_store d') \<and> old prs = None
      \<and> new = old(prs \<mapsto> spec_new (rq_bytes rq) expires (po_maxGets opts))"
    if "store_add (posted (q_Get (rq_query rq) ''label'') prs expires (po_maxGets opts) data) (dm_store d) = Inr (dm_store d')"
    for prs expires
    using refine_add [OF assms(1) n that] by (auto simp: assms(3,4) spec_adding_def split: if_splits)
  show ?thesis
    using post_loop_exact [OF assms(1) l, folded assms(3)] o(1) time_Round_near [of "now' + po_ttl opts"]
    by (auto simp: o(2,3) same(1) dest: normal same(2) added split: option.splits sum.splits if_splits)
qed

lemma post_added:
  assumes "store_ok (dm_heap d) (dm_store d)" and "handlePost S now now' rq d = (PostedJSON code expires, d')"
    and "parsePostOptions (rq_query rq) = Inr opts" and "derivePRS S code = Inr prs"
  shows "store_step (dm_heap d, dm_store d) (EvAdd prs (rq_bytes rq) expires (po_maxGets opts) None) (dm_heap d', dm_store d')"
  using assms(2)
proof (cases rule: handlePost_cases)
  case (looped data opts')
  have "opts' = opts" using looped(3) assms(3) by simp
  then have "store_add (posted (q_Get (rq_query rq) ''label'') prs expires (po_maxGets opts) data) (dm_store d) = Inr (dm_store d')"
    using post_loop_outcome [OF looped(4)] assms(4) by auto
  from step_add [OF looped(1) this] show ?thesis .
qed auto

text \<open>What the client writes into a query the daemon reads back.\<close>

lemma duration_String_nonempty: "duration_String d \<noteq> []"
proof -
  obtain n r where "duration_text (nat \<bar>d\<bar>) = nat_digits n @ r" "r \<noteq> []" using duration_text_shape by blast
  then show ?thesis by (auto simp: duration_String_def)
qed

lemma parse_ttl_String:
  assumes "q_Get q ''ttl'' = duration_String d" and "min_int64 \<le> d" and "d \<le> max_int64"
  shows "parse_ttl q =
    (if d \<le> 0 \<or> d > maxTTL then Inl (ErrMsg ''ttl must be positive and at most 24h'') else Inr d)"
  using assms ParseDuration_String [OF assms(2,3)] duration_String_nonempty by (simp add: parse_ttl_def)

lemma parse_maxGets_Itoa:
  assumes "q_Get q ''max_gets'' = strconv_Itoa n" and "min_int64 \<le> n" and "n \<le> max_int64"
  shows "parse_maxGets q =
    (if n < 0 then Inl (ErrMsg ''max_gets must be a non-negative integer'') else Inr n)"
proof -
  have "strconv_Itoa n \<noteq> []" using nat_digits_decimal by (simp add: strconv_Itoa_def)
  then show ?thesis using assms Atoi_Itoa [OF assms(2,3)] by (simp add: parse_maxGets_def)
qed

text \<open>A daemon without pastes, and a post to it.\<close>

definition idle_daemon :: "discovery \<Rightarrow> bytes \<Rightarrow> daemon" where
  "idle_daemon m rs =
     \<lparr>dm_store = \<lparr>s_m = [], s_decoy = [9]\<rparr>, dm_limiter = newLimiter, dm_peers = newPeerTable 0,
      dm_net = \<lparr>nf_ifaces = [], nf_addrs = []\<rparr>, dm_hostID = ''H'', dm_port = 7391, dm_started = 0,
      dm_mdns = m, dm_lastUsed = 0, dm_heap = empty_heap, dm_rand = rs\<rparr>"

definition short_post :: request where
  "short_post = \<lparr>rq_bytes = [104, 105], rq_error = None,
     rq_query = [(''ttl'', duration_String (400 * Millisecond)), (''max_gets'', strconv_Itoa 1)]\<rparr>"

lemma idle_daemon_ok: "store_ok (dm_heap (idle_daemon m rs)) (dm_store (idle_daemon m rs))"
  using demo_empty_ok by (simp add: idle_daemon_def demo_empty_def)

lemma short_post_options: "parsePostOptions (rq_query short_post) = Inr \<lparr>po_ttl = 400 * Millisecond, po_maxGets = 1\<rparr>"
  using parse_ttl_String [of "rq_query short_post" "400 * Millisecond"] parse_maxGets_Itoa [of "rq_query short_post" 1]
  by (simp add: short_post_def parsePostOptions_def q_Get_def go_const)

lemma handlePost_flow:
  assumes "ReadAll_limited (maxPasteSize + 1) rq = Inr body" and "sl_new body (dm_heap d) = (data, h)"
    and "length body \<le> maxPasteSize" and "parsePostOptions (rq_query rq) = Inr opts"
    and "post_loop S (q_Get (rq_query rq) ''code_style'' = ''digits'') (q_Get (rq_query rq) ''label'')
      (time_Round (time_Add now' (po_ttl opts)) Second) (po_maxGets opts) data (dm_store d) (dm_rand d) = (resp, s, rs)"
  shows "handlePost S now now' rq d = (resp, (touch now d)\<lparr>dm_heap := h, dm_store := s, dm_rand := rs\<rparr>)"
  using assms by (simp add: handlePost_def Let_def)

lemma demo_loop:
  "\<exists>s rs. post_loop toy_suite False label expires mx data \<lparr>s_m = [], s_decoy = [9]\<rparr> [0, 0, 0, 0, 0, 0]
     = (PostedJSON ''acid-acid-acid'' expires, s, rs)"
proof -
  have prs: "derivePRS toy_suite ''acid-acid-acid'' = Inr (take scryptLen (bytes_of ''acid-acid-acid'' @ replicate scryptLen 0))"
    by (simp add: derivePRS_def toy_suite_def)
  have add: "store_add p \<lparr>s_m = [], s_decoy = [9]\<rparr> = Inr \<lparr>s_m = mput (pasteKey (p_prs p)) p [], s_decoy = [9]\<rparr>" for p
    by (simp add: store_add_def go_const)
  show ?thesis
    by (subst post_loop.simps) (simp only: draw_code_def if_False demo_draw sum.case prod.case prs add, blast)
qed

lemma demo_post:
  "\<exists>d'. handlePost toy_suite 1 (5 * Second) short_post (idle_daemon m [0, 0, 0, 0, 0, 0])
     = (PostedJSON ''acid-acid-acid'' (5 * Second), d')"
proof -
  let ?d = "idle_daemon m [0, 0, 0, 0, 0, 0]"
  obtain data h where n: "sl_new [104, 105] (dm_heap ?d) = (data, h)" by (cases "sl_new [104, 105] (dm_heap ?d)")
  have read: "ReadAll_limited (maxPasteSize + 1) short_post = Inr [104, 105]" "length [104, 105 :: byte] \<le> maxPasteSize"
    by (simp_all add: ReadAll_limited_def short_post_def go_const)
  obtain s rs where l: "post_loop toy_suite False (q_Get (rq_query short_post) ''label'') (5 * Second) 1 data
      \<lparr>s_m = [], s_decoy = [9]\<rparr> [0, 0, 0, 0, 0, 0] = (PostedJSON ''acid-acid-acid'' (5 * Second), s, rs)"
    using demo_loop by blast
  have "post_loop toy_suite (q_Get (rq_query short_post) ''code_style'' = ''digits'') (q_Get (rq_query short_post) ''label'')
      (time_Round (time_Add (5 * Second) (po_ttl \<lparr>po_ttl = 400 * Millisecond, po_maxGets = 1\<rparr>)) Second)
      (po_maxGets \<lparr>po_ttl = 400 * Millisecond, po_maxGets = 1\<rparr>) data (dm_store ?d) (dm_rand ?d)
      = (PostedJSON ''acid-acid-acid'' (5 * Second), s, rs)"
  proof -
    have "(q_Get (rq_query short_post) ''code_style'' = ''digits'') = False"
      by (simp add: short_post_def q_Get_def)
    moreover have "time_Round (time_Add (5 * Second) (400 * Millisecond)) Second = 5 * Second"
      by (simp add: time_Round_def time_Add_def go_const)
    ultimately show ?thesis using l by (simp add: idle_daemon_def)
  qed
  then show ?thesis using handlePost_flow [OF read(1) n read(2) short_post_options] by blast
qed

theorem handlePost_stores_witness:
  "\<exists>(d' :: daemon) prs expires. derivePRS toy_suite ''acid-acid-acid'' = Inr prs
     \<and> handlePost toy_suite 1 (5 * Second) short_post (idle_daemon NilDiscovery [0, 0, 0, 0, 0, 0])
         = (PostedJSON ''acid-acid-acid'' expires, d')
     \<and> store_ok (dm_heap d') (dm_store d') \<and> canonical no_unicode ''acid-acid-acid'' = Inr ''acid-acid-acid''
     \<and> abs_store (dm_heap d') (dm_store d') prs = Some (spec_new [104, 105] expires 1)"
proof -
  obtain d' where p: "handlePost toy_suite 1 (5 * Second) short_post (idle_daemon NilDiscovery [0, 0, 0, 0, 0, 0])
      = (PostedJSON ''acid-acid-acid'' (5 * Second), d')" using demo_post by blast
  have b: "rq_bytes short_post = [104, 105]" "rq_error short_post = None" by (simp_all add: short_post_def)
  have sz: "\<not> maxPasteSize < length [104, 105 :: byte]" by (simp add: go_const)
  show ?thesis
    using handlePost_stores [OF idle_daemon_ok p refl refl, where uni = no_unicode] p sz
    unfolding b short_post_options by (auto split: option.splits sum.splits if_splits)
qed

text \<open>C32: The expiry of a paste is rounded to a second after the lifetime is added, so a lifetime below
  half a second can be rounded away: if the requested end lies less than half a second after a full
  second, and the lifetime does not reach back beyond that second, the handler answers with a code,
  but the paste has expired by then and no later fetch finds it.\<close>

theorem short_paste_stillborn:
  assumes "store_ok (dm_heap d) (dm_store d)"
    and "handlePost S now now' rq d = (PostedJSON code expires, d')"
    and "parsePostOptions (rq_query rq) = Inr opts" and "derivePRS S code = Inr prs"
    and "po_ttl opts \<le> (now' + po_ttl opts) mod Second" and "(now' + po_ttl opts) mod Second < 500 * Millisecond"
    and "now' < t"
  shows "expires \<le> now' \<and> store_take t prs (dm_heap d') (dm_store d') = (NilSlice, dm_heap d', dm_store d')"
  using assms(2)
proof (cases rule: handlePost_cases)
  case (looped data opts')
  have o: "opts' = opts" using looped(3) assms(3) by simp
  obtain prs' where add: "expires = time_Round (now' + po_ttl opts) Second" "derivePRS S code = Inr prs'"
    "store_add (posted (q_Get (rq_query rq) ''label'') prs' expires (po_maxGets opts) data) (dm_store d) = Inr (dm_store d')"
    using post_loop_outcome [OF looped(4)] o by auto
  have e: "expires \<le> now'"
    using assms(5,6) unfolding add(1) by (auto simp: time_Round_def Let_def go_const)
  have "mget (s_m (dm_store d')) (pasteKey prs)
      = Some (posted (q_Get (rq_query rq) ''label'') prs expires (po_maxGets opts) data)"
    using add(2,3) assms(4) by (auto simp: store_add_def posted_def split: if_splits dest!: sym [of _ "dm_store d'"])
  then have "store_take t prs (dm_heap d') (dm_store d') = (NilSlice, dm_heap d', dm_store d')"
    using e assms(7) by (intro store_take_none) (simp add: is_live_def posted_def time_After_def)
  then show ?thesis using e by blast
qed auto

theorem short_paste_stillborn_witness:
  "\<exists>(d' :: daemon) prs. derivePRS toy_suite ''acid-acid-acid'' = Inr prs
     \<and> handlePost toy_suite 1 (5 * Second) short_post (idle_daemon NilDiscovery [0, 0, 0, 0, 0, 0])
        = (PostedJSON ''acid-acid-acid'' (5 * Second), d')
     \<and> store_take (5 * Second + 1) prs (dm_heap d') (dm_store d') = (NilSlice, dm_heap d', dm_store d')"
proof -
  obtain d' where p: "handlePost toy_suite 1 (5 * Second) short_post (idle_daemon NilDiscovery [0, 0, 0, 0, 0, 0])
      = (PostedJSON ''acid-acid-acid'' (5 * Second), d')" using demo_post by blast
  obtain prs where prs: "derivePRS toy_suite ''acid-acid-acid'' = Inr prs" by (simp add: derivePRS_def toy_suite_def)
  have m: "(5 * Second + 400 * Millisecond) mod Second = 400 * Millisecond" by (simp add: go_const)
  show ?thesis
    using short_paste_stillborn [OF idle_daemon_ok p short_post_options prs, where t = "5 * Second + 1"] p prs m
    by (intro exI [of _ d'] exI [of _ prs]) (simp add: go_const)
qed

section \<open>The accept loop\<close>

text \<open>The states of the loop, with the outcome of each event.\<close>

inductive serve_run ::
  "(string \<Rightarrow> bytes option) \<Rightarrow> acceptor \<Rightarrow> (accept_event \<times> accept_outcome) list \<Rightarrow> acceptor \<Rightarrow> bool" for ip6 where
  serve_done: "serve_run ip6 a [] a"
| serve_more: "\<not> ac_stopped a \<Longrightarrow> (ev = ConnDone \<longrightarrow> 0 < ac_active a) \<Longrightarrow> serveData_step ip6 f ev a = (out, a')
    \<Longrightarrow> serve_run ip6 a' evs a'' \<Longrightarrow> serve_run ip6 a ((ev, out) # evs) a''"

definition acceptor_ok :: "acceptor \<Rightarrow> bool" where
  "acceptor_ok a \<longleftrightarrow> ac_active a \<le> maxConns \<and> acceptRetryFloor \<le> ac_retry a \<and> ac_retry a \<le> acceptRetryCeiling"

text \<open>The connections in service after a history: those served less those that ended.\<close>

definition in_service :: "(accept_event \<times> accept_outcome) list \<Rightarrow> int" where
  "in_service evs = int (count_list (map snd evs) Served) - int (count_list (map snd evs) Freed)"

lemma serveData_step_facts:
  assumes st: "serveData_step ip6 f ev a = (out, a')" and ok: "acceptor_ok a" and ev: "ev = ConnDone \<longrightarrow> 0 < ac_active a"
  shows "acceptor_ok a' \<and> int (ac_active a') = int (ac_active a) + in_service [(ev, out)]
    \<and> (ac_stopped a' \<longleftrightarrow> ac_stopped a \<or> out = Stopped)
    \<and> (\<forall>d. out = Retried d \<longrightarrow> acceptRetryFloor \<le> d \<and> d \<le> acceptRetryCeiling)
    \<and> (out = Stopped \<longrightarrow> (\<exists>e c i. ev = AcceptFails e c i \<and> (c \<or> i \<or> \<not> retryableAccept e)))"
proof (cases ev)
  case (AcceptFails e c i)
  have "acceptRetryFloor \<le> min (ac_retry a * 2) acceptRetryCeiling"
    using ok by (auto simp: acceptor_ok_def go_const)
  then show ?thesis
    using st ok unfolding AcceptFails
    by (cases "\<not> c \<and> retryableAccept e"; cases i) (auto simp: serveData_step_def acceptor_ok_def in_service_def)
next
  case (AcceptConn local is_tls)
  have c: "acceptRetryFloor \<le> acceptRetryCeiling" by (simp add: go_const)
  show ?thesis
    using st ok c unfolding AcceptConn
    by (cases "serves ip6 local f"; cases is_tls; cases "ac_active a < maxConns")
      (auto simp: serveData_step_def acceptor_ok_def in_service_def)
next
  case ConnDone
  then show ?thesis
    using st ok ev by (auto simp: serveData_step_def acceptor_ok_def in_service_def)
qed

lemma serve_run_facts:
  "serve_run ip6 a evs a' \<Longrightarrow> acceptor_ok a \<Longrightarrow>
   acceptor_ok a' \<and> int (ac_active a') = int (ac_active a) + in_service evs
   \<and> (\<forall>e \<in> set evs. \<forall>d. snd e = Retried d \<longrightarrow> acceptRetryFloor \<le> d \<and> d \<le> acceptRetryCeiling)
   \<and> (ac_stopped a' \<longrightarrow> ac_stopped a \<or> (\<exists>e c i. (AcceptFails e c i, Stopped) \<in> set evs \<and> (c \<or> i \<or> \<not> retryableAccept e)))"
proof (induction rule: serve_run.induct)
  case (serve_more a ev f out a' evs a'')
  note st = serveData_step_facts [OF serve_more(3,6,2)]
  have "in_service ((ev, out) # evs) = in_service [(ev, out)] + in_service evs" by (simp add: in_service_def)
  note IH = serve_more(5) [OF conjunct1 [OF st]]
  have "\<exists>e c i. (AcceptFails e c i, Stopped) \<in> set ((ev, out) # evs) \<and> (c \<or> i \<or> \<not> retryableAccept e)" if "ac_stopped a''"
  proof (cases "ac_stopped a'")
    case True
    then have "out = Stopped" using st serve_more(1) by blast
    then show ?thesis using st by (metis list.set_intros(1))
  next
    case False
    then show ?thesis using IH that by (meson list.set_intros(2))
  qed
  moreover have "\<forall>e \<in> set ((ev, out) # evs). \<forall>d. snd e = Retried d \<longrightarrow> acceptRetryFloor \<le> d \<and> d \<le> acceptRetryCeiling"
    using IH st by simp
  ultimately show ?case using IH st \<open>in_service ((ev, out) # evs) = _\<close> by simp
qed (simp add: in_service_def)

text \<open>C33: The data plane never serves more than 256 connections at once, counts them exactly, and stays up: in
  every history of the accept loop the number of busy slots is the number of connections handed to a
  handshake less those that ended, waits after a failed \<^verbatim>\<open>Accept\<close> lie between 5 ms and 1 s, and the
  loop ends only when the daemon is cancelled or \<^verbatim>\<open>Accept\<close> fails for another reason than exhausted
  descriptors or memory.\<close>

theorem serveData_bounded:
  assumes "serve_run ip6 serveData_init evs a"
  shows "int (ac_active a) = in_service evs \<and> ac_active a \<le> maxConns
    \<and> (\<forall>e \<in> set evs. \<forall>d. snd e = Retried d \<longrightarrow> acceptRetryFloor \<le> d \<and> d \<le> acceptRetryCeiling)
    \<and> (ac_stopped a \<longrightarrow> (\<exists>e c i. (AcceptFails e c i, Stopped) \<in> set evs \<and> (c \<or> i \<or> \<not> retryableAccept e)))"
proof -
  have "acceptor_ok serveData_init" by (simp add: acceptor_ok_def serveData_init_def go_const)
  from serve_run_facts [OF assms this] show ?thesis by (auto simp: acceptor_ok_def serveData_init_def)
qed

theorem serveData_bounded_witness:
  "\<exists>a. serve_run (\<lambda>s. None) serveData_init
       [(AcceptFails EMFILE False False, Retried (5 * Millisecond)), (AcceptFails OtherAccept False False, Stopped)] a
     \<and> ac_active a \<le> maxConns"
proof -
  let ?f = "\<lparr>nf_ifaces = [], nf_addrs = []\<rparr>"
  obtain o1 a1 where 1: "serveData_step (\<lambda>s. None) ?f (AcceptFails EMFILE False False) serveData_init = (o1, a1)"
    by (cases "serveData_step (\<lambda>s. None) ?f (AcceptFails EMFILE False False) serveData_init")
  obtain o2 a2 where 2: "serveData_step (\<lambda>s. None) ?f (AcceptFails OtherAccept False False) a1 = (o2, a2)"
    by (cases "serveData_step (\<lambda>s. None) ?f (AcceptFails OtherAccept False False) a1")
  have n: "o1 = Retried (5 * Millisecond)" "o2 = Stopped" "\<not> ac_stopped serveData_init" "\<not> ac_stopped a1"
    using 1 2 by (auto simp: serveData_step_def retryableAccept_def serveData_init_def go_const)
  have r: "serve_run (\<lambda>s. None) serveData_init
      [(AcceptFails EMFILE False False, o1), (AcceptFails OtherAccept False False, o2)] a2"
    using n by (intro serve_more [OF _ _ 1] serve_more [OF _ _ 2] serve_done) simp_all
  from r [unfolded n] show ?thesis using serveData_bounded [OF r [unfolded n]] by blast
qed

end
