(* ===== verification/Life.thy ===== *)
theory Life
  imports Control Delivery
begin

text \<open>
  The life of a daemon: every handler, both halves of the handshake, the ticks of its loops and the
  packets and timers of discovery are steps on its state, in any order. A handler takes several
  locks one after the other (a post touches the clock, reads its body, and adds perhaps several
  times; a sweep goes through store, limiter and peers; a change of the network sets addresses, clears
  the peers and tells the responder). Such a handler is one step at the point of its last
  change of the store, and its other sections are steps of their own as well: the touch, a call
  of the limiter, the use of randomness by a draw that collided, each part of a sweep
  (\<open>sweepTick_steps\<close>) and of a change of the network. A history may put them before
  or after, so the histories cover the interleavings of the sections. What holds of all histories
  is proved here from the contracts of the components.
\<close>

section \<open>Steps\<close>

text \<open>The side a confirmation selects, with its candidate.\<close>

definition confirmed :: "'s pakeSide list \<Rightarrow> bytes list \<Rightarrow> conn \<Rightarrow> ('s pakeSide \<times> bytes) option" where
  "confirmed sides cands c =
     (case readFrame macLen c of
        (Inl e, c) \<Rightarrow> None
      | (Inr tag, c) \<Rightarrow>
          let match = matchConfirmation sides tag
          in if match < 0 then None else Some (sides ! nat match, cands ! nat match))"

text \<open>What a step shows: a post and its answer, a confirmation with the time of its fetch, the
  selected side and the bytes it wrote, or nothing of the store's pastes.\<close>

datatype 's life_event =
    LPost request response
  | LConfirm gotime "('s pakeSide \<times> bytes) option" bytes
  | LOther

inductive life_step :: "('e, 's) suite \<Rightarrow> dnslib \<Rightarrow> daemon \<Rightarrow> 's life_event \<Rightarrow> daemon \<Rightarrow> bool" for S L where
  life_post: "handlePost S now now' rq d = (resp, d') \<Longrightarrow> life_step S L d (LPost rq resp) d'"
| life_list: "handleList now ord d = (resp, d') \<Longrightarrow> life_step S L d LOther d'"
| life_delete: "handleDelete now prs d = (resp, d') \<Longrightarrow> life_step S L d LOther d'"
| life_clear: "visits ord (s_m (dm_store d)) \<Longrightarrow> handleDeleteAll now ord d = (resp, d') \<Longrightarrow> life_step S L d LOther d'"
| life_peers: "handlePeers L sk adv now now' q obs (\<lambda>d. d) rord d = (resp, d') \<Longrightarrow> life_step S L d LOther d'"
| life_offer: "hs_offer S tls remote t ord d c = (r, d', c') \<Longrightarrow> life_step S L d LOther d'"
| life_confirm: "hs_confirm S host t sides cands d c = (err, d', c') \<Longrightarrow>
    life_step S L d (LConfirm (ht_take t) (confirmed sides cands c) (drop (length (c_out c)) (c_out c'))) d'"
| life_sweep_store: "visits pord (s_m (dm_store d)) \<Longrightarrow> store_sweep now pord (dm_heap d) (dm_store d) = (h, s) \<Longrightarrow>
    life_step S L d LOther (d\<lparr>dm_heap := h, dm_store := s\<rparr>)"
| life_sweep_peers: "visits rord (pt_m (dm_peers d)) \<Longrightarrow>
    life_step S L d LOther (d\<lparr>dm_peers := peers_sweep now rord (dm_peers d)\<rparr>)"
| life_limiter: "life_step S L d LOther (d\<lparr>dm_limiter := snd (limiter_step x (dm_limiter d))\<rparr>)"
| life_touch: "life_step S L d LOther (touch now d)"
| life_draw: "life_step S L d LOther (d\<lparr>dm_rand := rs\<rparr>)"
| life_net: "netTick L sk net d = Inr d' \<Longrightarrow> life_step S L d LOther d'"
| life_refresh: "life_step S L d LOther (d\<lparr>dm_net := snd (refresh net (dm_net d))\<rparr>)"
| life_forget: "life_step S L d LOther (d\<lparr>dm_peers := peers_clear (dm_peers d)\<rparr>)"
| life_changed: "discovery_networkChanged L sk (dm_net d) (dm_mdns d) = Inr m \<Longrightarrow>
    life_step S L d LOther (d\<lparr>dm_mdns := m\<rparr>)"
| life_packet: "dm_mdns d = Discovery (Some r) \<Longrightarrow>
    readPacket L now (dm_net d) perm pkt src (dm_rand d) r (dm_peers d) = Inr (w, r', pt, rs) \<Longrightarrow>
    life_step S L d LOther (d\<lparr>dm_mdns := Discovery (Some r'), dm_peers := pt, dm_rand := rs\<rparr>)"
| life_timer: "dm_mdns d = Discovery (Some r) \<Longrightarrow>
    r' \<in> {announce L sk (dm_net d) r, mdns_query L sk (dm_net d) r, answerFires L sk now (dm_net d) r} \<Longrightarrow>
    life_step S L d LOther (d\<lparr>dm_mdns := Discovery (Some r')\<rparr>)"

inductive life_run :: "('e, 's) suite \<Rightarrow> dnslib \<Rightarrow> daemon \<Rightarrow> 's life_event list \<Rightarrow> daemon \<Rightarrow> bool" for S L where
  life_done: "life_run S L d [] d"
| life_more: "life_step S L d ev d' \<Longrightarrow> life_run S L d' evs d'' \<Longrightarrow> life_run S L d (ev # evs) d''"

section \<open>The store under the steps\<close>

lemma store_run_append:
  "store_run c evs c' \<Longrightarrow> store_run c' evs' c'' \<Longrightarrow> store_run c (evs @ evs') c''"
  by (induction rule: store_run.induct) (auto intro: run_more)

lemma store_run_one: "store_step c ev c' \<Longrightarrow> store_run c [ev] c'"
  by (rule run_more [OF _ run_done])

text \<open>A buffer that the store does not reach may be allocated and written.\<close>

lemma fresh_write:
  assumes ok: "store_ok h s" and "h_next h \<le> a" and "h_next h \<le> n"
  shows "store_step (h, s) EvWrite (h\<lparr>h_next := n, h_cell := (h_cell h)(a := bs)\<rparr>, s)"
proof (rule step_write)
  show "\<forall>e \<in> set (s_m s). apart (p_data (snd e)) (Slice a 0)"
  proof
    fix e assume "e \<in> set (s_m s)"
    then have "sl_ok h (p_data (snd e))" using ok by (auto simp: store_ok_def paste_ok_def)
    then show "apart (p_data (snd e)) (Slice a 0)" using assms(2) by (cases "p_data (snd e)") (auto simp: apart_def)
  qed
qed (rule assms(3))

lemma new_body_write:
  assumes "store_ok h s" and "sl_new body h = (data, h')"
  shows "store_run (h, s) [EvWrite] (h', s)"
proof -
  have "h' = h\<lparr>h_next := h_next h + 1, h_cell := (h_cell h)(h_next h := body)\<rparr>"
    using assms(2) by (auto simp: sl_new_def)
  then show ?thesis using store_run_one [OF fresh_write [OF assms(1), of "h_next h" "h_next h + 1" body]] by simp
qed

text \<open>The parts of the daemon that are not the store, which the store's handlers leave alone.\<close>

definition rest_of :: "daemon \<Rightarrow> peerTable \<times> netFilter \<times> string \<times> nat \<times> discovery" where
  "rest_of d = (dm_peers d, dm_net d, dm_hostID d, dm_port d, dm_mdns d)"

lemma touch_rest [simp]: "rest_of (touch now d) = rest_of d"
  by (simp add: rest_of_def)

lemma offer_leaves:
  "hs_offer S tls remote t ord d c = (r, d', c') \<Longrightarrow>
   dm_store d' = dm_store d \<and> dm_heap d' = dm_heap d \<and> rest_of d' = rest_of d"
  by (auto simp: hs_offer_def rest_of_def Let_def split: sum.splits prod.splits if_splits option.splits)

lemma confirm_leaves: "hs_confirm S host t sides cands d c = (err, d', c') \<Longrightarrow> rest_of d' = rest_of d"
  by (auto simp: hs_confirm_def rest_of_def Let_def split: sum.splits prod.splits if_splits)

lemma confirm_seal_write:
  assumes ok: "suite_ok S" and st: "store_ok h s" and get: "mget (s_m s) (pasteKey prs) = Some p" and live: "is_live now p"
    and tk: "store_take now prs h s = (body, h1, s1)" and seal: "pake_seal S side body h1 = (r, h2)"
  shows "store_run (h, s) [EvTake now prs (Some (sl_read h (p_data p))), EvWrite] (h2, s1)"
proof -
  note tf = take_facts [OF st get live tk]
  have b: "(if body = NilSlice then None else Some (sl_read h1 body)) = Some (sl_read h (p_data p))"
    using tf by auto
  obtain sealed where h2: "h2 = h1\<lparr>h_cell := (h_cell h1)(h_next h := sealed)\<rparr>"
    using seal_taken [OF ok st get live tk seal] by blast
  have s1: "s1 = s\<lparr>s_m := mput (pasteKey prs) (taken_paste p) (s_m s)\<rparr>"
    using store_take_live [OF get live] store_ok_get [OF st get] tk by (auto simp: paste_ok_def)
  have old: "\<forall>e \<in> set (s_m s). sl_ok h (p_data (snd e))" using st by (auto simp: store_ok_def paste_ok_def)
  have "apart (p_data (snd e)) (Slice (h_next h) 0)" if e: "e \<in> set (s_m s1)" for e
  proof -
    have "sl_ok h (p_data p)" using old mget_Some_mem [OF get] by fastforce
    then have "p_data (snd e) = NilSlice \<or> sl_ok h (p_data (snd e))"
      using mem_mput [of "s_m s" e "pasteKey prs" "taken_paste p"] e old st
      by (auto simp: s1 taken_paste_def store_ok_def)
    then show ?thesis by (cases "p_data (snd e)") (auto simp: apart_def)
  qed
  then have "store_step (h1, s1) EvWrite (h1\<lparr>h_next := h_next h1, h_cell := (h_cell h1)(h_next h := sealed)\<rparr>, s1)"
    by (intro step_write) simp_all
  then have w: "store_step (h1, s1) EvWrite (h2, s1)" by (simp add: h2)
  show ?thesis using run_more [OF step_take [OF tk, unfolded b] store_run_one [OF w]] .
qed

lemma confirm_run:
  assumes ok: "suite_ok S" and st: "store_ok (dm_heap d) (dm_store d)"
    and res: "hs_confirm S host t sides cands d c = (err, d', c')"
  obtains (quiet) "dm_store d' = dm_store d" "dm_heap d' = dm_heap d" "c_out c' = c_out c"
  | (sent) side prs body k where "confirmed sides cands c = Some (side, prs)"
      "store_run (dm_heap d, dm_store d) [EvTake (ht_take t) prs (Some body), EvWrite] (dm_heap d', dm_store d')"
      "c_out c' = c_out c @ take k (frame (sealed_bytes S side body))"
proof (cases "readFrame macLen c")
  case (Pair r c1)
  have out: "c_out c1 = c_out c"
    using Pair by (auto simp: readFrame_def io_ReadFull_def Let_def split: if_splits)
  show ?thesis
  proof (cases "\<exists>tag. r = Inr tag \<and> \<not> matchConfirmation sides tag < 0")
    case False
    then have "dm_store d' = dm_store d \<and> dm_heap d' = dm_heap d \<and> c' = c1"
      using res Pair by (cases r) (auto simp: hs_confirm_def Let_def)
    then have "dm_store d' = dm_store d" "dm_heap d' = dm_heap d" "c_out c' = c_out c" using out by auto
    then show ?thesis by (rule quiet)
  next
    case True
    then obtain tag i where i: "r = Inr tag" "matchConfirmation sides tag = int i" using matchConfirmation_hit by blast
    note rd = Pair [unfolded i(1)]
    have cf: "confirmed sides cands c = Some (sides ! i, cands ! i)" by (simp add: confirmed_def rd i(2))
    show ?thesis
    proof (cases "\<exists>p. mget (s_m (dm_store d)) (pasteKey (cands ! i)) = Some p \<and> is_live (ht_take t) p")
      case False
      then show ?thesis using confirm_dead [OF rd i(2) False, of S host] res out quiet by simp
    next
      case True
      then obtain p where p: "mget (s_m (dm_store d)) (pasteKey (cands ! i)) = Some p" "is_live (ht_take t) p" by blast
      let ?body = "sl_read (dm_heap d) (p_data p)"
      obtain b h1 s1 where tk: "store_take (ht_take t) (cands ! i) (dm_heap d) (dm_store d) = (b, h1, s1)"
        by (cases "store_take (ht_take t) (cands ! i) (dm_heap d) (dm_store d)")
      obtain q h2 where seal: "pake_seal S (sides ! i) b h1 = (q, h2)" by (cases "pake_seal S (sides ! i) b h1")
      have b: "b \<noteq> NilSlice" by (rule take_facts(4) [OF st p tk])
      have "dm_heap d' = h2" "dm_store d' = s1"
        using res rd i(2) b seal
        by (auto simp: hs_confirm_def Let_def tk split: sum.splits prod.splits)
      then have run: "store_run (dm_heap d, dm_store d) [EvTake (ht_take t) (cands ! i) (Some ?body), EvWrite] (dm_heap d', dm_store d')"
        using confirm_seal_write [OF ok st p tk seal] by simp
      obtain k where "c_out c' = c_out c1 @ take k (frame (sealed_bytes S (sides ! i) ?body))"
        using writeFrame_prefix [OF confirm_live(1) [OF ok st rd i(2) p res]] by blast
      then show ?thesis using sent [OF cf run] out by simp
    qed
  qed
qed

section \<open>What leaves the daemon\<close>

text \<open>The deliveries of a secret: confirmations that selected it and wrote something. A later post
  may draw the same secret anew.\<close>

fun delivered :: "bytes \<Rightarrow> 's life_event \<Rightarrow> (gotime \<times> 's pakeSide \<times> bytes) list" where
  "delivered prs (LConfirm now (Some (side, q)) out) = (if q = prs \<and> out \<noteq> [] then [(now, side, out)] else [])"
| "delivered prs _ = []"

fun reposts :: "('e, 's) suite \<Rightarrow> bytes \<Rightarrow> 's life_event \<Rightarrow> bool" where
  "reposts S prs (LPost rq (PostedJSON code expires)) = (derivePRS S code = Inr prs)"
| "reposts S prs _ = False"

text \<open>The store calls \<open>evs\<close> account for an event: every delivery is one of their fetches.\<close>

definition delivers :: "('e, 's) suite \<Rightarrow> gotime \<times> 's pakeSide \<times> bytes \<Rightarrow> gotime \<times> bytes \<Rightarrow> bool" where
  "delivers S x f \<longleftrightarrow> (case (x, f) of ((now, side, out), (now', body)) \<Rightarrow>
     now = now' \<and> (\<exists>k. out = take k (frame (sealed_bytes S side body))))"

definition accounts :: "('e, 's) suite \<Rightarrow> bytes \<Rightarrow> (gotime \<times> 's pakeSide \<times> bytes) list \<Rightarrow> store_event list \<Rightarrow> bool" where
  "accounts S prs out evs \<longleftrightarrow> (\<forall>e \<in> set evs. \<not> readds prs e)
     \<and> (\<exists>fs. subseq fs (fetched prs evs) \<and> list_all2 (delivers S) out fs)"

lemma accounts_none: "\<forall>e \<in> set evs. \<not> readds prs e \<Longrightarrow> accounts S prs [] evs"
  unfolding accounts_def by (metis list_all2_Nil list_emb_Nil)

lemma fetched_append: "fetched prs (xs @ ys) = fetched prs xs @ fetched prs ys"
  by (induction xs) (simp, metis append_Cons append_assoc fetched_Cons)

lemma accounts_append:
  assumes "accounts S prs out evs" and "accounts S prs out' evs'"
  shows "accounts S prs (out @ out') (evs @ evs')"
  using assms unfolding accounts_def fetched_append
  by (metis Un_iff set_append list_all2_appendI list_emb_append_mono)

definition run_accounts :: "('e, 's) suite \<Rightarrow> daemon \<Rightarrow> 's life_event \<Rightarrow> daemon \<Rightarrow> bool" where
  "run_accounts S d ev d' \<longleftrightarrow> (\<exists>evs. store_run (dm_heap d, dm_store d) evs (dm_heap d', dm_store d')
     \<and> (\<forall>prs. \<not> reposts S prs ev \<longrightarrow> accounts S prs (delivered prs ev) evs))"

lemma run_accounts_none:
  assumes "store_run (dm_heap d, dm_store d) evs (dm_heap d', dm_store d')"
    and "\<And>prs. delivered prs ev = []" and "\<And>prs. \<not> reposts S prs ev \<Longrightarrow> \<forall>e \<in> set evs. \<not> readds prs e"
  shows "run_accounts S d ev d'"
  unfolding run_accounts_def using assms accounts_none by metis

lemma run_accounts_same:
  "dm_store d' = dm_store d \<Longrightarrow> dm_heap d' = dm_heap d \<Longrightarrow> run_accounts S d LOther d'"
  by (rule run_accounts_none [of _ "[]"]) (simp_all add: run_done)

lemma post_accounts:
  assumes st: "store_ok (dm_heap d) (dm_store d)" and res: "handlePost S now now' rq d = (resp, d')"
  shows "run_accounts S d (LPost rq resp) d'"
  using res
proof (cases rule: handlePost_cases)
  case (refused h)
  then have "store_run (dm_heap d, dm_store d) [] (dm_heap d', dm_store d')
    \<or> store_run (dm_heap d, dm_store d) [EvWrite] (dm_heap d', dm_store d')"
    using new_body_write [OF st] run_done by metis
  then show ?thesis by (elim disjE) (rule run_accounts_none, assumption, simp_all)+
next
  case (looped data opts)
  let ?exp = "time_Round (now' + po_ttl opts) Second"
  consider code prs where "resp = PostedJSON code ?exp" "derivePRS S code = Inr prs"
      "store_add (posted (q_Get (rq_query rq) ''label'') prs ?exp (po_maxGets opts) data) (dm_store d) = Inr (dm_store d')"
    | "dm_store d' = dm_store d"
    using post_loop_outcome [OF looped(4)] by blast
  then show ?thesis
  proof cases
    case (1 code prs)
    have "store_run (dm_heap d, dm_store d) [EvAdd prs (rq_bytes rq) ?exp (po_maxGets opts) None] (dm_heap d', dm_store d')"
      by (rule store_run_one [OF step_add [OF looped(1) 1(3)]])
    then show ?thesis by (rule run_accounts_none) (auto simp: 1)
  next
    case 2
    have "store_run (dm_heap d, dm_store d) [EvWrite] (dm_heap d', dm_store d')"
      using new_body_write [OF st looped(1)] 2 by simp
    then show ?thesis by (rule run_accounts_none) simp_all
  qed
qed

lemma confirm_accounts:
  assumes ok: "suite_ok S" and st: "store_ok (dm_heap d) (dm_store d)"
    and res: "hs_confirm S host t sides cands d c = (err, d', c')"
  shows "run_accounts S d (LConfirm (ht_take t) (confirmed sides cands c) (drop (length (c_out c)) (c_out c'))) d'"
  using ok st res
proof (cases rule: confirm_run)
  case quiet
  then have "delivered prs (LConfirm (ht_take t) (confirmed sides cands c) (drop (length (c_out c)) (c_out c'))) = []" for prs
    by (cases "confirmed sides cands c") auto
  then show ?thesis using quiet by (intro run_accounts_none [of _ "[]"]) (simp_all add: run_done)
next
  case (sent side q body k)
  let ?out = "take k (frame (sealed_bytes S side body))"
  have "accounts S prs (delivered prs (LConfirm (ht_take t) (Some (side, q)) ?out)) [EvTake (ht_take t) q (Some body), EvWrite]" for prs
  proof (cases "q = prs \<and> ?out \<noteq> []")
    case True
    then have "list_all2 (delivers S) (delivered prs (LConfirm (ht_take t) (Some (side, q)) ?out)) [(ht_take t, body)]"
      by (auto simp: delivers_def)
    moreover have "subseq [(ht_take t, body)] (fetched prs [EvTake (ht_take t) q (Some body), EvWrite])"
      using True by simp
    moreover have "\<forall>e \<in> set [EvTake (ht_take t) q (Some body), EvWrite]. \<not> readds prs e" by simp
    ultimately show ?thesis unfolding accounts_def by (intro conjI exI)
  next
    case False
    then have "delivered prs (LConfirm (ht_take t) (Some (side, q)) ?out) = []" by auto
    then show ?thesis using accounts_none [of "[EvTake (ht_take t) q (Some body), EvWrite]" prs S] by simp
  qed
  moreover have "drop (length (c_out c)) (c_out c') = ?out" using sent(3) by simp
  ultimately show ?thesis unfolding run_accounts_def sent(1) using sent(2) by metis
qed

lemma netTick_leaves:
  assumes "netTick L sk net d = Inr d'"
  shows "dm_store d' = dm_store d \<and> dm_heap d' = dm_heap d"
  using assms
  by (auto simp: netTick_def Let_def and_then_Inr_iff split: prod.splits if_splits)

lemma handlePeers_leaves:
  assumes "handlePeers L sk adv now now' q obs (\<lambda>d. d) rord d = (resp, d')"
  shows "dm_store d' = dm_store d \<and> dm_heap d' = dm_heap d"
  using assms
  by (auto simp: handlePeers_def waitForPeers_def Let_def and_then_def split: prod.splits if_splits option.splits sum.splits)

lemma step_accounts:
  assumes "life_step S L d ev d'" and ok: "suite_ok S" and st: "store_ok (dm_heap d) (dm_store d)"
  shows "run_accounts S d ev d'"
  using assms(1)
proof (cases rule: life_step.cases)
  case (life_post now now' rq resp)
  then show ?thesis using post_accounts [OF st] by simp
next
  case (life_confirm host t sides cands c err c')
  then show ?thesis using confirm_accounts [OF ok st] by simp
next
  case (life_list now ord resp)
  then show ?thesis by (auto simp: handleList_def Let_def intro!: run_accounts_same)
next
  case (life_delete now prs resp)
  show ?thesis
  proof (cases "hex_decode prs")
    case None
    then show ?thesis using life_delete by (auto simp: handleDelete_def Let_def intro!: run_accounts_same)
  next
    case (Some q)
    obtain b h s where del: "store_del q (dm_heap d) (dm_store d) = (b, h, s)" by (cases "store_del q (dm_heap d) (dm_store d)")
    have "dm_heap d' = h" "dm_store d' = s"
      using life_delete(2) Some del by (auto simp: handleDelete_def Let_def split: if_splits)
    then have "store_run (dm_heap d, dm_store d) [EvDel q b] (dm_heap d', dm_store d')"
      using store_run_one [OF step_del [OF del]] by simp
    then show ?thesis unfolding life_delete(1) by (rule run_accounts_none) simp_all
  qed
next
  case (life_clear ord now resp)
  obtain h s where cl: "store_clear ord (dm_heap d) (dm_store d) = (h, s)" by (cases "store_clear ord (dm_heap d) (dm_store d)")
  have "dm_heap d' = h" "dm_store d' = s" using life_clear(3) cl by (auto simp: handleDeleteAll_def Let_def)
  then have "store_run (dm_heap d, dm_store d) [EvClear] (dm_heap d', dm_store d')"
    using store_run_one [OF step_clear [OF life_clear(2) cl]] by simp
  then show ?thesis unfolding life_clear(1) by (rule run_accounts_none) simp_all
next
  case (life_sweep_store pord now h s)
  have "store_run (dm_heap d, dm_store d) [EvSweep now] (dm_heap d', dm_store d')"
    using store_run_one [OF step_sweep [OF life_sweep_store(3,4)]] life_sweep_store(2) by simp
  then show ?thesis unfolding life_sweep_store(1) by (rule run_accounts_none) simp_all
next
  case (life_offer tls remote t ord c r c')
  then show ?thesis using offer_leaves [OF life_offer(2)] by (simp add: run_accounts_same)
qed (auto dest!: netTick_leaves handlePeers_leaves intro!: run_accounts_same)

section \<open>Histories of the daemon\<close>

lemma run_keeps_store:
  "store_run (h, s) evs (h', s') \<Longrightarrow> store_ok h s \<Longrightarrow> store_ok h' s'"
  using run_refines [of "(h, s)" evs "(h', s')"] by simp

lemma life_run_accounts:
  assumes "life_run S L d evs d'" and "suite_ok S" and "store_ok (dm_heap d) (dm_store d)"
  shows "\<exists>sevs. store_run (dm_heap d, dm_store d) sevs (dm_heap d', dm_store d')
    \<and> (\<forall>prs. (\<forall>ev \<in> set evs. \<not> reposts S prs ev) \<longrightarrow> accounts S prs (concat (map (delivered prs) evs)) sevs)"
  using assms
proof (induction rule: life_run.induct)
  case (life_done d)
  have "accounts S prs (concat (map (delivered prs) ([] :: 'b life_event list))) []" for prs
    using accounts_none [of "[]" prs S] by simp
  then show ?case using run_done by (intro exI [of _ "[]"]) simp
next
  case (life_more d ev d' evs d'')
  obtain es where es: "store_run (dm_heap d, dm_store d) es (dm_heap d', dm_store d')"
    "\<And>prs. \<not> reposts S prs ev \<Longrightarrow> accounts S prs (delivered prs ev) es"
    using step_accounts [OF life_more(1,4,5)] unfolding run_accounts_def by blast
  obtain es' where es': "store_run (dm_heap d', dm_store d') es' (dm_heap d'', dm_store d'')"
    "\<And>prs. \<forall>ev \<in> set evs. \<not> reposts S prs ev \<Longrightarrow> accounts S prs (concat (map (delivered prs) evs)) es'"
    using life_more(3) [OF life_more(4) run_keeps_store [OF es(1) life_more(5)]] by blast
  show ?case
    using store_run_append [OF es(1) es'(1)] accounts_append [OF es(2) es'(2)]
    by (intro exI [of _ "es @ es'"]) simp
qed

lemma list_all2_delivers:
  assumes "list_all2 (delivers S) xs fs" and "\<forall>(now, b) \<in> set fs. b = body \<and> \<not> time_After now expires"
  shows "\<forall>(now, side, out) \<in> set xs. now \<le> expires \<and> (\<exists>k. out = take k (frame (sealed_bytes S side body)))"
  using assms by (induction rule: list_all2_induct) (auto simp: delivers_def time_After_def)

text \<open>C27: A limit holds end to end. From the answer to a post on, whatever the daemon goes through
  (other posts, deletions, handshakes of any clients in any interleaving, sweeps, changes of the
  network), as long as the same secret is not drawn anew, the confirmations that are answered for its
  secret number at most \<^verbatim>\<open>max_gets\<close>, each of them comes no later than the expiry, and all
  that is written in answer is the posted body, sealed under the key of the exchange.\<close>

theorem delivered_at_most:
  assumes "suite_ok S" and "store_ok (dm_heap d0) (dm_store d0)"
    and "handlePost S now now' rq d0 = (PostedJSON code expires, d1)"
    and "parsePostOptions (rq_query rq) = Inr opts" and "derivePRS S code = Inr prs"
    and "life_run S L d1 evs d2" and "\<forall>ev \<in> set evs. \<not> reposts S prs ev"
  shows "(0 < po_maxGets opts \<longrightarrow> length (concat (map (delivered prs) evs)) \<le> nat (po_maxGets opts))
    \<and> (\<forall>(t, side, out) \<in> set (concat (map (delivered prs) evs)).
         t \<le> expires \<and> (\<exists>k. out = take k (frame (sealed_bytes S side (rq_bytes rq)))))"
proof -
  note ad = added_holds [OF assms(2) post_added [OF assms(2-5)]]
  obtain e where e: "abs_store (dm_heap d1) (dm_store d1) prs = Some e"
    "holds (rq_bytes rq) expires (if 0 < po_maxGets opts then Some (nat (po_maxGets opts)) else None) e" using ad(2) by blast
  obtain sevs where run: "store_run (dm_heap d1, dm_store d1) sevs (dm_heap d2, dm_store d2)"
    and acc: "accounts S prs (concat (map (delivered prs) evs)) sevs"
    using life_run_accounts [OF assms(6,1) ad(1)] assms(7) by blast
  have spec: "spec_run (abs_store (dm_heap d1) (dm_store d1)) sevs = Some (abs_store (dm_heap d2) (dm_store d2))"
    using run_refines [OF run] ad(1) by simp
  obtain fs where fs: "subseq fs (fetched prs sevs)" "list_all2 (delivers S) (concat (map (delivered prs) evs)) fs"
    and nr: "\<forall>ev \<in> set sevs. \<not> readds prs ev" using acc unfolding accounts_def by blast
  note sf = spec_fetched [OF spec e nr]
  have "length (concat (map (delivered prs) evs)) \<le> length (fetched prs sevs)"
    using list_all2_lengthD [OF fs(2)] list_emb_length [OF fs(1)] by simp
  moreover have "set fs \<subseteq> set (fetched prs sevs)" using list_emb_set [OF fs(1)] by blast
  then have "\<forall>(t, b) \<in> set fs. b = rq_bytes rq \<and> \<not> time_After t expires" using conjunct1 [OF sf] by blast
  ultimately show ?thesis using sf list_all2_delivers [OF fs(2)] by auto
qed

theorem delivered_at_most_witness:
  "\<exists>(d1 :: daemon) d2 prs out. derivePRS toy_suite ''acid-acid-acid'' = Inr prs
     \<and> handlePost toy_suite 1 (5 * Second) short_post (idle_daemon NilDiscovery [0, 0, 0, 0, 0, 0])
        = (PostedJSON ''acid-acid-acid'' (5 * Second), d1)
     \<and> life_run toy_suite query_dns d1 [LConfirm (5 * Second) (Some (toy_done [1], prs)) out] d2
     \<and> (\<exists>k. out = take k (frame (sealed_bytes toy_suite (toy_done [1]) [104, 105])))"
proof -
  obtain d1 where p: "handlePost toy_suite 1 (5 * Second) short_post (idle_daemon NilDiscovery [0, 0, 0, 0, 0, 0])
      = (PostedJSON ''acid-acid-acid'' (5 * Second), d1)" using demo_post by blast
  obtain prs where prs: "derivePRS toy_suite ''acid-acid-acid'' = Inr prs" by (simp add: derivePRS_def toy_suite_def)
  let ?c = "\<lparr>c_in = frame (clientTag (toy_done [1])), c_out = [], c_room = maxFrame\<rparr>"
  let ?t = "demo_times\<lparr>ht_take := 5 * Second\<rparr>"
  obtain err d2 c' where cf: "hs_confirm toy_suite ''10.0.0.1'' ?t [toy_done [1]] [prs] d1 ?c = (err, d2, c')"
    by (cases "hs_confirm toy_suite ''10.0.0.1'' ?t [toy_done [1]] [prs] d1 ?c")
  have l: "length (clientTag (toy_done [1])) = macLen" by (simp add: clientTag_def confirm_def macLen_def)
  have m: "matchConfirmation [toy_done [1]] (clientTag (toy_done [1])) = int 0"
    using l by (simp add: matchConfirmation_def macEqual_def)
  have "readFrame macLen ?c = (Inr (clientTag (toy_done [1])), \<lparr>c_in = [], c_out = [], c_room = maxFrame\<rparr>)"
    using readFrame_frame [of ?c "clientTag (toy_done [1])" "[]" macLen] l by (simp add: go_const)
  then have c: "confirmed [toy_done [1]] [prs] ?c = Some (toy_done [1], prs)" by (simp add: confirmed_def m)
  have step: "life_step toy_suite query_dns d1 (LConfirm (5 * Second) (Some (toy_done [1], prs)) (c_out c')) d2"
    using life_confirm [OF cf, of query_dns] c by simp
  have run: "life_run toy_suite query_dns d1 [LConfirm (5 * Second) (Some (toy_done [1], prs)) (c_out c')] d2"
    by (rule life_more [OF step life_done])
  have b: "rq_bytes short_post = [104, 105]" by (simp add: short_post_def)
  have "\<exists>k. c_out c' = take k (frame (sealed_bytes toy_suite (toy_done [1]) [104, 105]))"
    using delivered_at_most [OF toy_suite_ok idle_daemon_ok p short_post_options prs run] b
    by (cases "c_out c' = []") (auto intro: exI [of _ 0])
  then show ?thesis using p prs run by blast
qed

section \<open>The invariant\<close>

text \<open>
  The invariants of the parts, and what \<^verbatim>\<open>runDaemon\<close> sets up once: the interface
  \<^verbatim>\<open>d.mdns\<close> holds a responder for the own host, or (when multicast could not be set up) a nil
  pointer, but is never nil itself.
\<close>

definition discovery_ok :: "string \<Rightarrow> bool \<Rightarrow> discovery \<Rightarrow> bool" where
  "discovery_ok hid up m \<longleftrightarrow>
     (case m of NilDiscovery \<Rightarrow> False | Discovery None \<Rightarrow> \<not> up | Discovery (Some r) \<Rightarrow> up \<and> rs_hostID r = hid)"

definition daemon_ok :: "string \<Rightarrow> bool \<Rightarrow> daemon \<Rightarrow> bool" where
  "daemon_ok hid up d \<longleftrightarrow>
     store_ok (dm_heap d) (dm_store d) \<and> filter_ok (dm_net d) \<and> table_ok hid (dm_peers d)
     \<and> dm_hostID d = hid \<and> discovery_ok hid up (dm_mdns d)"

lemma responder_hostID [simp]:
  "rs_hostID (mdns_send sk f b r) = rs_hostID r" "rs_hostID (mdns_query L sk f r) = rs_hostID r"
  "rs_hostID (announce L sk f r) = rs_hostID r" "rs_hostID (answerFires L sk now f r) = rs_hostID r"
  by (simp_all add: mdns_send_def mdns_query_def announce_def answerFires_def split: option.splits)

lemma syncGroups_hostID: "rs_hostID (snd (syncGroups can_join f r)) = rs_hostID r"
  by (simp add: syncGroups_def Let_def split: prod.splits)

lemma networkChanged_hostID [simp]: "rs_hostID (networkChanged L sk f r) = rs_hostID r"
  using syncGroups_hostID [of "sk_join sk" f r]
  by (auto simp: networkChanged_def split: prod.splits option.splits)

definition mdns_starts :: "mdns_env \<Rightarrow> bool" where
  "mdns_starts e \<longleftrightarrow> listenMDNS e = None \<and> me_loopback e = None"

lemma runDaemon_ok:
  assumes "runDaemon e now rs = Inr d"
  shows "\<exists>hid. daemon_ok hid (mdns_starts (de_mdns e)) d"
proof -
  obtain spki port s rs1 where r: "de_identity e = Inr spki" "newStore rs = Inr (s, rs1)"
    "d = (touch now \<lparr>dm_store = s, dm_limiter = newLimiter, dm_peers = newPeerTable now, dm_net = newNetFilter (de_net e),
       dm_hostID = hostID spki, dm_port = port, dm_started = now, dm_mdns = NilDiscovery, dm_lastUsed = 0,
       dm_heap = empty_heap, dm_rand = rs1\<rparr>)\<lparr>dm_mdns := Discovery (fst (startMDNS (de_mdns e) (de_join e)
         (newNetFilter (de_net e)) (hostID spki) port))\<rparr>"
    using assms by (cases "listenControl (de_sock e)"; cases "fst (listenControl (de_sock e))")
      (auto simp: runDaemon_def and_then_Inr_iff Let_def)
  have "rs_hostID (newResponder hid p n) = hid" for hid p n by (simp add: newResponder_def)
  then have "discovery_ok (hostID spki) (mdns_starts (de_mdns e)) (dm_mdns d)"
    by (simp add: discovery_ok_def r(3) startMDNS_def mdns_starts_def syncGroups_hostID split: option.split)
  moreover have "store_ok (dm_heap d) (dm_store d)" using newStore_ok [OF r(2)] by (simp add: r(3) touch_def)
  ultimately show ?thesis
    using newNetFilter_ok table_ok_new by (intro exI [of _ "hostID spki"]) (simp add: daemon_ok_def r(3) touch_def)
qed

lemma answerQuestions_hostID:
  "answerQuestions L now f src qs rs r = Inr (w, r', rs') \<Longrightarrow> rs_hostID r' = rs_hostID r"
proof (induction qs)
  case (Cons q qs)
  have "rs_hostID (snd (allowLegacy now r)) = rs_hostID r"
    by (simp add: allowLegacy_def Let_def split: prod.splits)
  moreover have "rs_hostID (mdns_sendTo b p x) = rs_hostID x" for b p x
    by (simp add: mdns_sendTo_def split: option.splits)
  moreover have "scheduleAnswer now rs r = Inr (w, r', rs') \<Longrightarrow> rs_hostID r' = rs_hostID r"
    by (auto simp: scheduleAnswer_def Let_def and_then_Inr_iff split: if_splits)
  ultimately show ?case using Cons by (auto split: if_splits option.splits prod.splits)
qed simp

lemma readPacket_hostID:
  "readPacket L now f perm pkt src rs r t = Inr (w, r', t', rs') \<Longrightarrow> rs_hostID r' = rs_hostID r"
  by (auto simp: readPacket_def mdns_handle_def Let_def and_then_Inr_iff
      dest!: answerQuestions_hostID split: option.splits if_splits)

lemma handlers_leave:
  "handlePost S now now' rq d = (resp, d') \<Longrightarrow> rest_of d' = rest_of d"
  "handleList now ord d = (resp, d') \<Longrightarrow> rest_of d' = rest_of d"
  "handleDelete now prs d = (resp, d') \<Longrightarrow> rest_of d' = rest_of d"
  "handleDeleteAll now ord d = (resp, d') \<Longrightarrow> rest_of d' = rest_of d"
  by (auto simp: handlePost_def handleList_def handleDelete_def handleDeleteAll_def Let_def rest_of_def
      split: sum.splits prod.splits if_splits option.splits)

lemma discovery_query_ok: "discovery_query L sk f m = Inr m' \<Longrightarrow> discovery_ok hid up m \<Longrightarrow> discovery_ok hid up m'"
  by (auto simp: discovery_query_def discovery_ok_def split: discovery.splits option.splits if_splits)

lemma discovery_networkChanged_ok:
  "discovery_networkChanged L sk f m = Inr m' \<Longrightarrow> discovery_ok hid up m \<Longrightarrow> discovery_ok hid up m'"
  by (auto simp: discovery_networkChanged_def discovery_ok_def split: discovery.splits option.splits)

definition rest_ok :: "string \<Rightarrow> bool \<Rightarrow> peerTable \<times> netFilter \<times> string \<times> nat \<times> discovery \<Rightarrow> bool" where
  "rest_ok hid up x \<longleftrightarrow> (case x of (t, f, h, p, m) \<Rightarrow> filter_ok f \<and> table_ok hid t \<and> h = hid \<and> discovery_ok hid up m)"

lemma daemon_ok_rest: "daemon_ok hid up d \<longleftrightarrow> store_ok (dm_heap d) (dm_store d) \<and> rest_ok hid up (rest_of d)"
  by (auto simp: daemon_ok_def rest_ok_def rest_of_def)

lemma handlePeers_rest:
  assumes "handlePeers L sk adv now now' q obs (\<lambda>d. d) rord d = (resp, d')" and "rest_ok hid up (rest_of d)"
  shows "rest_ok hid up (rest_of d')"
proof -
  have "rest_of d' = rest_of d \<or> (\<exists>m. discovery_query L sk (dm_net d) (dm_mdns d) = Inr m \<and> rest_of d' = rest_of (d\<lparr>dm_mdns := m\<rparr>))"
    using assms(1)
    by (auto simp: handlePeers_def waitForPeers_def Let_def and_then_def rest_of_def
        split: prod.splits if_splits option.splits sum.splits)
  then show ?thesis using assms(2) discovery_query_ok by (auto simp: rest_ok_def rest_of_def)
qed

lemma netTick_rest:
  assumes "netTick L sk net d = Inr d'" and "rest_ok hid up (rest_of d)"
  shows "rest_ok hid up (rest_of d')"
proof -
  obtain changed f where r: "refresh net (dm_net d) = (changed, f)" by (cases "refresh net (dm_net d)")
  have f: "filter_ok f" using refresh_facts(1) [OF _ r] assms(2) by (simp add: rest_ok_def rest_of_def)
  show ?thesis
    using assms f table_ok_clear discovery_networkChanged_ok
    by (auto simp: netTick_def r Let_def and_then_Inr_iff rest_ok_def rest_of_def split: if_splits)
qed

lemma refresh_rest: "rest_ok hid up (rest_of d) \<Longrightarrow> rest_ok hid up (rest_of (d\<lparr>dm_net := snd (refresh net (dm_net d))\<rparr>))"
  using refresh_facts(1) [of "dm_net d" net] by (cases "refresh net (dm_net d)") (auto simp: rest_ok_def rest_of_def)

lemma step_rest:
  assumes "life_step S L d ev d'" and ok: "rest_ok hid up (rest_of d)"
  shows "rest_ok hid up (rest_of d')"
  using assms(1)
proof (cases rule: life_step.cases)
  case (life_packet r now perm pkt src w r' pt rs)
  then have "rs_hostID r = hid" using ok by (auto simp: rest_ok_def rest_of_def discovery_ok_def)
  then show ?thesis
    using life_packet(2,3) ok readPacket_table [OF life_packet(4)] readPacket_hostID [OF life_packet(4)]
    by (simp add: rest_ok_def rest_of_def discovery_ok_def)
next
  case (life_timer r r' now)
  then show ?thesis using ok by (auto simp: rest_ok_def rest_of_def discovery_ok_def)
next
  case (life_offer tls remote t ord c r c')
  then show ?thesis using ok offer_leaves [OF life_offer(2)] by simp
next
  case (life_post now now' rq resp)
  then show ?thesis using ok handlers_leave(1) [OF life_post(2)] by simp
next
  case (life_confirm host t sides cands c err c')
  then show ?thesis using ok confirm_leaves [OF life_confirm(2)] by simp
next
  case (life_sweep_peers rord now)
  then show ?thesis using ok table_ok_sweep by (auto simp: rest_ok_def rest_of_def)
next
  case (life_refresh net)
  then show ?thesis using refresh_rest [OF ok] by simp
next
  case life_forget
  then show ?thesis using ok table_ok_clear by (auto simp: rest_ok_def rest_of_def)
next
  case (life_changed sk m)
  then show ?thesis using ok discovery_networkChanged_ok by (auto simp: rest_ok_def rest_of_def)
next
  case (life_sweep_store pord now h s)
  then show ?thesis using ok by (simp add: rest_of_def)
next
  case (life_limiter x)
  then show ?thesis using ok by (simp add: rest_of_def)
next
  case (life_touch now)
  then show ?thesis using ok by (simp add: rest_of_def)
next
  case (life_draw rs)
  then show ?thesis using ok by (simp add: rest_of_def)
qed (use ok handlers_leave(2-4) handlePeers_rest netTick_rest in \<open>metis+\<close>)

text \<open>A tick of \<^verbatim>\<open>sweepLoop\<close> is three of the steps.\<close>

lemma sweepTick_steps:
  assumes "sweepTick t pord iord rord lord d = (stop, d')"
    and "visits pord (s_m (dm_store d))" and "visits rord (pt_m (dm_peers d))"
  shows "life_run S L d [LOther, LOther, LOther] d'"
proof -
  obtain h s where sw: "store_sweep (sw_store t) pord (dm_heap d) (dm_store d) = (h, s)"
    by (cases "store_sweep (sw_store t) pord (dm_heap d) (dm_store d)")
  let ?d1 = "d\<lparr>dm_heap := h, dm_store := s\<rparr>"
  let ?d2 = "?d1\<lparr>dm_limiter := snd (limiter_step (SweepPeers (sw_limiter t) iord) (dm_limiter ?d1))\<rparr>"
  have "d' = ?d2\<lparr>dm_peers := peers_sweep (sw_peers t) rord (dm_peers ?d2)\<rparr>"
    using assms(1) sw by (simp add: sweepTick_def Let_def)
  moreover have "visits rord (pt_m (dm_peers ?d2))" using assms(3) by simp
  ultimately show ?thesis
    using life_sweep_store [OF assms(2) sw] life_limiter [of S L ?d1] life_sweep_peers [of rord ?d2]
    by (metis life_done life_more)
qed

lemma life_run_ok:
  "life_run S L d evs d' \<Longrightarrow> suite_ok S \<Longrightarrow> daemon_ok hid up d \<Longrightarrow> daemon_ok hid up d'"
proof (induction rule: life_run.induct)
  case (life_more d ev d' evs d'')
  have st: "store_ok (dm_heap d) (dm_store d)" using life_more(5) by (simp add: daemon_ok_rest)
  obtain es where "store_run (dm_heap d, dm_store d) es (dm_heap d', dm_store d')"
    using step_accounts [OF life_more(1,4) st] unfolding run_accounts_def by blast
  then have "store_ok (dm_heap d') (dm_store d')" using run_keeps_store st by blast
  then show ?case using life_more step_rest [OF life_more(1)] by (simp add: daemon_ok_rest)
qed

text \<open>C28: The invariant of the daemon: in every state it can reach from its start there are at most 256
  pastes, each under the key of its own secret and with a payload buffer of its own; the table of
  peers holds every peer under its own host ID and never the machine itself; and the addresses the
  data plane serves are exactly those of the interfaces that discovery uses.\<close>

theorem daemon_invariant:
  assumes "suite_ok S" and "runDaemon e now rs = Inr d0" and "life_run S L d0 evs d"
  shows "length (s_m (dm_store d)) \<le> maxPastes \<and> unshared (s_m (dm_store d))
    \<and> (\<forall>k p. mget (s_m (dm_store d)) k = Some p \<longrightarrow> k = pasteKey (p_prs p) \<and> (0 < p_MaxGets p \<longrightarrow> p_Gets p \<le> p_MaxGets p)
         \<and> (p_Burned p \<longleftrightarrow> 0 < p_MaxGets p \<and> p_Gets p = p_MaxGets p))
    \<and> dm_hostID d = dm_hostID d0 \<and> mget (pt_m (dm_peers d)) (dm_hostID d) = None
    \<and> (\<forall>k p. mget (pt_m (dm_peers d)) k = Some p \<longrightarrow> pe_HostID p = k)
    \<and> (\<forall>a. isOwnAddr a (dm_net d) \<longleftrightarrow> (\<exists>ifi \<in> set (nf_ifaces (dm_net d)). \<exists>ip. ip4 ifi = Some ip \<and> ip4_String ip = a))"
proof -
  obtain hid up where ok0: "daemon_ok hid up d0" using runDaemon_ok [OF assms(2)] by blast
  then have ok: "daemon_ok hid up d" by (rule life_run_ok [OF assms(3,1)])
  then have f: "nf_addrs (dm_net d) = addrs_loop (nf_ifaces (dm_net d)) []" by (simp add: daemon_ok_def filter_ok_def)
  have p: "k = pasteKey (p_prs p)" "0 < p_MaxGets p \<longrightarrow> p_Gets p \<le> p_MaxGets p"
    "p_Burned p \<longleftrightarrow> 0 < p_MaxGets p \<and> p_Gets p = p_MaxGets p" if "mget (s_m (dm_store d)) k = Some p" for k p
  proof -
    have "paste_ok (dm_heap d) k p" using store_ok_get [OF _ that] ok by (simp add: daemon_ok_def)
    then show "k = pasteKey (p_prs p)" "0 < p_MaxGets p \<longrightarrow> p_Gets p \<le> p_MaxGets p"
      "p_Burned p \<longleftrightarrow> 0 < p_MaxGets p \<and> p_Gets p = p_MaxGets p"
      unfolding paste_ok_def by metis+
  qed
  have t: "pe_HostID p = k" "k \<noteq> hid" if "mget (pt_m (dm_peers d)) k = Some p" for k p
    using mget_Some_mem [OF that] ok by (auto simp: daemon_ok_def table_ok_def)
  have peers: "mget (pt_m (dm_peers d)) (dm_hostID d) = None" "\<forall>k p. mget (pt_m (dm_peers d)) k = Some p \<longrightarrow> pe_HostID p = k"
    using t ok by (auto simp: daemon_ok_def) (metis not_Some_eq)
  have store: "length (s_m (dm_store d)) \<le> maxPastes" "unshared (s_m (dm_store d))" "dm_hostID d = dm_hostID d0"
    using ok ok0 by (simp_all add: daemon_ok_def store_ok_def)
  have pastes: "\<forall>k p. mget (s_m (dm_store d)) k = Some p \<longrightarrow> k = pasteKey (p_prs p)
      \<and> (0 < p_MaxGets p \<longrightarrow> p_Gets p \<le> p_MaxGets p) \<and> (p_Burned p \<longleftrightarrow> 0 < p_MaxGets p \<and> p_Gets p = p_MaxGets p)"
    using p by blast
  have net: "\<forall>a. isOwnAddr a (dm_net d) \<longleftrightarrow> (\<exists>ifi \<in> set (nf_ifaces (dm_net d)). \<exists>ip. ip4 ifi = Some ip \<and> ip4_String ip = a)"
    by (simp add: isOwnAddr_def f addrs_loop_get)
  show ?thesis by (intro conjI store peers pastes net)
qed

definition demo_env :: daemon_env where
  "demo_env = \<lparr>de_identity = Inr [], de_bind = (\<lambda>p. Some (Some 7391)),
     de_sock = \<lparr>se_path = Inr ''sock'', se_perm = Inr 448, se_dial = False, se_remove = None, se_notExist = False,
       se_listen = None, se_chmod = None\<rparr>,
     de_mdns = \<lparr>me_control = None, me_setopt = (\<lambda>_. None), me_listen = Some (ErrMsg ''address already in use''),
       me_loopback = None, me_hostname = ''box''\<rparr>, de_join = (\<lambda>n. True), de_net = Inr []\<rparr>"

lemma demo_start: "\<exists>d. runDaemon demo_env 0 (replicate 32 9) = Inr d \<and> dm_started d = 0 \<and> pt_m (dm_peers d) = []
  \<and> nf_addrs (dm_net d) = []"
proof -
  have new: "newStore (replicate 32 9) = Inr (\<lparr>s_m = [], s_decoy = replicate 32 9\<rparr>, [])"
    by (simp add: newStore_def rand_Read_def and_then_def go_const)
  have l: "listenControl (de_sock demo_env) = (None, [SockDial, SockRemove, SockListen, SockChmod])"
    by (simp add: demo_env_def listenControl_def)
  have e: "de_identity demo_env = Inr []" "listenData (de_bind demo_env) = Inr (Some 7391)" "de_net demo_env = Inr []"
    "listenPort (Some 7391) = Inr 7391"
    by (simp_all add: demo_env_def listenData_def listenPort_def)
  have n: "nf_addrs (newNetFilter (Inr [])) = []"
    by (simp add: newNetFilter_def refresh_def usableInterfaces_def sameAddrs_def)
  show ?thesis
    unfolding runDaemon_def e new l and_then_simps prod.case option.case Let_def
    by (simp add: newPeerTable_def touch_def n)
qed

theorem daemon_invariant_witness:
  "\<exists>d0 d. runDaemon demo_env 0 (replicate 32 9) = Inr d0
     \<and> life_run toy_suite query_dns d0 [LOther :: byte life_event] d \<and> mget (pt_m (dm_peers d)) (dm_hostID d0) = None"
proof -
  obtain d0 where d0: "runDaemon demo_env 0 (replicate 32 9) = Inr d0" using demo_start by blast
  obtain resp d where l: "handleList 1 [] d0 = (resp, d)" by (cases "handleList 1 [] d0")
  have run: "life_run toy_suite query_dns d0 [LOther :: byte life_event] d"
    by (rule life_more [OF life_list [OF l] life_done])
  show ?thesis using daemon_invariant [OF toy_suite_ok d0 run] d0 run by metis
qed

text \<open>C29: A daemon that could not open its multicast socket does not survive a change of the network.
  \<^verbatim>\<open>startMDNS\<close> then returns a nil \<^verbatim>\<open>*responder\<close>, which \<^verbatim>\<open>runDaemon\<close>
  stores in an interface; the interface is not nil, so in every state the daemon reaches the guards
  \<^verbatim>\<open>d.mdns != nil\<close> hold, the next change of the addresses panics in \<^verbatim>\<open>netLoop\<close>,
  which ends the process with all pastes, and while the daemon is young every wait for peers panics.\<close>

theorem mdns_failure_crashes:
  assumes "suite_ok S" and "runDaemon e now rs = Inr d0" and "listenMDNS (de_mdns e) = Some err" and "life_run S L d0 evs d"
  shows "(fst (refresh net (dm_net d)) \<longrightarrow> netTick L sk net d = Inl ErrPanic)
    \<and> (length (pt_m (dm_peers d)) = 0 \<and> time_Sub t (dm_started d) \<le> peerWarmup \<and> dns_PackQuery L mdnsService \<noteq> None
        \<and> time_ParseDuration (q_Get q ''wait'') = Some w \<and> 0 < w
        \<longrightarrow> fst (handlePeers L sk adv t t' q obs world ord d) = Panicked)"
proof -
  obtain hid where "daemon_ok hid False d0" using runDaemon_ok [OF assms(2)] assms(3) by (auto simp: mdns_starts_def)
  then have "daemon_ok hid False d" by (rule life_run_ok [OF assms(4,1)])
  then have m: "dm_mdns d = Discovery None"
    by (auto simp: daemon_ok_def discovery_ok_def split: discovery.splits option.splits)
  show ?thesis
    using m by (auto simp: netTick_def discovery_networkChanged_def handlePeers_def waitForPeers_def discovery_query_def
        Let_def split: prod.splits)
qed

theorem mdns_failure_crashes_witness:
  "\<exists>d. runDaemon demo_env 0 (replicate 32 9) = Inr d
     \<and> netTick query_dns demo_socket (Inr [demo_iface]) d = Inl ErrPanic"
proof -
  obtain d where d: "runDaemon demo_env 0 (replicate 32 9) = Inr d" "nf_addrs (dm_net d) = []" using demo_start by blast
  have "usableInterfaces (Inr [demo_iface]) = Inr [demo_iface]"
    using demo_not_excluded demo_ip4 by (simp add: usableInterfaces_def demo_iface_def)
  then have "fst (refresh (Inr [demo_iface]) (dm_net d))"
    using d(2) demo_ip4 by (simp add: refresh_def sameAddrs_def mput_def)
  moreover have "listenMDNS (de_mdns demo_env) = Some (ErrMsg ''address already in use'')"
    by (simp add: demo_env_def listenMDNS_def)
  ultimately show ?thesis
    using mdns_failure_crashes [OF toy_suite_ok d(1) _ life_done, of _ "Inr [demo_iface]"] d(1) by blast
qed

text \<open>C30: The daemon stops when, and only when, it has been idle for half an hour and holds no paste
  that has not expired: a tick of the sweep loop asks to stop exactly in that case, and then nothing
  retrievable is lost.\<close>

theorem idle_stop:
  assumes "store_ok (dm_heap d) (dm_store d)" and "visits pord (s_m (dm_store d))"
    and "sweepTick t pord iord rord lord d = (stop, d')" and "visits (lord d') (s_m (dm_store d'))"
  shows "(stop \<longleftrightarrow> (\<forall>prs e. abs_store (dm_heap d) (dm_store d) prs = Some e \<longrightarrow> time_After (sw_store t) (se_expires e))
      \<and> idleTimeout < idleFor (sw_stop t) d) \<and> (stop \<longrightarrow> abs_store (dm_heap d') (dm_store d') = Map.empty)"
proof -
  obtain h s where sw: "store_sweep (sw_store t) pord (dm_heap d) (dm_store d) = (h, s)"
    by (cases "store_sweep (sw_store t) pord (dm_heap d) (dm_store d)")
  have d': "dm_heap d' = h" "dm_store d' = s" "dm_lastUsed d' = dm_lastUsed d"
    and stop: "stop = shouldStop (sw_stop t) (lord d') d'"
    using assms(3) sw by (auto simp: sweepTick_def Let_def)
  have s: "store_ok h s" using store_sweep_ok [OF assms(1,2) sw] by simp
  have len: "length (lord d') = length (s_m s)" using assms(4) d'(2) by (metis visits_def size_mset)
  have "s_m s = [] \<longleftrightarrow> abs_store h s = Map.empty"
    using abs_store_dom [OF s] by (auto simp: abs_store_def)
  moreover have "abs_store h s = (\<lambda>prs. case abs_store (dm_heap d) (dm_store d) prs of None \<Rightarrow> None
      | Some e \<Rightarrow> if time_After (sw_store t) (se_expires e) then None else Some e)"
    using refine_sweep [OF assms(1,2) sw] by simp
  then have "abs_store h s = Map.empty \<longleftrightarrow>
      (\<forall>prs e. abs_store (dm_heap d) (dm_store d) prs = Some e \<longrightarrow> time_After (sw_store t) (se_expires e))"
    by (auto simp: fun_eq_iff split: option.splits)
  ultimately show ?thesis
    unfolding stop by (auto simp: shouldStop_def store_list_def idleFor_def len d')
qed

theorem idle_stop_witness:
  "\<exists>d'. sweepTick \<lparr>sw_store = Hour, sw_limiter = Hour, sw_peers = Hour, sw_stop = Hour\<rparr> [] [] [] (\<lambda>d. [])
       (touch 0 (idle_daemon NilDiscovery [])) = (True, d')
     \<and> abs_store (dm_heap d') (dm_store d') = Map.empty"
proof -
  let ?t = "\<lparr>sw_store = Hour, sw_limiter = Hour, sw_peers = Hour, sw_stop = Hour\<rparr>"
  let ?d = "touch 0 (idle_daemon NilDiscovery [])"
  obtain stop d' where st: "sweepTick ?t [] [] [] (\<lambda>d. []) ?d = (stop, d')" by (cases "sweepTick ?t [] [] [] (\<lambda>d. []) ?d")
  have s: "s_m (dm_store ?d) = []" by (simp add: idle_daemon_def)
  then have s': "s_m (dm_store d') = []"
    using st by (auto simp: sweepTick_def Let_def store_sweep_def sweep_pastes_def split: prod.splits)
  have idle: "idleTimeout < idleFor (sw_stop ?t) ?d" by (simp add: idleFor_def time_Unix_def go_const)
  have none: "abs_store (dm_heap ?d) (dm_store ?d) = Map.empty" using s by (simp add: abs_store_def fun_eq_iff)
  have v: "visits [] (s_m (dm_store ?d))" "visits [] (s_m (dm_store d'))" using s s' by (simp_all add: visits_def)
  have "store_ok (dm_heap ?d) (dm_store ?d)" using idle_daemon_ok by simp
  from idle_stop [OF this v(1) st v(2)] show ?thesis using idle none st by auto
qed

end
