(* ===== verification/Commands.thy ===== *)
theory Commands
  imports Control
begin

text \<open>
  The client commands of \<^verbatim>\<open>commands.go\<close>, after \<^verbatim>\<open>flag\<close> has parsed their arguments, and
  the control request they share. The HTTP client, the JSON decoder and the files are arguments.
\<close>

section \<open>The control request\<close>

definition dial_timeout :: duration where [go_const]: "dial_timeout = 5 * Second"

text \<open>The polling of \<^verbatim>\<open>waitForSock\<close>, over whether each dial succeeds and the clock after it.\<close>

fun wait_sock :: "string \<Rightarrow> gotime \<Rightarrow> (bool \<times> gotime) list \<Rightarrow> go_error option" where
  "wait_sock sock deadline [] = Some (ErrMsg (''daemon did not come up at '' @ sock))"
| "wait_sock sock deadline ((up, now) # obs) =
     (if up then None
      else if deadline \<le> now then Some (ErrMsg (''daemon did not come up at '' @ sock))
      else wait_sock sock deadline obs)"

definition waitForSock :: "string \<Rightarrow> gotime \<Rightarrow> (bool \<times> gotime) list \<Rightarrow> go_error option" where
  "waitForSock sock now obs = wait_sock sock (time_Add now dial_timeout) obs"

record control_env =
  ce_sock :: "string result"
  ce_dial :: bool
  ce_start :: "go_error option"
  ce_now :: gotime
  ce_obs :: "(bool \<times> gotime) list"

definition ensureDaemon :: "control_env \<Rightarrow> string \<Rightarrow> go_error option" where
  "ensureDaemon e sock =
     (if ce_dial e then None
      else case ce_start e of Some err \<Rightarrow> Some err | None \<Rightarrow> waitForSock sock (ce_now e) (ce_obs e))"

text \<open>The body of a response as text.\<close>

definition string_of_bytes :: "bytes \<Rightarrow> string" where
  "string_of_bytes bs = map (\<lambda>b. char_of (unat b)) bs"

definition decodeControlResponse :: "unicode \<Rightarrow> nat \<Rightarrow> bytes \<Rightarrow> (bytes \<Rightarrow> 'a result) \<Rightarrow> 'a result" where
  "decodeControlResponse uni status body decode =
     (if status \<ge> StatusBadRequest
      then Inl (ErrMsg (strings_TrimSpace uni (string_of_bytes (take 4096 body))))
      else decode body)"

text \<open>\<open>send\<close> is what the client's \<^verbatim>\<open>Do\<close> answers to a method, a path and a query, and a body.\<close>

type_synonym transport = "string \<Rightarrow> string \<Rightarrow> (string \<times> string) list \<Rightarrow> bytes \<Rightarrow> (nat \<times> bytes) result"

definition control ::
  "unicode \<Rightarrow> control_env \<Rightarrow> transport \<Rightarrow> string \<Rightarrow> string \<Rightarrow> (string \<times> string) list \<Rightarrow> bytes
    \<Rightarrow> (bytes \<Rightarrow> 'a result) \<Rightarrow> 'a result" where
  "control uni e send method path q body decode =
     and_then (ce_sock e) (\<lambda>sock.
     case ensureDaemon e sock of
       Some err \<Rightarrow> Inl err
     | None \<Rightarrow> and_then (send method path q body) (\<lambda>(status, bs). decodeControlResponse uni status bs decode))"

section \<open>Post\<close>

record post_flags =
  pf_label :: string
  pf_ttl :: duration
  pf_maxGets :: int
  pf_burn :: bool
  pf_style :: string
  pf_file :: string

definition burn_maxGets :: "post_flags \<Rightarrow> int" where
  "burn_maxGets pf = (if pf_burn pf then 1 else pf_maxGets pf)"

definition post_query :: "post_flags \<Rightarrow> (string \<times> string) list" where
  "post_query pf =
     [(''code_style'', pf_style pf)]
     @ (if pf_label pf \<noteq> [] then [(''label'', pf_label pf)] else [])
     @ (if pf_ttl pf \<noteq> 0 then [(''ttl'', duration_String (pf_ttl pf))] else [])
     @ (if burn_maxGets pf \<noteq> 0 then [(''max_gets'', strconv_Itoa (burn_maxGets pf))] else [])"

definition cmdPost ::
  "unicode \<Rightarrow> control_env \<Rightarrow> transport \<Rightarrow> (bytes \<Rightarrow> string result) \<Rightarrow> (string \<Rightarrow> bytes result) \<Rightarrow> bytes
    \<Rightarrow> post_flags \<Rightarrow> string result" where
  "cmdPost uni e send decode open_file stdin pf =
     (if pf_style pf \<noteq> ''words'' \<and> pf_style pf \<noteq> ''digits''
      then Inl (ErrMsg ''--code-style must be words or digits'')
      else and_then (if pf_file pf \<noteq> [] then open_file (pf_file pf) else Inr stdin) (\<lambda>body.
             control uni e send ''POST'' ''/pastes'' (post_query pf) body decode))"

section \<open>Get\<close>

definition withDefaultPort :: "string \<Rightarrow> string" where
  "withDefaultPort host =
     (if SplitHostPort host = None then JoinHostPort host (strconv_Itoa (int dataPort)) else host)"

definition peer_candidate :: "(string, pin) gomap \<Rightarrow> peer \<Rightarrow> candidate" where
  "peer_candidate pins p =
     \<lparr>cd_hostID = pe_HostID p, cd_hostname = pe_Hostname p, cd_addr = pe_Addr p,
      cd_pin = mget pins (pe_HostID p)\<rparr>"

definition discover :: "peer list result \<Rightarrow> (string, pin) gomap \<Rightarrow> candidate list result" where
  "discover answer pins = and_then answer (\<lambda>peers. Inr (map (peer_candidate pins) peers))"

definition cmdGet ::
  "unicode \<Rightarrow> ('e, 's) suite \<Rightarrow> candidate list result \<Rightarrow> (bytes \<Rightarrow> candidate list \<Rightarrow> bytes result)
    \<Rightarrow> string \<Rightarrow> string \<Rightarrow> bytes result" where
  "cmdGet uni S discovered fetch host arg =
     and_then (canonical uni arg) (\<lambda>code.
     and_then (derivePRS S code) (\<lambda>prs.
     and_then (if host \<noteq> []
        then Inr [\<lparr>cd_hostID = [], cd_hostname = [], cd_addr = withDefaultPort host, cd_pin = None\<rparr>]
        else discovered) (\<lambda>cands.
     if length cands = 0 then Inl (ErrMsg ''no tp hosts found on this network, try tp get --host <addr>'')
     else fetch prs cands)))"

section \<open>Del and list\<close>

definition del_path :: "unicode \<Rightarrow> ('e, 's) suite \<Rightarrow> bool \<Rightarrow> string \<Rightarrow> string result" where
  "del_path uni S all arg =
     (if all then Inr ''/pastes''
      else if arg = [] then Inl (ErrMsg ''give a code or --all'')
      else and_then (canonical uni arg) (\<lambda>code.
           and_then (derivePRS S code) (\<lambda>prs. Inr (''/pastes'' @ ''/'' @ hex_encode prs))))"

definition cmdDel ::
  "unicode \<Rightarrow> ('e, 's) suite \<Rightarrow> control_env \<Rightarrow> transport \<Rightarrow> bool \<Rightarrow> string \<Rightarrow> unit result" where
  "cmdDel uni S e send all arg =
     and_then (del_path uni S all arg) (\<lambda>path. control uni e send ''DELETE'' path [] [] (\<lambda>bs. Inr ()))"

text \<open>\<^verbatim>\<open>%8d\<close> and \<^verbatim>\<open>%-9s\<close>: padding with blanks on the left and on the right.\<close>

definition pad_left :: "nat \<Rightarrow> string \<Rightarrow> string" where
  "pad_left n s = replicate (n - length s) CHR '' '' @ s"

definition pad_right :: "nat \<Rightarrow> string \<Rightarrow> string" where
  "pad_right n s = s @ replicate (n - length s) CHR '' ''"

definition list_state :: "paste \<Rightarrow> string" where
  "list_state p =
     (if p_MaxGets p > 0
      then strconv_Itoa (p_Gets p) @ ''/'' @ strconv_Itoa (p_MaxGets p) @ '' gets''
      else strconv_Itoa (p_Gets p) @ '' gets'')
     @ (if p_Burned p then '', burned'' else [])"

definition list_line :: "gotime \<Rightarrow> paste \<Rightarrow> string" where
  "list_line now p =
     pad_left 8 (strconv_Itoa (p_Size p)) @ '' B  expires in ''
     @ pad_right 9 (duration_String (duration_Round (time_Sub (p_ExpiresAt p) now) Second))
     @ ''  '' @ pad_right 16 (list_state p) @ '' '' @ p_Label p"

text \<open>The lines \<^verbatim>\<open>tp list\<close> prints; the clock is read for each paste.\<close>

definition cmdList :: "(string \<times> nat \<times> paste list) result \<Rightarrow> gotime list \<Rightarrow> string list result" where
  "cmdList answer nows =
     and_then answer (\<lambda>(hid, port, pastes).
       Inr ((''host '' @ hid @ '', serving on port '' @ strconv_Itoa (int port))
            # (if length pastes = 0 then [''no pastes''] else map2 list_line nows pastes)))"

section \<open>What a client asks for, the daemon does\<close>

lemma q_Get_post [simp]:
  "q_Get (post_query pf) ''code_style'' = pf_style pf" "q_Get (post_query pf) ''label'' = pf_label pf"
  "q_Get (post_query pf) ''ttl'' = (if pf_ttl pf \<noteq> 0 then duration_String (pf_ttl pf) else [])"
  "q_Get (post_query pf) ''max_gets'' = (if burn_maxGets pf \<noteq> 0 then strconv_Itoa (burn_maxGets pf) else [])"
  by (simp_all add: q_Get_def post_query_def)

text \<open>C34: What is asked for on the command line arrives. For every lifetime and limit of the machine's
  integers the daemon reads from the query the client writes exactly the style, the label, the lifetime
  (an hour if none is given) and the limit (one with \<^verbatim>\<open>--burn\<close>), or refuses: a lifetime that is
  negative or above 24 hours, or a negative limit.\<close>

theorem post_options_arrive:
  assumes "min_int64 \<le> pf_ttl pf" and "pf_ttl pf \<le> max_int64"
    and "min_int64 \<le> pf_maxGets pf" and "pf_maxGets pf \<le> max_int64"
  shows "parsePostOptions (post_query pf) =
      (if pf_ttl pf < 0 \<or> maxTTL < pf_ttl pf then Inl (ErrMsg ''ttl must be positive and at most 24h'')
       else if burn_maxGets pf < 0 then Inl (ErrMsg ''max_gets must be a non-negative integer'')
       else Inr \<lparr>po_ttl = (if pf_ttl pf = 0 then Hour else pf_ttl pf), po_maxGets = burn_maxGets pf\<rparr>)
    \<and> q_Get (post_query pf) ''code_style'' = pf_style pf \<and> q_Get (post_query pf) ''label'' = pf_label pf"
proof -
  have m: "min_int64 \<le> burn_maxGets pf" "burn_maxGets pf \<le> max_int64"
    using assms(3,4) by (simp_all add: burn_maxGets_def go_const)
  have "parse_ttl (post_query pf) =
      (if pf_ttl pf < 0 \<or> maxTTL < pf_ttl pf then Inl (ErrMsg ''ttl must be positive and at most 24h'')
       else Inr (if pf_ttl pf = 0 then Hour else pf_ttl pf))"
    using parse_ttl_String [OF _ assms(1,2), of "post_query pf"]
    by (cases "pf_ttl pf = 0") (auto simp: parse_ttl_def go_const)
  moreover have "parse_maxGets (post_query pf) =
      (if burn_maxGets pf < 0 then Inl (ErrMsg ''max_gets must be a non-negative integer'') else Inr (burn_maxGets pf))"
    using parse_maxGets_Itoa [OF _ m, of "post_query pf"]
    by (cases "burn_maxGets pf = 0") (simp_all add: parse_maxGets_def)
  ultimately show ?thesis by (simp add: parsePostOptions_def)
qed

theorem post_options_arrive_witness:
  "parsePostOptions (post_query \<lparr>pf_label = ''x'', pf_ttl = 5400000000000, pf_maxGets = 7, pf_burn = True,
       pf_style = ''digits'', pf_file = []\<rparr>)
     = Inr \<lparr>po_ttl = 5400000000000, po_maxGets = 1\<rparr>"
  using post_options_arrive [of "\<lparr>pf_label = ''x'', pf_ttl = 5400000000000, pf_maxGets = 7, pf_burn = True,
       pf_style = ''digits'', pf_file = []\<rparr>"]
  by (simp add: burn_maxGets_def go_const)

lemma derivePRS_ok: "suite_ok S \<Longrightarrow> \<exists>prs. derivePRS S code = Inr prs \<and> prs \<noteq> []"
  using suite_scrypt [of S "bytes_of code" scryptSalt] by (fastforce simp: derivePRS_def go_const)

lemma canonical_empty: "\<exists>e. canonical uni [] = Inl e"
  by (simp add: canonical_def strings_TrimSpace_def strings_ToLower_def digitCode_def trim_left_def Let_def)

text \<open>C35: Deleting by code. Whatever spelling of a code the user types, the client asks for the path
  of the secret of its normal form, the daemon's mux routes that path to the deletion of one paste, and
  the daemon then forgets exactly the paste under that secret and answers with success, or answers 404 and
  keeps everything if there is none. What is no code is refused before anything is asked of the daemon.\<close>

theorem del_by_code:
  assumes "suite_ok S" and "store_ok (dm_heap d) (dm_store d)"
  shows "case canonical uni typed of
      Inl e \<Rightarrow> del_path uni S False typed = Inl (if typed = [] then ErrMsg ''give a code or --all'' else e)
    | Inr code \<Rightarrow> \<exists>prs path seg resp d'. derivePRS S code = Inr prs \<and> del_path uni S False typed = Inr path
        \<and> controlMux ''DELETE'' path = Some (RouteDelete seg) \<and> handleDelete now seg d = (resp, d')
        \<and> abs_store (dm_heap d') (dm_store d') = (abs_store (dm_heap d) (dm_store d))(prs := None)
        \<and> resp = (if abs_store (dm_heap d) (dm_store d) prs \<noteq> None then NoContent
             else HttpError StatusNotFound (ErrMsg ''no such paste''))"
proof (cases "canonical uni typed")
  case (Inl e)
  then show ?thesis by (simp add: del_path_def)
next
  case (Inr code)
  have "typed \<noteq> []" using Inr canonical_empty [of uni] by auto
  obtain prs where prs: "derivePRS S code = Inr prs" "prs \<noteq> []" using derivePRS_ok [OF assms(1)] by blast
  let ?path = "''/pastes'' @ ''/'' @ hex_encode prs"
  have path: "del_path uni S False typed = Inr ?path" using Inr prs(1) \<open>typed \<noteq> []\<close> by (simp add: del_path_def)
  obtain b h s where del: "store_del prs (dm_heap d) (dm_store d) = (b, h, s)" by (cases "store_del prs (dm_heap d) (dm_store d)")
  obtain resp d' where hd: "handleDelete now (hex_encode prs) d = (resp, d')" by (cases "handleDelete now (hex_encode prs) d")
  have d': "dm_heap d' = h" "dm_store d' = s"
    "resp = (if b then NoContent else HttpError StatusNotFound (ErrMsg ''no such paste''))"
    using hd del by (auto simp: handleDelete_def Let_def hex_decode_encode split: if_splits)
  have "b = (abs_store (dm_heap d) (dm_store d) prs \<noteq> None)"
    "abs_store h s = (abs_store (dm_heap d) (dm_store d))(prs := None)"
    using refine_del [OF assms(2) del] by (simp_all split: if_splits)
  then have "abs_store (dm_heap d') (dm_store d') = (abs_store (dm_heap d) (dm_store d))(prs := None)
      \<and> resp = (if abs_store (dm_heap d) (dm_store d) prs \<noteq> None then NoContent
           else HttpError StatusNotFound (ErrMsg ''no such paste''))"
    using d' by simp
  then show ?thesis using Inr prs(1) path controlMux_delete [OF prs(2)] hd by auto
qed

lemma canonical_acid: "canonical no_unicode ''acid-acid-acid'' = Inr ''acid-acid-acid''"
  using drawn_code [of False "[0, 0, 0, 0, 0, 0]"] demo_draw by (simp add: draw_code_def)

theorem del_by_code_witness:
  "\<exists>(d :: daemon) d' prs path seg. derivePRS toy_suite ''acid-acid-acid'' = Inr prs
     \<and> abs_store (dm_heap d) (dm_store d) prs \<noteq> None
     \<and> del_path no_unicode toy_suite False ''acid-acid-acid'' = Inr path
     \<and> controlMux ''DELETE'' path = Some (RouteDelete seg)
     \<and> handleDelete 7 seg d = (NoContent, d') \<and> abs_store (dm_heap d') (dm_store d') prs = None"
proof -
  obtain d where p: "handlePost toy_suite 1 (5 * Second) short_post (idle_daemon NilDiscovery [0, 0, 0, 0, 0, 0])
      = (PostedJSON ''acid-acid-acid'' (5 * Second), d)" using demo_post by blast
  obtain prs where prs: "derivePRS toy_suite ''acid-acid-acid'' = Inr prs" using derivePRS_ok [OF toy_suite_ok] by blast
  note ad = added_holds [OF idle_daemon_ok post_added [OF idle_daemon_ok p short_post_options prs]]
  have here: "abs_store (dm_heap d) (dm_store d) prs \<noteq> None" using ad(2) by auto
  from del_by_code [OF toy_suite_ok ad(1), where uni = no_unicode and now = 7 and typed = "''acid-acid-acid''"] here prs
  obtain path seg d' where "del_path no_unicode toy_suite False ''acid-acid-acid'' = Inr path"
    "controlMux ''DELETE'' path = Some (RouteDelete seg)" "handleDelete 7 seg d = (NoContent, d')"
    "abs_store (dm_heap d') (dm_store d') prs = None"
    unfolding canonical_acid sum.case by auto
  then show ?thesis using prs here by blast
qed

section \<open>Where a client connects\<close>

lemma default_port_digits: "plain_port (strconv_Itoa (int dataPort))"
  using plain_digits [of dataPort] by (simp add: strconv_Itoa_def)

lemma split_bracketed_bare:
  assumes "plain_host h"
  shows "SplitHostPort (''['' @ h @ '']'') = None"
proof -
  let ?g = "''['' @ h @ '']''"
  have e: "index_byte CHR '']'' ?g = Some (length h + 1)"
    using index_byte_append [of "CHR '']''" "''['' @ h" "[]"] assms by (simp add: plain_host_def)
  have "i \<le> length h" if i: "last_index_byte CHR '':'' ?g = Some i" for i
  proof -
    obtain k where k: "index_byte CHR '':'' (rev ?g) = Some k" "i = length ?g - 1 - k"
      using i by (auto simp: last_index_byte_def)
    then show ?thesis by (auto split: if_splits)
  qed
  then show ?thesis
    using e by (auto simp: SplitHostPort_def Let_def split: option.splits)
qed

lemma split_twice_bracketed:
  assumes "plain_host h" and "plain_port p"
  shows "SplitHostPort (''[['' @ h @ '']]:'' @ p) = None"
proof -
  let ?g = "''[['' @ h @ '']]:'' @ p"
  have i: "last_index_byte CHR '':'' ?g = Some (length h + 4)"
    using last_index_append [of "CHR '':''" p "''[['' @ h @ '']]''"] assms(2) by (simp add: plain_port_def)
  have e: "index_byte CHR '']'' ?g = Some (length h + 2)"
    using index_byte_append [of "CHR '']''" "''[['' @ h" "'']:'' @ p"] assms(1) by (simp add: plain_host_def)
  show ?thesis using i e by (simp add: SplitHostPort_def Let_def)
qed

lemma split_bracketed:
  assumes h: "plain_host h" and p: "plain_port p"
  shows "SplitHostPort (''['' @ h @ '']:'' @ p) = Some (h, p)"
proof -
  let ?hp = "''['' @ h @ '']:'' @ p"
  have i: "last_index_byte CHR '':'' ?hp = Some (length h + 2)"
    using last_index_append [of "CHR '':''" p "''['' @ h @ '']''"] p by (simp add: plain_port_def)
  have e: "index_byte CHR '']'' ?hp = Some (length h + 1)"
    using index_byte_append [of "CHR '']''" "''['' @ h" "'':'' @ p"] h by (simp add: plain_host_def)
  show ?thesis
    using h p by (simp add: SplitHostPort_def i e [simplified] i [simplified] plain_host_def plain_port_def)
qed

lemma split_plain_None:
  assumes h: "plain_host h" and n: "length (filter (\<lambda>c. c = CHR '':'') h) \<noteq> 1"
  shows "SplitHostPort h = None"
proof (cases "CHR '':'' \<in> set h")
  case True
  then obtain a b where ab: "h = a @ CHR '':'' # b" "CHR '':'' \<notin> set b" using split_list_last by metis
  have "CHR '':'' \<in> set a" using n ab by (auto simp: filter_empty_conv)
  moreover have "h ! 0 \<noteq> CHR ''[''" using h True by (cases h) (auto simp: plain_host_def)
  ultimately show ?thesis using last_index_append [OF ab(2), of a] by (simp add: SplitHostPort_def ab(1) [symmetric]) (simp add: ab(1))
next
  case False
  then have "last_index_byte CHR '':'' h = None" by simp
  then show ?thesis unfolding SplitHostPort_def by (simp only: option.case)
qed

text \<open>C37: \<^verbatim>\<open>--host\<close> takes a name or an address with or without a port. Let \<open>h\<close> be free of
  brackets. With a port it is dialled as typed, and splits into the host and that port: a name or an IPv4
  address as \<^verbatim>\<open>h:p\<close>, anything, IPv6 addresses too, as \<^verbatim>\<open>[h]:p\<close>. Without one, be it a name or an IPv4
  address (no colon) or a bare IPv6 address (several), it gets the port 7391 and splits back into itself and that
  port. The one exception is an IPv6 address in brackets without a port: it is bracketed a second
  time, and what results is no address any more.\<close>

theorem default_port:
  assumes "plain_host h"
  shows "(\<forall>p. plain_port p \<longrightarrow>
        withDefaultPort (''['' @ h @ '']:'' @ p) = ''['' @ h @ '']:'' @ p
        \<and> SplitHostPort (''['' @ h @ '']:'' @ p) = Some (h, p)
        \<and> (CHR '':'' \<notin> set h \<longrightarrow> withDefaultPort (h @ '':'' @ p) = h @ '':'' @ p \<and> SplitHostPort (h @ '':'' @ p) = Some (h, p)))
    \<and> (length (filter (\<lambda>c. c = CHR '':'') h) \<noteq> 1 \<longrightarrow>
        SplitHostPort (withDefaultPort h) = Some (h, strconv_Itoa (int dataPort)))
    \<and> (CHR '':'' \<in> set h \<longrightarrow> SplitHostPort (withDefaultPort (''['' @ h @ '']'')) = None)"
proof -
  have "SplitHostPort (withDefaultPort (''['' @ h @ '']'')) = None" if "CHR '':'' \<in> set h"
    using that split_bracketed_bare [OF assms] split_twice_bracketed [OF assms default_port_digits]
    by (simp add: withDefaultPort_def JoinHostPort_def)
  moreover have "SplitHostPort (h @ '':'' @ p) = Some (h, p)" if "plain_port p" "CHR '':'' \<notin> set h" for p
    using Split_Join [OF assms that(1)] that(2) by (simp add: JoinHostPort_def)
  moreover have "SplitHostPort (withDefaultPort h) = Some (h, strconv_Itoa (int dataPort))"
    if "length (filter (\<lambda>c. c = CHR '':'') h) \<noteq> 1"
    using Split_Join [OF assms default_port_digits] split_plain_None [OF assms that] by (simp add: withDefaultPort_def)
  ultimately show ?thesis using split_bracketed [OF assms] by (simp add: withDefaultPort_def)
qed

theorem default_port_witness:
  "withDefaultPort ''[::1]:80'' = ''[::1]:80'' \<and> SplitHostPort ''[::1]:80'' = Some (''::1'', ''80'')
   \<and> SplitHostPort (withDefaultPort ''::1'') = Some (''::1'', ''7391'') \<and> SplitHostPort (withDefaultPort ''[::1]'') = None"
proof -
  have "plain_host ''::1''" "plain_port ''80''" "length (filter (\<lambda>c. c = CHR '':'') ''::1'') \<noteq> 1"
    by (simp_all add: plain_host_def plain_port_def)
  moreover have "strconv_Itoa (int dataPort) = ''7391''"
    by (simp add: strconv_Itoa_def go_const nat_digits.simps dec_char_def char_of_def bit_0)
  ultimately show ?thesis using default_port [of "''::1''"] by (auto dest: spec [of _ "''80''"])
qed

text \<open>C36: Discovery offers each machine once, the own one first. What \<^verbatim>\<open>tp get\<close> makes of the
  daemon's answer to \<^verbatim>\<open>/peers\<close> is the local daemon at 127.0.0.1, followed by exactly the hosts of
  the daemon's table; no host ID occurs twice, and every candidate carries the pin saved for its own
  host ID and no other.\<close>

theorem discovered_candidates:
  assumes "table_ok (dm_hostID d) (dm_peers d)"
    and "handlePeers L sk adv now now' q obs (\<lambda>d. d) ord d = (PeersJSON peers diag np na up ifs, d')"
    and "visits (ord d') (pt_m (dm_peers d'))" and "discover (Inr peers) pins = Inr cands"
  shows "distinct (map cd_hostID cands) \<and> set (map cd_hostID cands) = insert (dm_hostID d) (fst ` set (pt_m (dm_peers d)))
    \<and> cands \<noteq> [] \<and> cd_hostID (hd cands) = dm_hostID d
    \<and> cd_addr (hd cands) = JoinHostPort ''127.0.0.1'' (strconv_Itoa (int (dm_port d)))
    \<and> (\<forall>c \<in> set cands. cd_pin c = mget pins (cd_hostID c))"
proof -
  have d': "dm_peers d' = dm_peers d" "dm_hostID d' = dm_hostID d" "dm_port d' = dm_port d"
    and p: "peers = own_peer now' d' # map snd (ord d')"
    using assms(2) by (auto simp: handlePeers_def waitForPeers_def peers_list_def Let_def and_then_def
        split: prod.splits if_splits option.splits sum.splits)
  have m: "set (ord d') = set (pt_m (dm_peers d))" "mset (map fst (ord d')) = mset (map fst (pt_m (dm_peers d)))"
    using assms(3) mset_eq_setD [of "ord d'" "pt_m (dm_peers d)"] unfolding visits_def d'(1) by (simp_all add: mset_map)
  have k: "\<forall>e \<in> set (ord d'). pe_HostID (snd e) = fst e \<and> fst e \<noteq> dm_hostID d"
    using assms(1) m(1) by (auto simp: table_ok_def)
  then have ids: "map (pe_HostID \<circ> snd) (ord d') = map fst (ord d')" by simp
  have "distinct (map fst (ord d'))"
    using mset_eq_imp_distinct_iff [OF m(2)] assms(1) by (simp add: table_ok_def mwf_def)
  moreover have "map cd_hostID cands = dm_hostID d # map fst (ord d')"
    using assms(4) p ids by (auto simp: discover_def peer_candidate_def own_peer_def d' comp_def)
  moreover have "dm_hostID d \<notin> fst ` set (ord d')" using k by auto
  moreover have "cands \<noteq> [] \<and> cd_addr (hd cands) = JoinHostPort ''127.0.0.1'' (strconv_Itoa (int (dm_port d)))
      \<and> (\<forall>c \<in> set cands. cd_pin c = mget pins (cd_hostID c))"
    using assms(4) p by (auto simp: discover_def peer_candidate_def own_peer_def d')
  ultimately show ?thesis using m(1) by (cases cands) auto
qed

theorem discovered_candidates_witness:
  "\<exists>peers diag np na up ifs d' cands.
     handlePeers query_dns demo_socket NoAdvice 1 2 [] [] (\<lambda>d. d) (\<lambda>d. [(''P'', \<lparr>pe_HostID = ''P'', pe_Hostname = ''box'',
         pe_Addr = ''10.0.0.1:7391'', pe_LastSeen = 1\<rparr>)])
       (idle_daemon NilDiscovery []\<lparr>dm_peers := peers_put \<lparr>pe_HostID = ''P'', pe_Hostname = ''box'',
         pe_Addr = ''10.0.0.1:7391'', pe_LastSeen = 1\<rparr> (newPeerTable 0)\<rparr>)
       = (PeersJSON peers diag np na up ifs, d')
     \<and> discover (Inr peers) [] = Inr cands \<and> distinct (map cd_hostID cands)
     \<and> set (map cd_hostID cands) = {''H'', ''P''}"
proof -
  let ?p = "\<lparr>pe_HostID = ''P'', pe_Hostname = ''box'', pe_Addr = ''10.0.0.1:7391'', pe_LastSeen = 1\<rparr>"
  let ?d = "idle_daemon NilDiscovery []\<lparr>dm_peers := peers_put ?p (newPeerTable 0)\<rparr>"
  let ?ord = "\<lambda>d :: daemon. [(''P'', ?p)]"
  obtain peers diag np na up ifs d' where h:
    "handlePeers query_dns demo_socket NoAdvice 1 2 [] [] (\<lambda>d. d) ?ord ?d = (PeersJSON peers diag np na up ifs, d')"
    "d' = touch 1 ?d"
    by (simp add: handlePeers_def q_Get_def time_ParseDuration_def Let_def)
  have m: "pt_m (dm_peers ?d) = [(''P'', ?p)]" "dm_hostID ?d = ''H''"
    by (simp_all add: peers_put_def newPeerTable_def mput_def idle_daemon_def)
  have v: "visits (?ord d') (pt_m (dm_peers d'))" using h(2) m by (simp add: visits_def)
  have t: "table_ok (dm_hostID ?d) (dm_peers ?d)" unfolding m(2) by (simp add: table_ok_def mwf_def m(1) [unfolded daemon.simps] peers_put_def newPeerTable_def mput_def)
  obtain cands where c: "discover (Inr peers) [] = Inr cands" by (simp add: discover_def)
  show ?thesis using discovered_candidates [OF t h(1) v c] h(1) c m by auto
qed

section \<open>Get from end to end\<close>

text \<open>\<^verbatim>\<open>tp get\<close> with the fan-out of \<^verbatim>\<open>fetch\<close>: what it prints was sent by one of the
  candidates it was offered, the host given or those discovered, over a connection that the candidate's
  pin admits; and with a code in normal form it fails only because nobody was offered, because the
  code's paste was not found, or because of a candidate's pin.\<close>

definition get_candidates :: "candidate list \<Rightarrow> string \<Rightarrow> candidate list" where
  "get_candidates discovered host =
     (if host \<noteq> []
      then [\<lparr>cd_hostID = [], cd_hostname = [], cd_addr = withDefaultPort host, cd_pin = None\<rparr>]
      else discovered)"

lemma get_answers:
  assumes f: "\<forall>prs cands. fetch_gives S ip6 (net prs) prs cands (fetch prs cands)"
    and c: "canonical uni arg = Inr code" "derivePRS S code = Inr prs"
  shows "case cmdGet uni S (Inr discovered) fetch host arg of
      Inr body \<Rightarrow> \<exists>c \<in> set (get_candidates discovered host). \<exists>(a :: attempt) save.
        fetchFrom S ip6 (at_tls a) prs c (at_rand a) (at_dial a) = (Inr body, save)
        \<and> verifyConnection c (tls_peer (at_tls a)) = None
    | Inl e \<Rightarrow> get_candidates discovered host = [] \<or> e = ErrNoMatch \<or> is_pin_error e"
proof -
  let ?cands = "get_candidates discovered host"
  have g: "cmdGet uni S (Inr discovered) fetch host arg =
      (if length ?cands = 0 then Inl (ErrMsg ''no tp hosts found on this network, try tp get --host <addr>'')
       else fetch prs ?cands)"
    using c by (simp add: cmdGet_def get_candidates_def)
  have gives: "fetch_gives S ip6 (net prs) prs ?cands (fetch prs ?cands)" using f by blast
  show ?thesis
  proof (cases "?cands = [] \<or> (\<exists>e. fetch prs ?cands = Inl e)")
    case True
    have "e = ErrNoMatch \<or> is_pin_error e" if "fetch prs ?cands = Inl e" for e
      using gives that fan_reach_answer by (fastforce simp: fetch_gives_def answer_ok_def split: if_splits)
    then show ?thesis using True by (auto simp: g)
  next
    case False
    then obtain body where b: "fetch prs ?cands = Inr body" by (cases "fetch prs ?cands") auto
    then show ?thesis using False fetch_gives_body [OF gives [unfolded b]] by (simp add: g)
  qed
qed

end
