(* ===== verification/Host.thy ===== *)
theory Host
  imports Pins Go_Net
begin

text \<open>
  What the program keeps on the host: the directories of \<^verbatim>\<open>util.go\<close>, the identity key of
  \<^verbatim>\<open>identity.go\<close> and what \<^verbatim>\<open>uninstall.go\<close> removes. The environment is a function (an
  unset variable is the empty string), the key formats are parameters with the laws the code relies on.
\<close>

section \<open>Paths\<close>

text \<open>\<^verbatim>\<open>path/filepath\<close> on Unix: \<^verbatim>\<open>Clean\<close> works on the elements between slashes.\<close>

fun clean_loop :: "bool \<Rightarrow> string list \<Rightarrow> string list \<Rightarrow> string list" where
  "clean_loop rooted out [] = out"
| "clean_loop rooted out (c # cs) =
     (if c = [] \<or> c = ''.'' then clean_loop rooted out cs
      else if c = ''..''
      then clean_loop rooted
             (if out = [] then (if rooted then [] else [''..''])
              else if last out = ''..'' then out @ [''..''] else butlast out) cs
      else clean_loop rooted (out @ [c]) cs)"

definition path_Clean :: "string \<Rightarrow> string" where
  "path_Clean p =
     (if p = [] then ''.''
      else let rooted = (hd p = CHR ''/'');
               s = (if rooted then ''/'' else []) @ strings_Join (clean_loop rooted [] (strings_Split CHR ''/'' p)) ''/''
           in if s = [] then ''.'' else s)"

definition path_Join :: "string list \<Rightarrow> string" where
  "path_Join elems =
     (let ne = filter (\<lambda>e. e \<noteq> []) elems
      in if ne = [] then [] else path_Clean (strings_Join ne ''/''))"

text \<open>\<open>home\<close> is the result of \<^verbatim>\<open>os.UserHomeDir\<close>, \<open>mkdir\<close> that of \<^verbatim>\<open>os.MkdirAll\<close>.\<close>

record host_env =
  he_getenv :: "string \<Rightarrow> string"
  he_home :: "string result"
  he_mkdir :: "string \<Rightarrow> go_error option"
  he_exe :: "string result"
  he_symlinks :: "string \<Rightarrow> string result"

definition xdgPath :: "host_env \<Rightarrow> string \<Rightarrow> string list \<Rightarrow> string result" where
  "xdgPath e env fallback =
     and_then (if he_getenv e env = []
               then and_then (he_home e) (\<lambda>home. Inr (path_Join ([home] @ fallback)))
               else Inr (he_getenv e env))
       (\<lambda>dir. Inr (path_Join [dir, ''tp'']))"

definition xdgDir :: "host_env \<Rightarrow> string \<Rightarrow> string list \<Rightarrow> string result" where
  "xdgDir e env fallback =
     and_then (xdgPath e env fallback) (\<lambda>dir. case he_mkdir e dir of Some err \<Rightarrow> Inl err | None \<Rightarrow> Inr dir)"

definition dataDir :: "host_env \<Rightarrow> string result" where
  "dataDir e = xdgDir e ''XDG_DATA_HOME'' [''.local'', ''share'']"

definition sockPath :: "host_env \<Rightarrow> string result" where
  "sockPath e =
     and_then (xdgDir e ''XDG_RUNTIME_DIR'' [''.local'', ''state'']) (\<lambda>dir. Inr (path_Join [dir, ''sock'']))"

section \<open>The identity\<close>

text \<open>
  The files that may hold a key, by their paths: absent, or permissions and content. The operations on
  the key's path fail as the file system says; a failing write may leave a file behind.
\<close>

datatype key_file = NoKey | KeyFile nat bytes

type_synonym key_files = "string \<Rightarrow> key_file"

record key_io =
  ki_stat :: "go_error option"
  ki_read :: "go_error option"
  ki_write :: "(go_error \<times> key_file) option"

text \<open>PEM, PKCS\#8, key generation and certificates; a parsed key may be of another kind.\<close>

record 'k keylib =
  kl_generate :: "bytes \<Rightarrow> ('k \<times> bytes) result"
  kl_marshal :: "'k \<Rightarrow> bytes result"
  kl_parse :: "bytes \<Rightarrow> 'k option result"
  kl_encode :: "bytes \<Rightarrow> bytes"
  kl_decode :: "bytes \<Rightarrow> bytes option"
  kl_leaf :: "'k \<Rightarrow> bytes result"

definition keylib_ok :: "'k keylib \<Rightarrow> bool" where
  "keylib_ok K \<longleftrightarrow>
     (\<forall>der. kl_decode K (kl_encode K der) = Some der)
     \<and> (\<forall>k der. kl_marshal K k = Inr der \<longrightarrow> kl_parse K der = Inr (Some k))"

definition createKey ::
  "'k keylib \<Rightarrow> key_io \<Rightarrow> bytes \<Rightarrow> string \<Rightarrow> key_files \<Rightarrow> 'k result \<times> key_files \<times> bytes" where
  "createKey K io rs path fs =
     (case kl_generate K rs of
        Inl e \<Rightarrow> (Inl e, fs, rs)
      | Inr (priv, rs) \<Rightarrow>
     (case kl_marshal K priv of
        Inl e \<Rightarrow> (Inl e, fs, rs)
      | Inr der \<Rightarrow>
     (case ki_write io of
        Some (e, f) \<Rightarrow> (Inl e, fs(path := f), rs)
      | None \<Rightarrow> (Inr priv, fs(path := KeyFile (6 * 64) (kl_encode K der)), rs))))"

text \<open>\<^verbatim>\<open>%04o\<close> of permissions, which have nine bits.\<close>

definition octal4 :: "nat \<Rightarrow> string" where
  "octal4 n = map (\<lambda>d. dec_char (n div d mod 8)) [512, 64, 8, 1]"

definition bad_permissions :: "string \<Rightarrow> nat \<Rightarrow> go_error" where
  "bad_permissions path perm =
     ErrMsg (path @ '': permissions are '' @ octal4 perm @ '', want 0600. Delete it to start over with a new identity'')"

text \<open>\<^verbatim>\<open>perm&0o077\<close> is zero exactly when the six low bits are.\<close>

definition loadOrCreateKey ::
  "'k keylib \<Rightarrow> key_io \<Rightarrow> bytes \<Rightarrow> string \<Rightarrow> key_files \<Rightarrow> 'k result \<times> key_files \<times> bytes" where
  "loadOrCreateKey K io rs path fs =
     (case ki_stat io of
        Some e \<Rightarrow> (Inl e, fs, rs)
      | None \<Rightarrow>
     (case fs path of
        NoKey \<Rightarrow> createKey K io rs path fs
      | KeyFile perm content \<Rightarrow>
          if perm mod 64 \<noteq> 0 then (Inl (bad_permissions path perm), fs, rs)
          else (case ki_read io of
              Some e \<Rightarrow> (Inl e, fs, rs)
            | None \<Rightarrow>
          (case kl_decode K content of
              None \<Rightarrow> (Inl (ErrMsg (path @ '': not a PEM key'')), fs, rs)
            | Some block \<Rightarrow>
          (case kl_parse K block of
              Inl e \<Rightarrow> (Inl e, fs, rs)
            | Inr None \<Rightarrow> (Inl (ErrMsg (path @ '': not an Ed25519 key'')), fs, rs)
            | Inr (Some priv) \<Rightarrow> (Inr priv, fs, rs))))))"

text \<open>The subject public key info of the certificate; its other fields play no part elsewhere.\<close>

definition loadIdentity ::
  "'k keylib \<Rightarrow> host_env \<Rightarrow> key_io \<Rightarrow> bytes \<Rightarrow> key_files \<Rightarrow> bytes result \<times> key_files \<times> bytes" where
  "loadIdentity K e io rs fs =
     (case dataDir e of
        Inl err \<Rightarrow> (Inl err, fs, rs)
      | Inr dir \<Rightarrow>
     (case loadOrCreateKey K io rs (path_Join [dir, ''identity.key'']) fs of
        (Inl err, fs, rs) \<Rightarrow> (Inl err, fs, rs)
      | (Inr priv, fs, rs) \<Rightarrow> (kl_leaf K priv, fs, rs)))"

text \<open>C39: A machine keeps its identity. Once the identity has been loaded (and, the first time, created)
  every later start with the same data directory that can read the key file loads the same public
  key without touching a file or drawing randomness, so host ID and pins stay valid. The key is the file
  \<^verbatim>\<open>identity.key\<close> of that directory, closed to others, and no other file is ever changed; a
  key file that others may read is refused, with its path and permissions, and left as it is.\<close>

theorem identity_stable:
  assumes "keylib_ok K" and "loadIdentity K e io rs fs = (Inr spki, fs', rs')" and "dataDir e = Inr dir"
    and "dataDir e' = Inr dir" and "ki_stat io' = None" and "ki_read io' = None"
    and "key = path_Join [dir, ''identity.key'']"
  shows "loadIdentity K e' io' rs2 fs' = (Inr spki, fs', rs2)
    \<and> (\<exists>perm content. fs' key = KeyFile perm content \<and> perm mod 64 = 0)
    \<and> (\<forall>path. path \<noteq> key \<longrightarrow> fs' path = fs path)
    \<and> (fs2 key = KeyFile perm2 c \<and> perm2 mod 64 \<noteq> 0 \<longrightarrow>
         loadIdentity K e' io' rs2 fs2 = (Inl (bad_permissions key perm2), fs2, rs2))"
proof -
  obtain priv where l: "loadOrCreateKey K io rs key fs = (Inr priv, fs', rs')" "kl_leaf K priv = Inr spki"
    using assms(2,3,7) by (auto simp: loadIdentity_def split: sum.splits prod.splits)
  have "(\<forall>path. path \<noteq> key \<longrightarrow> fs' path = fs path) \<and> (\<exists>perm content block. fs' key = KeyFile perm content
      \<and> perm mod 64 = 0 \<and> kl_decode K content = Some block \<and> kl_parse K block = Inr (Some priv))"
  proof (cases "fs key")
    case NoKey
    obtain der where "kl_marshal K priv = Inr der" "fs' = fs(key := KeyFile (6 * 64) (kl_encode K der))"
      using l(1) NoKey by (auto simp: loadOrCreateKey_def createKey_def split: option.splits sum.splits prod.splits)
    then show ?thesis using assms(1) by (auto simp: keylib_ok_def)
  next
    case (KeyFile perm content)
    then show ?thesis
      using l(1) by (auto simp: loadOrCreateKey_def split: option.splits sum.splits if_splits)
  qed
  then show ?thesis using assms(4-7) l(2) by (auto simp: loadIdentity_def loadOrCreateKey_def)
qed

text \<open>A key library that keeps a key as one byte.\<close>

definition byte_keys :: "byte keylib" where
  "byte_keys =
     \<lparr>kl_generate = (\<lambda>rs. case rs of [] \<Rightarrow> Inl ErrPanic | b # rs \<Rightarrow> Inr (b, rs)),
      kl_marshal = (\<lambda>k. Inr [k]), kl_parse = (\<lambda>der. case der of [k] \<Rightarrow> Inr (Some k) | _ \<Rightarrow> Inl ErrProtocol),
      kl_encode = (\<lambda>der. der), kl_decode = Some, kl_leaf = (\<lambda>k. Inr [k, k])\<rparr>"

definition plain_env :: host_env where
  "plain_env = \<lparr>he_getenv = (\<lambda>v. []), he_home = Inr ''/home/u'', he_mkdir = (\<lambda>d. None),
     he_exe = Inr ''/usr/bin/tp'', he_symlinks = Inr\<rparr>"

definition working_io :: key_io where
  "working_io = \<lparr>ki_stat = None, ki_read = None, ki_write = None\<rparr>"

lemma plain_dataDir: "\<exists>dir. dataDir plain_env = Inr dir"
  by (simp add: dataDir_def xdgDir_def xdgPath_def plain_env_def)

theorem identity_stable_witness:
  "\<exists>dir fs. loadIdentity byte_keys plain_env working_io [7, 8] (\<lambda>path. NoKey) = (Inr [7, 7], fs, [8])
     \<and> dataDir plain_env = Inr dir \<and> fs (path_Join [dir, ''identity.key'']) = KeyFile 384 [7]
     \<and> loadIdentity byte_keys plain_env working_io [9] fs = (Inr [7, 7], fs, [9])"
proof -
  obtain dir where d: "dataDir plain_env = Inr dir" using plain_dataDir by blast
  have k: "keylib_ok byte_keys" by (simp add: keylib_ok_def byte_keys_def)
  let ?fs = "(\<lambda>path. NoKey)(path_Join [dir, ''identity.key''] := KeyFile 384 [7])"
  have l: "loadIdentity byte_keys plain_env working_io [7, 8] (\<lambda>path. NoKey) = (Inr [7, 7], ?fs, [8])"
    by (simp add: loadIdentity_def d loadOrCreateKey_def createKey_def working_io_def byte_keys_def)
  have "loadIdentity byte_keys plain_env working_io [9] ?fs = (Inr [7, 7], ?fs, [9])"
    using identity_stable [OF k l d d, of working_io _ "[9]" ?fs 384 "[7]"] by (simp add: working_io_def)
  then show ?thesis using l d by (intro exI [of _ dir] exI [of _ ?fs]) simp
qed

section \<open>Uninstalling\<close>

text \<open>The executable with its symbolic links resolved, if that works, and the two directories.\<close>

definition uninstallTargets :: "host_env \<Rightarrow> string list" where
  "uninstallTargets e =
     (case he_exe e of Inl err \<Rightarrow> []
      | Inr self \<Rightarrow> [case he_symlinks e self of Inl err \<Rightarrow> self | Inr resolved \<Rightarrow> resolved])
     @ (case xdgPath e ''XDG_DATA_HOME'' [''.local'', ''share''] of Inl err \<Rightarrow> [] | Inr data \<Rightarrow> [data])
     @ (case xdgPath e ''XDG_RUNTIME_DIR'' [''.local'', ''state''] of Inl err \<Rightarrow> [] | Inr state \<Rightarrow> [state])"

definition confirmRemoval :: "unicode \<Rightarrow> string result \<Rightarrow> bool" where
  "confirmRemoval uni line =
     (case line of
        Inl e \<Rightarrow> False
      | Inr line \<Rightarrow>
          let answer = strings_ToLower uni (strings_TrimSpace uni line)
          in answer = ''y'' \<or> answer = ''yes'')"

datatype uninstall_call = StopDaemon | RemoveAll string

text \<open>The calls \<^verbatim>\<open>cmdUninstall\<close> makes, in order; a failing removal is only reported.\<close>

definition cmdUninstall :: "unicode \<Rightarrow> host_env \<Rightarrow> bool \<Rightarrow> string result \<Rightarrow> uninstall_call list" where
  "cmdUninstall uni e yes line =
     (if \<not> yes \<and> \<not> confirmRemoval uni line then []
      else StopDaemon # map RemoveAll (uninstallTargets e))"

lemma split_slash_last: "CHR ''/'' \<notin> set t \<Longrightarrow> \<exists>p ps. strings_Split CHR ''/'' (s @ CHR ''/'' # t) = p # ps @ [t]"
proof (induction s)
  case Nil
  then show ?case using split_no_sep [of "CHR ''/''" t] by simp
next
  case (Cons c s)
  then obtain p ps where "strings_Split CHR ''/'' (s @ CHR ''/'' # t) = p # ps @ [t]" by blast
  then show ?case by (cases "c = CHR ''/''") (auto intro: exI [of _ "p # ps"])
qed

lemma clean_loop_last:
  "t \<noteq> [] \<Longrightarrow> t \<noteq> ''.'' \<Longrightarrow> t \<noteq> ''..'' \<Longrightarrow> \<exists>out'. clean_loop rooted out (ps @ [t]) = out' @ [t]"
  by (induction rooted out ps rule: clean_loop.induct) auto

lemma Join_last: "\<exists>p. strings_Join (ps @ [t]) ''/'' = p @ t \<and> (p = [] \<or> last p = CHR ''/'')"
proof (induction ps)
  case (Cons q ps)
  then obtain p where p: "strings_Join (ps @ [t]) ''/'' = p @ t" "p = [] \<or> last p = CHR ''/''" by blast
  obtain x xs where "ps @ [t] = x # xs" by (cases "ps @ [t]") auto
  then have "strings_Join ((q # ps) @ [t]) ''/'' = (q @ ''/'' @ p) @ t" using p(1) by simp
  moreover have "last (q @ ''/'' @ p) = CHR ''/''" using p(2) by auto
  ultimately show ?case by blast
qed simp

text \<open>Joining a plain name below any directory yields a path whose last element is that name.\<close>

lemma path_Join_base:
  assumes "CHR ''/'' \<notin> set t" and "t \<noteq> []" and "t \<noteq> ''.''" and "t \<noteq> ''..''"
  shows "path_Join [dir, t] = t \<or> suffix (''/'' @ t) (path_Join [dir, t])"
proof -
  obtain ps where ps: "strings_Split CHR ''/'' (if dir = [] then t else dir @ CHR ''/'' # t) = ps @ [t]"
    using split_slash_last [OF assms(1), of dir] split_no_sep [OF assms(1)] by (cases "dir = []") fastforce+
  define rooted where "rooted \<longleftrightarrow> hd (if dir = [] then t else dir @ CHR ''/'' # t) = CHR ''/''"
  obtain out where out: "clean_loop rooted [] (ps @ [t]) = out @ [t]" using clean_loop_last [OF assms(2-4)] by blast
  obtain p where p: "strings_Join (out @ [t]) ''/'' = p @ t" "p = [] \<or> last p = CHR ''/''" using Join_last by blast
  have "path_Join [dir, t] = (if rooted then ''/'' else []) @ p @ t"
    using assms(2) ps out p(1)
    by (cases "dir = []") (auto simp: path_Join_def path_Clean_def Let_def rooted_def)
  then show ?thesis
    using p(2) by (cases p rule: rev_cases) (auto simp: suffix_def)
qed

text \<open>C40: Uninstalling removes what the program stored and nothing beside it. Without an affirmative
  answer nothing is removed. Otherwise the daemon is stopped first; every path removed is the
  executable or ends in an element \<^verbatim>\<open>tp\<close>, whatever the environment variables say; and the
  directory of the key and the pins and that of the socket are among them.\<close>

theorem uninstall_exact:
  assumes "cmdUninstall uni e yes line = calls"
  shows "(\<not> yes \<and> \<not> confirmRemoval uni line \<longrightarrow> calls = [])
    \<and> (calls \<noteq> [] \<longrightarrow> hd calls = StopDaemon
        \<and> (\<forall>t. RemoveAll t \<in> set calls \<longrightarrow>
             (\<exists>self. he_exe e = Inr self \<and> (t = self \<or> he_symlinks e self = Inr t)) \<or> t = ''tp'' \<or> suffix ''/tp'' t)
        \<and> (\<forall>dir. dataDir e = Inr dir \<longrightarrow> RemoveAll dir \<in> set calls)
        \<and> (\<forall>sock. sockPath e = Inr sock \<longrightarrow> (\<exists>dir. RemoveAll dir \<in> set calls \<and> sock = path_Join [dir, ''sock''])))"
proof -
  have tp: "t = ''tp'' \<or> suffix ''/tp'' t" if "xdgPath e v fb = Inr t" for v fb t
    using that path_Join_base [of "''tp''"] by (auto simp: xdgPath_def and_then_Inr_iff)
  have d: "xdgPath e ''XDG_DATA_HOME'' [''.local'', ''share''] = Inr dir" if "dataDir e = Inr dir" for dir
    using that by (auto simp: dataDir_def xdgDir_def and_then_Inr_iff split: option.splits)
  have s: "\<exists>dir. xdgPath e ''XDG_RUNTIME_DIR'' [''.local'', ''state''] = Inr dir \<and> sock = path_Join [dir, ''sock'']"
    if "sockPath e = Inr sock" for sock
    using that by (auto simp: sockPath_def xdgDir_def and_then_Inr_iff split: option.splits)
  have c: "calls = (if \<not> yes \<and> \<not> confirmRemoval uni line then [] else StopDaemon # map RemoveAll (uninstallTargets e))"
    using assms by (simp add: cmdUninstall_def)
  have t: "(\<exists>self. he_exe e = Inr self \<and> (t = self \<or> he_symlinks e self = Inr t)) \<or> t = ''tp'' \<or> suffix ''/tp'' t"
    if "t \<in> set (uninstallTargets e)" for t
    using that tp by (cases "he_exe e"; cases "he_symlinks e (projr (he_exe e))";
      cases "xdgPath e ''XDG_DATA_HOME'' [''.local'', ''share'']"; cases "xdgPath e ''XDG_RUNTIME_DIR'' [''.local'', ''state'']")
      (auto simp: uninstallTargets_def)
  have dm: "dir \<in> set (uninstallTargets e)" if "dataDir e = Inr dir" for dir
    using d [OF that] by (simp add: uninstallTargets_def)
  have sm: "\<exists>dir. RemoveAll dir \<in> RemoveAll ` set (uninstallTargets e) \<and> sock = path_Join [dir, ''sock'']" if sk: "sockPath e = Inr sock" for sock
  proof -
    obtain dir where "xdgPath e ''XDG_RUNTIME_DIR'' [''.local'', ''state''] = Inr dir" "sock = path_Join [dir, ''sock'']"
      using s [OF sk] by blast
    then show ?thesis by (intro exI [of _ dir]) (simp add: uninstallTargets_def)
  qed
  show ?thesis
  proof (cases "\<not> yes \<and> \<not> confirmRemoval uni line")
    case False
    then have "calls = StopDaemon # map RemoveAll (uninstallTargets e)" using c by simp
    then show ?thesis using False t dm sm by auto
  qed (use c in simp)
qed

theorem uninstall_exact_witness:
  "hd (cmdUninstall no_unicode plain_env True (Inl ErrEOF)) = StopDaemon
   \<and> (\<exists>dir. dataDir plain_env = Inr dir \<and> RemoveAll dir \<in> set (cmdUninstall no_unicode plain_env True (Inl ErrEOF)))"
proof -
  obtain dir where d: "dataDir plain_env = Inr dir" using plain_dataDir by blast
  have "cmdUninstall no_unicode plain_env True (Inl ErrEOF) \<noteq> []" by (simp add: cmdUninstall_def)
  then show ?thesis
    using uninstall_exact [of no_unicode plain_env True "Inl ErrEOF" "cmdUninstall no_unicode plain_env True (Inl ErrEOF)"] d
    by (intro conjI exI [of _ dir]) blast+
qed

end
