(* ===== verification/Cli.thy ===== *)
theory Cli
  imports Commands Host
begin

text \<open>
  The command line around the program: dispatch (\<^verbatim>\<open>main.go\<close>), the version
  (\<^verbatim>\<open>version.go\<close>), the choice of a completion script (\<^verbatim>\<open>completion.go\<close>) and the
  diagnosis of \<^verbatim>\<open>doctor.go\<close>. What a command prints is a list of lines.
\<close>

section \<open>Dispatch\<close>

datatype cmd = CmdPost | CmdGet | CmdList | CmdDel | CmdDoctor | CmdUninstall | CmdCompletion | CmdVersion | CmdDaemon

record command =
  cm_name :: string
  cm_hidden :: bool
  cm_run :: cmd

definition visible :: "string \<Rightarrow> cmd \<Rightarrow> command" where
  "visible n c = \<lparr>cm_name = n, cm_hidden = False, cm_run = c\<rparr>"

definition commands :: "command list" where
  "commands =
     [visible ''post'' CmdPost, visible ''get'' CmdGet, visible ''list'' CmdList, visible ''del'' CmdDel,
      visible ''doctor'' CmdDoctor, visible ''uninstall'' CmdUninstall, visible ''completion'' CmdCompletion,
      visible ''version'' CmdVersion, \<lparr>cm_name = ''daemon'', cm_hidden = True, cm_run = CmdDaemon\<rparr>]"

fun lookup_loop :: "command list \<Rightarrow> string \<Rightarrow> command option" where
  "lookup_loop [] name = None"
| "lookup_loop (c # cs) name = (if cm_name c = name then Some c else lookup_loop cs name)"

definition lookup :: "string \<Rightarrow> command option" where
  "lookup name = lookup_loop commands name"

text \<open>The command to run with its arguments, or the error after the usage is printed.\<close>

definition run :: "string list \<Rightarrow> (cmd \<times> string list) result" where
  "run args =
     (case args of
        [] \<Rightarrow> Inl (ErrMsg ''no command given'')
      | a # rest \<Rightarrow>
          (case lookup a of
             None \<Rightarrow> Inl (ErrMsg (''unknown command '' @ a))
           | Some c \<Rightarrow> Inr (cm_run c, rest)))"

text \<open>\<^verbatim>\<open>app\<close>: the exit status of the process.\<close>

definition app :: "(cmd \<Rightarrow> string list \<Rightarrow> go_error option) \<Rightarrow> string list \<Rightarrow> nat" where
  "app exec args = (case run args of Inl e \<Rightarrow> 1 | Inr (c, rest) \<Rightarrow> if exec c rest = None then 0 else 1)"

text \<open>The hidden command: a daemon whose context was cancelled ended well.\<close>

definition cmdDaemon :: "go_error option \<Rightarrow> go_error option" where
  "cmdDaemon r = (if r \<noteq> None \<and> r \<noteq> Some errCanceled then r else None)"

lemma daemon_exit:
  assumes "exec CmdDaemon [] = cmdDaemon (fst (runDaemon_end L sk cause d))"
  shows "app exec [''daemon''] = (if cause = ContextEnded \<or> cause = ServeEnded None \<or> cause = ServeEnded (Some errCanceled) then 0 else 1)"
  using assms
  by (cases cause) (auto simp: app_def run_def lookup_def commands_def visible_def cmdDaemon_def runDaemon_end_def)

section \<open>Completion\<close>

definition unlines :: "string list \<Rightarrow> string" where
  "unlines ls = concat (map (\<lambda>l. l @ [CHR 0x0A]) ls)"

definition sq :: "string \<Rightarrow> string" where
  "sq s = [CHR 0x27] @ s @ [CHR 0x27]"

text \<open>What the scripts offer: the commands, with the texts of zsh and fish.\<close>

definition bash_cmds :: string where
  "bash_cmds = ''post get list del doctor uninstall completion version''"

definition described_cmds :: "(string \<times> string) list" where
  "described_cmds =
     [(''post'', ''share stdin or a file''),
      (''get'', ''fetch a paste''),
      (''list'', ''show local pastes''),
      (''del'', ''stop serving a paste''),
      (''doctor'', ''explain why discovery is not working''),
      (''uninstall'', ''remove tp and everything it stored''),
      (''completion'', ''print shell completions''),
      (''version'', ''print the version'')]"

definition bashCompletion :: string where
  "bashCompletion = unlines
     ([''_tp() {'',
       ''  local cmds=\"'' @ bash_cmds @ ''\"'',
       ''  if [ \"$COMP_CWORD\" -eq 1 ]; then'',
       ''    COMPREPLY=($(compgen -W \"$cmds\" -- \"${COMP_WORDS[1]}\"))'',
       ''    return'',
       ''  fi'',
       ''  case \"${COMP_WORDS[1]}\" in'',
       ''    post) COMPREPLY=($(compgen -W \"--label --ttl --max-gets --burn --code-style\" -- \"${COMP_WORDS[COMP_CWORD]}\")) ;;'',
       ''    get)  COMPREPLY=($(compgen -W \"--host --timeout\" -- \"${COMP_WORDS[COMP_CWORD]}\")) ;;'',
       ''    del)  COMPREPLY=($(compgen -W \"--all\" -- \"${COMP_WORDS[COMP_CWORD]}\")) ;;'',
       ''    completion) COMPREPLY=($(compgen -W \"bash zsh fish\" -- \"${COMP_WORDS[COMP_CWORD]}\")) ;;'',
       ''  esac'',
       ''}'',
       ''complete -F _tp tp''])"

definition zshCompletion :: string where
  "zshCompletion = unlines
     ([''#compdef tp'',
       ''_tp() {'',
       ''  local -a cmds'',
       ''  cmds=('']
      @ map (\<lambda>(c, d). ''    '' @ sq (c @ '':'' @ d)) described_cmds
      @ [''  )'',
       ''  if (( CURRENT == 2 )); then'',
       ''    _describe '' @ sq ''command'' @ '' cmds'',
       ''    return'',
       ''  fi'',
       ''  case \"$words[2]\" in'',
       ''    post) _arguments '' @ sq ''--label=[label shown in tp list]'' @ '' '' @ sq ''--ttl=[time to live]'' @ '' '' @ sq ''--max-gets=[fetch cap]'' @ '' '' @ sq ''--burn[single fetch]'' @ '' '' @ sq ''--code-style=[words or digits]:style:(words digits)'' @ '' '' @ sq ''*:file:_files'' @ '' ;;'',
       ''    get)  _arguments '' @ sq ''--host=[skip discovery]'' @ '' '' @ sq ''--timeout=[give up after]'' @ '' ;;'',
       ''    del)  _arguments '' @ sq ''--all[drop every paste]'' @ '' ;;'',
       ''    doctor) _arguments '' @ sq ''--fix[apply what this platform needs]'' @ '' '' @ sq ''--quiet[only print problems]'' @ '' ;;'',
       ''    uninstall) _arguments '' @ sq ''--yes[do not ask]'' @ '' ;;'',
       ''    completion) _values shell bash zsh fish ;;'',
       ''  esac'',
       ''}'',
       ''_tp \"$@\"''])"

definition fishCompletion :: string where
  "fishCompletion = unlines
     ([''complete -c tp -f'']
      @ map (\<lambda>(c, d). ''complete -c tp -n __fish_use_subcommand -a '' @ c @ '' -d '' @ sq d) described_cmds
      @ [''complete -c tp -n '' @ sq ''__fish_seen_subcommand_from post'' @ '' -l label -l ttl -l max-gets -l code-style -r'',
       ''complete -c tp -n '' @ sq ''__fish_seen_subcommand_from post'' @ '' -l burn'',
       ''complete -c tp -n '' @ sq ''__fish_seen_subcommand_from post'' @ '' -F'',
       ''complete -c tp -n '' @ sq ''__fish_seen_subcommand_from get'' @ '' -l host -l timeout -r'',
       ''complete -c tp -n '' @ sq ''__fish_seen_subcommand_from del'' @ '' -l all'',
       ''complete -c tp -n '' @ sq ''__fish_seen_subcommand_from doctor'' @ '' -l fix -l quiet'',
       ''complete -c tp -n '' @ sq ''__fish_seen_subcommand_from uninstall'' @ '' -l yes'',
       ''complete -c tp -n '' @ sq ''__fish_seen_subcommand_from completion'' @ '' -a '' @ sq ''bash zsh fish''])"

definition cmdCompletion :: "string list \<Rightarrow> string result" where
  "cmdCompletion args =
     (if length args \<noteq> 1 then Inl (ErrMsg ''usage: tp completion <bash|zsh|fish>'')
      else case map_of [(''bash'', bashCompletion), (''zsh'', zshCompletion), (''fish'', fishCompletion)] (args ! 0) of
        None \<Rightarrow> Inl (ErrMsg (''unknown shell '' @ args ! 0))
      | Some script \<Rightarrow> Inr script)"

text \<open>Every shell is offered exactly the commands of the usage, in its order.\<close>

lemma completion_commands:
  "strings_Split CHR '' '' bash_cmds = map cm_name (filter (\<lambda>c. \<not> cm_hidden c) commands)
   \<and> map fst described_cmds = map cm_name (filter (\<lambda>c. \<not> cm_hidden c) commands)"
  by (simp add: bash_cmds_def described_cmds_def commands_def visible_def)

section \<open>Version\<close>

record buildInfo =
  bi_Version :: string
  bi_Commit :: string
  bi_Date :: string
  bi_Dirty :: bool

text \<open>The settings of the module information, in order; later ones overwrite earlier ones.\<close>

fun settings_loop :: "(string \<times> string) list \<Rightarrow> buildInfo \<Rightarrow> buildInfo" where
  "settings_loop [] b = b"
| "settings_loop ((k, v) # settings) b =
     settings_loop settings
       (if k = ''vcs.revision'' then b\<lparr>bi_Commit := v\<rparr>
        else if k = ''vcs.time'' then b\<lparr>bi_Date := v\<rparr>
        else if k = ''vcs.modified'' then b\<lparr>bi_Dirty := (v = ''true'')\<rparr> else b)"

definition readBuildInfo :: "string \<Rightarrow> (string \<times> (string \<times> string) list) option \<Rightarrow> buildInfo" where
  "readBuildInfo version info =
     (let b = \<lparr>bi_Version = version, bi_Commit = [], bi_Date = [], bi_Dirty = False\<rparr>
      in case info of
        None \<Rightarrow> if bi_Version b = [] then b\<lparr>bi_Version := ''unknown''\<rparr> else b
      | Some (mainVersion, settings) \<Rightarrow>
          let b = (if bi_Version b = [] \<and> mainVersion \<noteq> [] \<and> mainVersion \<noteq> ''(devel)''
                   then b\<lparr>bi_Version := mainVersion\<rparr> else b);
              b = settings_loop settings b
          in if bi_Version b = [] then b\<lparr>bi_Version := ''devel''\<rparr> else b)"

definition short_commit :: "string \<Rightarrow> string" where
  "short_commit c = (if length c > 12 then take 12 c else c)"

text \<open>Without its line breaks: the version line, and the toolchain and platform.\<close>

definition buildInfo_String :: "string \<Rightarrow> string \<Rightarrow> string \<Rightarrow> buildInfo \<Rightarrow> string list" where
  "buildInfo_String goversion goos goarch b =
     [''tp '' @ bi_Version b
        @ (if bi_Commit b \<noteq> []
           then '' ('' @ short_commit (bi_Commit b) @ (if bi_Dirty b then ''-dirty'' else [])
                @ (if bi_Date b \<noteq> [] then '', '' @ bi_Date b else []) @ '')''
           else []),
      goversion @ '' '' @ goos @ ''/'' @ goarch]"

section \<open>Doctor\<close>

record health =
  hl_Peers :: "peer list"
  hl_Diagnostic :: string
  hl_Packets :: int
  hl_AnyPackets :: int
  hl_Uptime :: string
  hl_Interfaces :: "string list"

text \<open>A line, a line that ends in an error, or the lines of the advice for the platform.\<close>

datatype report_line = Line string | Failed string go_error | Advised advice

definition peer_line :: "peer \<Rightarrow> report_line" where
  "peer_line p = Line (''  '' @ pe_HostID p @ ''  '' @ pe_Hostname p @ ''  '' @ pe_Addr p)"

definition verdict :: "advice \<Rightarrow> health \<Rightarrow> report_line list" where
  "verdict adv h =
     (let others = int (length (hl_Peers h)) - 1
      in if hl_AnyPackets h > 0 \<and> others > 0 then [Line [], Line ''Discovery is working.'']
         else if hl_AnyPackets h > 0
         then [Line [], Line ''This socket can receive multicast, and no other tp host has announced itself.'',
               Line ''Start tp on the other machine and run this again.'']
              @ (if hl_Packets h = 0
                 then [Line ''Nothing at all has been heard from another machine, so if tp is'',
                       Line ''already running there, that side is the one to look at:'',
                       Line ''  tp doctor           on the other machine''] else [])
         else [Line [], Line ''No multicast is arriving, so discovery cannot work.'', Advised adv])"

text \<open>Slicing off the first of no peers panics.\<close>

definition report ::
  "string list \<Rightarrow> bool \<Rightarrow> bool \<Rightarrow> advice \<Rightarrow> health result \<Rightarrow> report_line list result" where
  "report version wsl nat_mode adv answer =
     (case answer of
        Inl e \<Rightarrow> Inr (map Line version @ [Failed ''daemon:      not answering: '' e])
      | Inr h \<Rightarrow>
          if length (hl_Peers h) = 0 then Inl ErrPanic
          else Inr (map Line version
            @ [Line (''daemon:      up '' @ hl_Uptime h),
               Line (''interfaces:  ['' @ strings_Join (hl_Interfaces h) '' '' @ '']''),
               Line (''mdns in:     '' @ strconv_Itoa (hl_AnyPackets h) @ '' packets, ''
                 @ strconv_Itoa (hl_Packets h) @ '' of them from other machines''),
               Line (''peers:       '' @ strconv_Itoa (int (length (hl_Peers h)) - 1))]
            @ map peer_line (tl (hl_Peers h))
            @ (if wsl then [Line (''wsl:         '' @ (if nat_mode then ''nat'' else ''mirrored'') @ '' networking'')] else [])
            @ verdict adv h))"

definition cliID :: string where "cliID = ''sh.tp''"

text \<open>The arguments of \<^verbatim>\<open>codesign\<close>, and what follows from its answers: that of
  \<^verbatim>\<open>exec.LookPath\<close>, and that of the run.\<close>

definition codesign_args :: "string \<Rightarrow> string list" where
  "codesign_args bin = [''--force'', ''--sign'', ''-'', ''--identifier'', cliID, bin]"

definition signSelf :: "go_error option \<Rightarrow> (string list \<Rightarrow> go_error option) \<Rightarrow> string \<Rightarrow> go_error option" where
  "signSelf lookPath codesign bin =
     (case lookPath of
        Some e \<Rightarrow> Some (ErrMsg ''codesign is not installed'')
      | None \<Rightarrow>
          (case codesign (codesign_args bin) of
             Some e \<Rightarrow> Some (ErrMsg ''codesign'')
           | None \<Rightarrow> None))"

text \<open>The probe packet and its way: packing, dialling the group, writing.\<close>

definition probeMulticast :: "dnslib \<Rightarrow> go_error option \<Rightarrow> (bytes \<Rightarrow> go_error option) \<Rightarrow> go_error option" where
  "probeMulticast L dial write =
     (case dns_PackQuery L mdnsService of
        None \<Rightarrow> Some (ErrMsg ''pack'')
      | Some buf \<Rightarrow> (case dial of Some e \<Rightarrow> Some e | None \<Rightarrow> write buf))"

definition probe_warning :: "go_error option \<Rightarrow> report_line list" where
  "probe_warning r = (case r of Some e \<Rightarrow> [Failed ''tp: could not send a probe: '' e] | None \<Rightarrow> [])"

text \<open>\<^verbatim>\<open>fixDarwin\<close>, with the calls it makes: it restarts the daemon only once tp is
  signed, and a probe that fails is only reported.\<close>

datatype doctor_call = Codesign "string list" | KillDaemon | Probe

record doctor_env =
  dc_exe :: "string result"
  dc_lookPath :: "go_error option"
  dc_codesign :: "string list \<Rightarrow> go_error option"
  dc_dial :: "go_error option"
  dc_write :: "bytes \<Rightarrow> go_error option"

definition fixDarwin :: "dnslib \<Rightarrow> doctor_env \<Rightarrow> report_line list result \<times> doctor_call list" where
  "fixDarwin L e =
     (case dc_exe e of
        Inl err \<Rightarrow> (Inl err, [])
      | Inr self \<Rightarrow>
          let sign = (if dc_lookPath e = None then [Codesign (codesign_args self)] else [])
          in case signSelf (dc_lookPath e) (dc_codesign e) self of
               Some err \<Rightarrow> (Inl err, sign)
             | None \<Rightarrow>
                 (Inr ([Line (''signed '' @ self @ '' as '' @ cliID)]
                    @ probe_warning (probeMulticast L (dc_dial e) (dc_write e))
                    @ [Line ''macOS should now ask whether tp may find devices on local networks. Allow it.'',
                       Line ''If nothing appears, the decision is already recorded:'',
                       Line (''  open '' @ [CHR 0x27]
                         @ ''x-apple.systempreferences:com.apple.preference.security?Privacy_LocalNetwork'' @ [CHR 0x27]),
                       Line ''Then run tp doctor.'']),
                  sign @ [KillDaemon, Probe]))"

definition doctorFix ::
  "dnslib \<Rightarrow> string \<Rightarrow> bool \<Rightarrow> advice \<Rightarrow> doctor_env \<Rightarrow> report_line list result \<times> doctor_call list" where
  "doctorFix L goos quiet adv e =
     (if goos \<noteq> osDarwin then (Inr (if quiet then [] else [Advised adv]), []) else fixDarwin L e)"

text \<open>The datagrams \<^verbatim>\<open>watchMulticast\<close> reads before its deadline: the clock before each read,
  and its result, the length and the source.\<close>

fun watch_loop ::
  "gotime \<Rightarrow> (gotime \<times> (nat \<times> string) result) list \<Rightarrow> nat \<Rightarrow> (string, nat) gomap \<Rightarrow> nat \<times> (string, nat) gomap" where
  "watch_loop deadline [] cnt sources = (cnt, sources)"
| "watch_loop deadline ((now, r) # reads) cnt sources =
     (if \<not> time_Before now deadline then (cnt, sources)
      else case r of
        Inl e \<Rightarrow> (cnt, sources)
      | Inr (n, src) \<Rightarrow>
          if n > 0
          then watch_loop deadline reads (cnt + 1)
                 (mput src ((case mget sources src of None \<Rightarrow> 0 | Some k \<Rightarrow> k) + 1) sources)
          else watch_loop deadline reads cnt sources)"

definition watch_report :: "advice \<Rightarrow> (string \<times> nat) list \<Rightarrow> nat \<times> (string, nat) gomap \<Rightarrow> report_line list" where
  "watch_report adv ord r =
     (case r of (cnt, sources) \<Rightarrow>
        Line (strconv_Itoa (int cnt) @ '' datagrams from '' @ strconv_Itoa (int (length sources)) @ '' sources'')
        # map (\<lambda>(ip, n). Line (''  '' @ pad_right 15 ip @ '' '' @ strconv_Itoa (int n))) ord
        @ (if cnt = 0 then [Line ''Nothing at all, so this socket cannot receive multicast.'', Advised adv] else []))"

text \<open>\<^verbatim>\<open>watchMulticast\<close> on the first usable interface: joining the group, the probe, the
  read deadline, the datagrams, and whether the context ended meanwhile. It prints before its error
  is known.\<close>

record watch_env =
  we_ifaces :: "iface list result"
  we_listen :: "string \<Rightarrow> go_error option"
  we_probe :: "go_error option"
  we_deadline :: "go_error option"
  we_now :: gotime
  we_reads :: "(gotime \<times> (nat \<times> string) result) list"
  we_ctx :: "go_error option"

definition watchMulticast ::
  "watch_env \<Rightarrow> advice \<Rightarrow> ((string, nat) gomap \<Rightarrow> (string \<times> nat) list) \<Rightarrow> duration
    \<Rightarrow> report_line list \<times> go_error option" where
  "watchMulticast e adv ord d =
     (case usableInterfaces (we_ifaces e) of
        Inl err \<Rightarrow> ([], Some err)
      | Inr ifaces \<Rightarrow>
          let ifi = ifaces ! 0
          in case we_listen e (if_Name ifi) of
               Some err \<Rightarrow> ([], Some err)
             | None \<Rightarrow>
                 let out = [Line (''listening on '' @ if_Name ifi @ '' for '' @ duration_String d @ '', and asking once'')]
                       @ probe_warning (we_probe e)
                 in case we_deadline e of
                      Some err \<Rightarrow> (out, Some err)
                    | None \<Rightarrow>
                        let r = watch_loop (time_Add (we_now e) d) (we_reads e) 0 []
                        in (out @ watch_report adv (ord (snd r)) r, we_ctx e))"

text \<open>The choice of \<^verbatim>\<open>cmdDoctor\<close> among its flags.\<close>

datatype doctor_mode = DoFix bool | DoWatch duration | DoReport

definition cmdDoctor :: "bool \<Rightarrow> duration \<Rightarrow> bool \<Rightarrow> doctor_mode" where
  "cmdDoctor fix listen quiet =
     (if fix then DoFix quiet else if listen > 0 then DoWatch listen else DoReport)"

section \<open>What the user sees\<close>

text \<open>Every command is found under its name, no name is used twice, and only \<^verbatim>\<open>daemon\<close> is
  left out of the usage.\<close>

lemma commands_names: "distinct (map cm_name commands) \<and> map cm_name (filter cm_hidden commands) = [''daemon'']"
  by (simp add: commands_def visible_def)

lemma lookup_loop_mem: "distinct (map cm_name cs) \<Longrightarrow> c \<in> set cs \<Longrightarrow> lookup_loop cs (cm_name c) = Some c"
  by (induction cs) (auto simp: image_iff)

lemma lookup_loop_Some: "lookup_loop cs name = Some c \<Longrightarrow> c \<in> set cs \<and> cm_name c = name"
  by (induction cs) (auto split: if_splits)

lemma commands_found: "c \<in> set commands \<Longrightarrow> run (cm_name c # args) = Inr (cm_run c, args)"
  using lookup_loop_mem [OF conjunct1 [OF commands_names], of c] by (simp add: run_def lookup_def)

lemma commands_only: "run (a # args) = Inr (c, args') \<Longrightarrow> args' = args \<and> (\<exists>x \<in> set commands. cm_name x = a \<and> cm_run x = c)"
  using lookup_loop_Some [of commands a] by (auto simp: run_def lookup_def split: option.splits)

lemma settings_Version: "bi_Version (settings_loop settings b) = bi_Version b"
  by (induction settings b rule: settings_loop.induct) simp_all

text \<open>A version set by the linker wins, and there is always one.\<close>

lemma readBuildInfo_version:
  "bi_Version (readBuildInfo version info) \<noteq> []
   \<and> (version \<noteq> [] \<longrightarrow> bi_Version (readBuildInfo version info) = version)"
  by (auto simp: readBuildInfo_def Let_def settings_Version split: option.splits)

text \<open>
  On the answer of a running daemon the report does not panic, and it says that discovery works
  exactly when multicast arrives and the daemon knows another machine.
\<close>

lemma report_of_daemon:
  assumes "handlePeers L sk adv now now' q obs (\<lambda>d. d) ord d = (PeersJSON peers diag np na up ifs, d')"
    and "visits (ord d') (pt_m (dm_peers d'))"
    and "hl_Peers h = peers" and "hl_AnyPackets h = na" and "0 \<le> na"
  shows "\<exists>rep. report version wsl nat_mode adv' (Inr h) = Inr rep
    \<and> (Line ''Discovery is working.'' \<in> set (verdict adv' h) \<longleftrightarrow> na \<noteq> 0 \<and> pt_m (dm_peers d') \<noteq> [])"
proof -
  have p: "peers = own_peer now' d' # map snd (ord d')"
    using assms(1) by (auto simp: handlePeers_def peers_list_def own_peer_def Let_def and_then_def
        split: prod.splits if_splits option.splits sum.splits)
  have "ord d' = [] \<longleftrightarrow> pt_m (dm_peers d') = []" using assms(2) by (auto simp: visits_def)
  then show ?thesis
    using p assms(3-5) by (auto simp: report_def verdict_def Let_def)
qed

text \<open>The total of \<^verbatim>\<open>watchMulticast\<close> is the sum over its sources.\<close>

lemma sum_mput:
  "mwf m \<Longrightarrow> sum_list (map snd (mput k ((case mget m k of None \<Rightarrow> 0 | Some n \<Rightarrow> n) + 1) m)) = Suc (sum_list (map snd m))"
  by (induction m) (auto simp: mput_def mget_def mwf_def split: option.splits)

lemma watch_total:
  "mwf sources \<Longrightarrow> n = sum_list (map snd sources) \<Longrightarrow>
   (case watch_loop deadline reads n sources of (n', sources') \<Rightarrow> mwf sources' \<and> n' = sum_list (map snd sources'))"
proof (induction reads arbitrary: n sources)
  case (Cons x reads)
  obtain now r where x: "x = (now, r)" by (cases x)
  show ?case
  proof (cases "time_Before now deadline \<and> (\<exists>k src. r = Inr (k, src) \<and> k > 0)")
    case True
    then obtain k src where r: "r = Inr (k, src)" "k > 0" by blast
    let ?new = "mput src ((case mget sources src of None \<Rightarrow> 0 | Some k \<Rightarrow> k) + 1) sources"
    have "n + 1 = sum_list (map snd ?new)" using sum_mput [OF Cons.prems(1), of src] Cons.prems(2) by simp
    then have "case watch_loop deadline reads (n + 1) ?new of (n', s') \<Rightarrow> mwf s' \<and> n' = sum_list (map snd s')"
      by (intro Cons.IH mwf_mput Cons.prems(1))
    then show ?thesis using True r by (simp add: x)
  next
    case False
    then show ?thesis
      using Cons.IH [OF Cons.prems] Cons.prems by (cases r) (auto simp: x simp del: split_paired_Ex)
  qed
qed simp

text \<open>tp is only restarted under an identity it was given: the daemon is stopped only after the
  signing succeeded, and then the probe goes out; on other systems nothing is run.\<close>

lemma doctorFix_calls:
  assumes "doctorFix L goos quiet adv e = (r, calls)"
  shows "KillDaemon \<in> set calls \<longleftrightarrow>
      goos = osDarwin \<and> (\<exists>self. dc_exe e = Inr self \<and> dc_lookPath e = None
        \<and> dc_codesign e (codesign_args self) = None
        \<and> calls = [Codesign (codesign_args self), KillDaemon, Probe])"
    and "(\<exists>err. r = Inl err) \<longrightarrow> KillDaemon \<notin> set calls"
  using assms
  by (auto simp: doctorFix_def fixDarwin_def signSelf_def Let_def split: if_splits sum.splits option.splits)

lemma watch_silence:
  assumes "watchMulticast e adv ord d = (out, None)"
  shows "Advised adv \<in> set out \<longleftrightarrow> fst (watch_loop (time_Add (we_now e) d) (we_reads e) 0 []) = 0"
  using assms
  by (auto simp: watchMulticast_def watch_report_def probe_warning_def Let_def
      split: sum.splits option.splits prod.splits if_splits)

end
