(* ===== verification/Spec2Isabelle.thy ===== *)
theory Spec2Isabelle
  imports Go_Prelude Go_Map Go_Float Go_Slice Go_Strings Params Hex Encoding Sha2 Rand Wordlist
    Limiter Store Store_Spec Code Pake Wire Pins Fetch Daemon
    Delivery Go_Parse Go_Net Interfaces Mdns Control Life Commands Host Cli
begin

text \<open>
  A verification development for \<^verbatim>\<open>tp\<close>, a program that shares a paste with another machine
  on the same network: \<^verbatim>\<open>tp post\<close> hands a paste to a daemon and prints a short code, and
  \<^verbatim>\<open>tp get\<close> on another machine finds the daemons of the network by multicast DNS and fetches
  the paste from the one that holds it, by a password-authenticated key exchange over the code.

  \<^bold>\<open>The program and its theories.\<close> Each Go file has its theory; a definition has the name of the
  function, method or type it models, with the receiver's type in front where two of them share a name
  (\<^verbatim>\<open>store.add\<close> is \<open>store_add\<close>), a struct is a record whose field names have a
  short prefix, and the body of a loop is a recursive function named after it.

  \<^item> \<open>Store\<close> (\<^verbatim>\<open>store.go\<close>): the pastes in memory, a map from the hexadecimal PAKE
    secret to an entry whose payload is a slice in an explicit heap, so that copying, sharing and
    erasing of buffers are visible. \<open>Store_Spec\<close> holds its contract: a partial function from secrets
    to a payload, the fetches left and an expiry.
  \<^item> \<open>Limiter\<close> (\<^verbatim>\<open>limits.go\<close>): token buckets and the blocking of addresses, in
    \<^verbatim>\<open>float64\<close> arithmetic.
  \<^item> \<open>Code\<close>, \<open>Rand\<close>, \<open>Wordlist\<close> (\<^verbatim>\<open>code.go\<close> and its embedded list): drawing, expanding and
    normalising codes.
  \<^item> \<open>Pake\<close>, \<open>Wire\<close> (\<^verbatim>\<open>pake.go\<close>, \<^verbatim>\<open>wire.go\<close>): CPace, frames on a
    connection, the two sides of the exchange and the sealing of payloads.
  \<^item> \<open>Pins\<close> (\<^verbatim>\<open>pins.go\<close>, the host ID of \<^verbatim>\<open>identity.go\<close>): the cache of known
    hosts, as the content of its file.
  \<^item> \<open>Fetch\<close> (\<^verbatim>\<open>fetch.go\<close>): the client's side of an exchange, the pin check, and the fan-out
    over candidates as a step relation on its goroutines, whose context a timeout or a signal may end.
  \<^item> \<open>Daemon\<close>, \<open>Control\<close> (\<^verbatim>\<open>daemon.go\<close>): the daemon's state, the handshake of the data
    plane in its two critical parts, the handlers of the control plane, start-up, and one round of each
    loop. \<open>Delivery\<close> runs client and daemon against each other; \<open>Life\<close> has the histories of the daemon.
  \<^item> \<open>Interfaces\<close> (\<^verbatim>\<open>interfaces.go\<close>, \<^verbatim>\<open>env.go\<close>) and \<open>Mdns\<close>
    (\<^verbatim>\<open>mdns.go\<close>): the filter of interfaces, the table of peers, what is announced and
    learned, and when queries are answered.
  \<^item> \<open>Commands\<close> (\<^verbatim>\<open>commands.go\<close>), \<open>Host\<close> (\<^verbatim>\<open>util.go\<close>, \<^verbatim>\<open>identity.go\<close>,
    \<^verbatim>\<open>uninstall.go\<close>) and \<open>Cli\<close> (\<^verbatim>\<open>main.go\<close>, \<^verbatim>\<open>version.go\<close>,
    \<^verbatim>\<open>doctor.go\<close>, \<^verbatim>\<open>completion.go\<close>): the client.

  Below them stand what the source uses of Go: \<open>Go_Prelude\<close> (errors as values, time, constants),
  \<open>Go_Map\<close> (maps in the order of an association list; a loop over a map takes the order it visits as an
  argument, any permutation), \<open>Go_Float\<close> (rounding to nearest on the rationals), \<open>Go_Slice\<close>
  (slices and their heap), \<open>Go_Strings\<close>, \<open>Go_Parse\<close>, \<open>Go_Net\<close>, \<open>Hex\<close>, \<open>Encoding\<close>, \<open>Sha2\<close>, and
  \<open>Params\<close>.

  \<^bold>\<open>How state and effects are modelled.\<close> Stateful code passes its state explicitly; a method that
  fails returns a sum whose left side is the error. Clock readings, randomness (a list of bytes that is
  used up, whose end is the panic of the source), orders of map iteration and the answers of the
  operating system are arguments. Times and durations are integers in nanoseconds.

  Methods under a mutex are atomic. A handler is one function, from its first statement to its answer; the
  handshake, which waits for its peer after the offer, is two (between them \<open>world\<close> stands for what
  other connections do), and each step of a goroutine of the fan-out is its own. A handler that takes
  several locks one after the other (a post, a tick of the sweep loop, a change of the network, an
  offer) is thus one step as long as it is looked at alone. In the histories of \<open>Life\<close> its sections
  are steps of their own as well, which other steps may separate: a tick of the sweep loop is three of
  them (\<open>sweepTick_steps\<close>), a post is one at the point of its last call of the store, with its touch
  and the draws that collided before it as further ones. \<open>idle_stop\<close> is about one tick that
  nothing interrupts.

  \<^bold>\<open>Parameters.\<close> Code outside the repository is an argument: ristretto255, scrypt and the AEAD (record
  \<open>suite\<close>, laws \<open>suite_ok\<close>), TLS (\<open>tls_state\<close>), the DNS message library (\<open>dnslib\<close>, laws
  \<open>dns_ok\<close>), the key formats (\<open>keylib\<close>, laws \<open>keylib_ok\<close>), the case and space tables beyond
  ASCII (\<open>unicode\<close>), the parser of IPv6 literals, JSON and HTTP. The laws are what their
  documentation promises; toy instances satisfy them in the witnesses.

  \<^bold>\<open>What the lemmas show.\<close>

  \<^item> Store: every call of every history refines the contract and keeps the invariant; stored pastes stay
    available until they are deleted, expire or are used up; a dropped payload is erased; an offer holds
    every live secret among decoys, in every order equally likely.
  \<^item> Exchange: both sides agree on keys or both fail; the transcript determines its inputs; what is framed
    and sealed is read and opened; \<open>exchange_delivers\<close> puts the parts together: whoever knows the code
    gets the payload. \<open>payload_guarded\<close> is the converse, for the whole handshake: beyond the offer
    nothing is written but the payload of the secret that the confirmed side was made for.
  \<^item> Daemon: \<open>life_step\<close> has one rule for every handler, tick, packet and timer. Each step
    accounts for its deliveries by calls of the store (\<open>run_accounts\<close>), so the contract of the store
    becomes an end-to-end limit (\<open>delivered_at_most\<close>), and \<open>daemon_ok\<close> collects the
    invariants of the parts.
  \<^item> Limits: guesses, legacy answers, connections, frames and offers are bounded, rounding included.
    Fifty failures block an address, with any calls in between; a sweep of the limiter is invisible in
    every continuation (\<open>limiters_alike\<close> is a simulation of the unswept limiter by the swept one)
    unless it drops an entry with a recent failure, which \<open>sweep_forgets_failures\<close> shows to matter.
  \<^item> Handlers: \<open>handlePost_stores\<close> and \<open>del_by_code\<close> fix the answer and the store after
    every request, from the path and the query the client makes to the entry of the store.
  \<^item> Discovery: what is announced is learned, at the addresses served and no others; answers are spaced;
    a live machine stays known although announcements are lost and timers are late (\<open>announceLoop\<close> runs
    over the instants at which its waits end, and sends); the client makes of the table one
    candidate per machine with the right pin.
  \<^item> Texts: codes, pins, query parameters, durations, addresses and host-port pairs are read back as
    they are written.
  \<^item> Flaws: a forged pin, a lost lifetime, a nil responder in an interface, a doubly bracketed address.

  \<^bold>\<open>Locales.\<close> Shared contracts are locales interpreted on the model: token buckets (twice on the
  limiter, once on legacy answers), maps swept of stale entries (limiter, store, peers), and
  self-delimiting encodings (of strings and of frames).

  \<^bold>\<open>Termination and bounds.\<close> All functions are total. Loops over input are structural. The padding of
  offers doubles up to a bound and has a measure; drawing with rejection consumes randomness, and so does
  the loop of \<^verbatim>\<open>handlePost\<close> that draws codes until one is free; the fan-out has a measure that
  each of its steps decreases, so it ends in every schedule. There is no fuel.

  \<^bold>\<open>Not modelled.\<close> Sockets, TLS records, HTTP and JSON, processes and signals, the parsing of flags,
  the printing of most messages, and what a shell makes of a completion script: they are calls into
  libraries or the operating system with no decision of the program in them; what they answer is an
  argument of the definitions. The text of some errors built by \<^verbatim>\<open>fmt.Errorf\<close> is abbreviated.
  Timing side channels, and the strength of the
  cryptography, are outside the logic: the theorems say which value is compared or sealed, not what an
  adversary can compute.
\<close>

end
